(* ===== verification/Prelude.thy ===== *)
theory Prelude
  imports Main "HOL-Library.Word" "HOL-Library.Multiset"
begin

text \<open>
  Shared vocabulary of the development.

  \<^item> Machine integers: \<open>u8\<close> to \<open>u64\<close> are words of that width; Rust's
    \<open>checked_add(1)\<close> and \<open>saturating_add\<close> are \<open>checked_inc\<close>, \<open>sat_inc\<close> and \<open>sat_add\<close>.
    Status codes (\<open>i32\<close>) on which the code does no arithmetic are \<open>int\<close>.
  \<^item> Fixed arrays are lists updated by index.  \<open>somes\<close> is Rust's
    \<open>iter().flatten()\<close> on an array of options, \<open>position\<close> is \<open>iter().position(..)\<close>.
  \<^item> Rings (\<open>head\<close>, \<open>len\<close> and an array) are read through \<open>rotate\<close>: the element
    \<open>i\<close> places behind the head is \<open>rotate head xs ! i\<close>.
  \<^item> Slot tables (arrays of \<open>Option\<close>) are counted by \<open>occupied\<close>.
  \<^item> The interfaces that several components provide are locales: \<open>fifo\<close> (a bounded
    first-in first-out queue), \<open>machine\<close> (operations that keep an invariant),
    \<open>latch\<close> and \<open>sticky\<close> (a fault that no later operation clears or replaces).
\<close>

section \<open>Names for the types of the source\<close>

type_synonym u8 = "8 word"
type_synonym u16 = "16 word"
type_synonym u32 = "32 word"
type_synonym u64 = "64 word"
type_synonym i32 = int
type_synonym addr = nat

text \<open>\<open>core::task::Poll\<close>.\<close>

datatype 'a poll = Pending | Ready 'a

primrec is_pending :: "'a poll \<Rightarrow> bool" where
  "is_pending Pending = True"
| "is_pending (Ready a) = False"

text \<open>Operations of a bounded queue, for the runs of the \<open>fifo\<close> interface.\<close>

datatype 'a qop = Enq 'a | Deq

section \<open>Machine arithmetic\<close>

text \<open>\<open>x.checked_add(1)\<close>, \<open>x.saturating_add(1)\<close> and \<open>x.saturating_add(y)\<close> on unsigned
  words; the largest word is \<open>- 1\<close>.\<close>

definition checked_inc :: "'w::len word \<Rightarrow> 'w word option" where
  "checked_inc x = (if x = - 1 then None else Some (x + 1))"

definition sat_inc :: "'w::len word \<Rightarrow> 'w word" where
  "sat_inc x = (if x = - 1 then x else x + 1)"

definition sat_add :: "'w::len word \<Rightarrow> 'w word \<Rightarrow> 'w word" where
  "sat_add x y = (if y \<le> - 1 - x then x + y else - 1)"

definition sat_sub :: "'w::len word \<Rightarrow> 'w word \<Rightarrow> 'w word" where
  "sat_sub x y = (if y \<le> x then x - y else 0)"

section \<open>Arrays of options\<close>

definition somes :: "'a option list \<Rightarrow> 'a list" where
  "somes xs = List.map_filter id xs"

fun position :: "('a \<Rightarrow> bool) \<Rightarrow> 'a list \<Rightarrow> nat option" where
  "position P [] = None"
| "position P (x # xs) = (if P x then Some 0 else map_option Suc (position P xs))"

definition occupied :: "'a option list \<Rightarrow> nat" where
  "occupied xs = length (filter (\<lambda>x. x \<noteq> None) xs)"

text \<open>The first occupied slot whose element satisfies \<open>P\<close>, as \<open>iter_mut().flatten().find(..)\<close>
  and \<open>iter().position(|s| s.is_some_and(..))\<close> select it.\<close>

definition slot_pos :: "('a \<Rightarrow> bool) \<Rightarrow> 'a option list \<Rightarrow> nat option" where
  "slot_pos P xs = position (\<lambda>s. case s of None \<Rightarrow> False | Some a \<Rightarrow> P a) xs"

definition free_pos :: "'a option list \<Rightarrow> nat option" where
  "free_pos xs = position (\<lambda>s. s = None) xs"

text \<open>No two slots hold elements with the same key.\<close>

definition slot_inj :: "('a \<Rightarrow> 'k) \<Rightarrow> 'a option list \<Rightarrow> bool" where
  "slot_inj f xs \<longleftrightarrow> (\<forall>i j a b. i < length xs \<and> j < length xs \<and> xs ! i = Some a \<and> xs ! j = Some b
     \<and> f a = f b \<longrightarrow> i = j)"

text \<open>A run of queue operations: the accepted and the delivered elements, in order.\<close>

fun qrun :: "('a \<Rightarrow> 'q \<Rightarrow> 'q option) \<Rightarrow> ('q \<Rightarrow> ('a \<times> 'q) option) \<Rightarrow> 'a qop list \<Rightarrow> 'q
    \<Rightarrow> 'a list \<times> 'a list \<times> 'q" where
  "qrun enq deq [] q = ([], [], q)"
| "qrun enq deq (Enq x # ops) q =
     (case enq x q of
        None \<Rightarrow> qrun enq deq ops q
      | Some q' \<Rightarrow> (case qrun enq deq ops q' of (ac, de, q'') \<Rightarrow> (x # ac, de, q'')))"
| "qrun enq deq (Deq # ops) q =
     (case deq q of
        None \<Rightarrow> qrun enq deq ops q
      | Some (x, q') \<Rightarrow> (case qrun enq deq ops q' of (ac, de, q'') \<Rightarrow> (ac, x # de, q'')))"

named_theorems step_simps \<open>unfolding rules of one operation of a component\<close>

section \<open>Lemmas on machine arithmetic\<close>

lemma unat_minus_one_word [simp]: "unat (- 1 :: 'w::len word) = 2 ^ LENGTH('w) - 1"
  by (simp add: unsigned_minus_1_eq_mask mask_eq_exp_minus_1)

lemma eq_minus_one_iff: "x = (- 1 :: 'w::len word) \<longleftrightarrow> Suc (unat x) = 2 ^ LENGTH('w)"
proof -
  have "x = - 1 \<longleftrightarrow> unat x = 2 ^ LENGTH('w) - 1"
    by (simp add: word_unat_eq_iff)
  moreover have "0 < (2::nat) ^ LENGTH('w)" by simp
  ultimately show ?thesis by linarith
qed

lemma unat_inc: "x \<noteq> (- 1 :: 'w::len word) \<Longrightarrow> unat (x + 1) = Suc (unat x)"
  by (metis add.commute add_eq_0_iff unatSuc)

lemma unat_dec: "0 < unat x \<Longrightarrow> unat (x - 1) = unat x - 1"
  by (rule unat_minus_one) auto

lemma checked_inc_Some:
  "checked_inc x = Some y \<longleftrightarrow> x \<noteq> - 1 \<and> y = x + 1"
  by (auto simp: checked_inc_def)

lemma checked_inc_None [simp]: "checked_inc x = None \<longleftrightarrow> x = - 1"
  by (simp add: checked_inc_def)

lemma checked_inc_unat: "checked_inc x = Some y \<Longrightarrow> unat y = Suc (unat x)"
  by (auto simp: checked_inc_Some unat_inc)

lemma unat_sat_inc: "unat (sat_inc (x :: 'w::len word)) = min (Suc (unat x)) (2 ^ LENGTH('w) - 1)"
proof (cases "x = - 1")
  case True
  then show ?thesis by (simp add: sat_inc_def)
next
  case False
  have "Suc (unat x) \<noteq> 2 ^ LENGTH('w)" using False by (simp add: eq_minus_one_iff)
  moreover have "unat x < 2 ^ LENGTH('w)" by (rule unsigned_less)
  ultimately have "Suc (unat x) \<le> 2 ^ LENGTH('w) - 1" by linarith
  then show ?thesis using False by (simp add: sat_inc_def unat_inc min_absorb1)
qed

lemma sat_inc_exact: "x \<noteq> - 1 \<Longrightarrow> sat_inc x = x + 1"
  by (simp add: sat_inc_def)

lemma unat_sat_sub: "unat (sat_sub x y) = unat x - unat y"
  by (auto simp: sat_sub_def unat_sub word_le_nat_alt)

lemma unat_sat_add:
  "unat (sat_add (x :: 'w::len word) y) = min (unat x + unat y) (2 ^ LENGTH('w) - 1)"
proof -
  have c: "unat (- 1 - x) = 2 ^ LENGTH('w) - 1 - unat x"
    by (simp add: unat_sub)
  have lx: "unat x < 2 ^ LENGTH('w)" by (rule unsigned_less)
  show ?thesis
  proof (cases "y \<le> - 1 - x")
    case True
    then have le: "unat y \<le> 2 ^ LENGTH('w) - 1 - unat x" by (simp add: word_le_nat_alt c)
    then have lt: "unat x + unat y < 2 ^ LENGTH('w)" using lx by linarith
    then have "unat x + unat y \<le> 2 ^ LENGTH('w) - 1" by linarith
    then show ?thesis using True lt by (simp add: sat_add_def unat_add_lem min_absorb1)
  next
    case False
    then have "\<not> unat y \<le> 2 ^ LENGTH('w) - 1 - unat x" by (simp add: word_le_nat_alt c)
    then show ?thesis using False by (simp add: sat_add_def)
  qed
qed

lemma of_nat_unat_inj:
  "\<lbrakk> m < 2 ^ LENGTH('w); n < 2 ^ LENGTH('w) \<rbrakk>
    \<Longrightarrow> (of_nat m :: 'w::len word) = of_nat n \<longleftrightarrow> m = n"
  by (simp add: word_of_nat_eq_iff take_bit_nat_eq_self)

section \<open>Lemmas on arrays of options\<close>

lemma somes_simps [simp]:
  "somes [] = []" "somes (None # xs) = somes xs" "somes (Some x # xs) = x # somes xs"
  by (simp_all add: somes_def)

lemma somes_append [simp]: "somes (xs @ ys) = somes xs @ somes ys"
  by (simp add: somes_def List.map_filter_def)

lemma somes_map_Some [simp]: "somes (map Some xs) = xs"
  by (induction xs) auto

lemma somes_replicate_None [simp]: "somes (replicate n None) = []"
  by (induction n) auto

lemma set_somes: "set (somes xs) = {x. Some x \<in> set xs}"
  by (force simp: somes_def List.map_filter_def)

lemma length_somes: "length (somes xs) = occupied xs"
  by (simp add: somes_def List.map_filter_def occupied_def)

lemma find_append:
  "List.find P (xs @ ys) = (case List.find P xs of None \<Rightarrow> List.find P ys | Some x \<Rightarrow> Some x)"
  by (induction xs) auto

lemma find_unique:
  "\<lbrakk> x \<in> set xs; P x; \<And>y. y \<in> set xs \<Longrightarrow> P y \<Longrightarrow> y = x \<rbrakk> \<Longrightarrow> List.find P xs = Some x"
proof -
  assume x: "x \<in> set xs" "P x" and u: "\<And>y. y \<in> set xs \<Longrightarrow> P y \<Longrightarrow> y = x"
  obtain y where y: "List.find P xs = Some y"
    using x by (metis find_None_iff not_None_eq)
  then have "y \<in> set xs" "P y" by (auto simp: find_Some_iff)
  then show ?thesis using u y by simp
qed

lemma position_Some:
  "position P xs = Some i \<Longrightarrow> i < length xs \<and> P (xs ! i) \<and> (\<forall>j < i. \<not> P (xs ! j))"
proof (induction P xs arbitrary: i rule: position.induct)
  case (2 P x xs)
  show ?case
  proof (cases "P x")
    case False
    then obtain k where "position P xs = Some k" "i = Suc k" using 2(2) by auto
    then show ?thesis using 2(1) False by (auto simp: less_Suc_eq_0_disj)
  qed (use 2 in auto)
qed simp

lemma position_None: "position P xs = None \<longleftrightarrow> (\<forall>x \<in> set xs. \<not> P x)"
  by (induction P xs rule: position.induct) auto

lemma occupied_simps [simp]:
  "occupied [] = 0" "occupied (None # xs) = occupied xs" "occupied (Some x # xs) = Suc (occupied xs)"
  by (simp_all add: occupied_def)

lemma occupied_replicate_None [simp]: "occupied (replicate n None) = 0"
  by (induction n) auto

lemma occupied_le: "occupied xs \<le> length xs"
  by (simp add: occupied_def)

lemma occupied_zero: "occupied xs = 0 \<longleftrightarrow> (\<forall>x \<in> set xs. x = None)"
  by (auto simp: occupied_def filter_empty_conv)

lemma occupied_update:
  "i < length xs \<Longrightarrow>
    occupied (xs[i := y]) + (if xs ! i = None then 0 else 1) = occupied xs + (if y = None then 0 else 1)"
proof (induction xs arbitrary: i)
  case (Cons x xs)
  show ?case
  proof (cases i)
    case 0
    then show ?thesis by (cases x; cases y) auto
  next
    case (Suc j)
    then show ?thesis using Cons by (cases x) auto
  qed
qed simp

lemma occupied_fill:
  "\<lbrakk> i < length xs; xs ! i = None \<rbrakk> \<Longrightarrow> occupied (xs[i := Some y]) = Suc (occupied xs)"
  using occupied_update [of i xs "Some y"] by simp

lemma occupied_keep:
  "\<lbrakk> i < length xs; xs ! i \<noteq> None \<rbrakk> \<Longrightarrow> occupied (xs[i := Some y]) = occupied xs"
  using occupied_update [of i xs "Some y"] by auto

lemma occupied_clear:
  "\<lbrakk> i < length xs; xs ! i \<noteq> None \<rbrakk> \<Longrightarrow> Suc (occupied (xs[i := None])) = occupied xs"
  using occupied_update [of i xs None] by auto

lemma occupied_full: "free_pos xs = None \<Longrightarrow> occupied xs = length xs"
  unfolding free_pos_def position_None occupied_def by (metis (mono_tags, lifting) filter_True)

lemma slot_pos_Some:
  "slot_pos P xs = Some i \<Longrightarrow> i < length xs \<and> (\<exists>a. xs ! i = Some a \<and> P a)"
  by (auto simp: slot_pos_def dest!: position_Some split: option.splits)

lemma slot_pos_None: "slot_pos P xs = None \<longleftrightarrow> (\<forall>a. Some a \<in> set xs \<longrightarrow> \<not> P a)"
  by (auto simp: slot_pos_def position_None split: option.splits)

lemma free_pos_Some: "free_pos xs = Some i \<Longrightarrow> i < length xs \<and> xs ! i = None"
  by (auto simp: free_pos_def dest!: position_Some)

lemma free_pos_None: "free_pos xs = None \<longleftrightarrow> None \<notin> set xs"
  unfolding free_pos_def position_None by metis

lemma set_update_Some:
  "\<lbrakk> Some a \<in> set (xs[i := y]) \<rbrakk> \<Longrightarrow> Some a \<in> set xs \<or> y = Some a"
  using set_update_subset_insert [of xs i y] by auto

lemma slot_posE:
  assumes "slot_pos P xs = Some i"
  obtains a where "i < length xs" "xs ! i = Some a" "P a" "Some a \<in> set xs"
  using slot_pos_Some [OF assms] by (metis nth_mem)

lemma slot_injD:
  "\<lbrakk> slot_inj f xs; i < length xs; j < length xs; xs ! i = Some a; xs ! j = Some b; f a = f b \<rbrakk> \<Longrightarrow> i = j"
  unfolding slot_inj_def by blast

lemma slot_inj_eq:
  "\<lbrakk> slot_inj f xs; Some a \<in> set xs; Some b \<in> set xs; f a = f b \<rbrakk> \<Longrightarrow> a = b"
  using slot_injD [of f xs] unfolding in_set_conv_nth by (metis option.sel)

lemma slot_pos_inj:
  assumes "slot_inj f xs" "i < length xs" "xs ! i = Some a"
  shows "slot_pos (\<lambda>s. f s = f a) xs = Some i"
proof (cases "slot_pos (\<lambda>s. f s = f a) xs")
  case None
  have "Some a \<in> set xs" using assms(2,3) by (metis nth_mem)
  then show ?thesis using None by (auto simp: slot_pos_None)
next
  case (Some j)
  then obtain b where "j < length xs" "xs ! j = Some b" "f b = f a" by (rule slot_posE)
  then show ?thesis using slot_injD [OF assms(1), of j i b a] assms Some by simp
qed

lemma slot_inj_replicate [simp]: "slot_inj f (replicate n None)"
  unfolding slot_inj_def by (metis length_replicate nth_replicate option.distinct(1))

lemma slot_inj_clear: "slot_inj f xs \<Longrightarrow> slot_inj f (xs[i := None])"
  unfolding slot_inj_def
  by (metis length_list_update nth_list_update_eq nth_list_update_neq option.distinct(1))

lemma slot_inj_keep:
  assumes "slot_inj f xs" "i < length xs" "xs ! i = Some a" "f b = f a"
  shows "slot_inj f (xs[i := Some b])"
  unfolding slot_inj_def
proof (intro allI impI, elim conjE)
  fix k j c d
  assume h: "k < length (xs[i := Some b])" "j < length (xs[i := Some b])"
    "xs[i := Some b] ! k = Some c" "xs[i := Some b] ! j = Some d" "f c = f d"
  consider "k = i" "j = i" | "k = i" "j \<noteq> i" | "k \<noteq> i" "j = i" | "k \<noteq> i" "j \<noteq> i" by blast
  then show "k = j"
  proof cases
    case 2
    then show ?thesis using h assms slot_injD [OF assms(1), of i j a d] by simp
  next
    case 3
    then show ?thesis using h assms slot_injD [OF assms(1), of k i c a] by simp
  next
    case 4
    then show ?thesis using h slot_injD [OF assms(1), of k j c d] by simp
  qed simp
qed

lemma slot_inj_fill:
  assumes "slot_inj f xs" "\<And>b. Some b \<in> set xs \<Longrightarrow> f b \<noteq> f a"
  shows "slot_inj f (xs[i := Some a])"
  unfolding slot_inj_def
proof (intro allI impI, elim conjE)
  fix k j c d
  assume h: "k < length (xs[i := Some a])" "j < length (xs[i := Some a])"
    "xs[i := Some a] ! k = Some c" "xs[i := Some a] ! j = Some d" "f c = f d"
  have mem: "Some e \<in> set xs" if "m < length xs" "m \<noteq> i" "xs[i := Some a] ! m = Some e" for m e
    using that by (metis nth_list_update_neq nth_mem)
  consider "k = i" "j = i" | "k = i" "j \<noteq> i" | "k \<noteq> i" "j = i" | "k \<noteq> i" "j \<noteq> i" by blast
  then show "k = j"
  proof cases
    case 2
    then show ?thesis using h mem [of j d] assms(2) [of d] by simp
  next
    case 3
    then show ?thesis using h mem [of k c] assms(2) [of c] by simp
  next
    case 4
    then show ?thesis using h slot_injD [OF assms(1), of k j c d] by simp
  qed simp
qed

section \<open>Lemmas on rings\<close>

lemma rotate_nth:
  "n < length xs \<Longrightarrow> rotate m xs ! n = xs ! ((m + n) mod length xs)"
  by (simp add: nth_rotate)

lemma add_mod_inj:
  fixes k :: nat
  assumes "k < n" "i < n"
  shows "(m + k) mod n = (m + i) mod n \<longleftrightarrow> k = i"
proof
  assume "(m + k) mod n = (m + i) mod n"
  then have "(int m + int k) mod int n = (int m + int i) mod int n"
    by (metis of_nat_add zmod_int)
  then have "int k mod int n = int i mod int n" by (simp add: mod_eq_dvd_iff)
  then show "k = i" using assms by (metis mod_less of_nat_eq_iff zmod_int)
qed simp

lemma rotate_update_at:
  assumes "i < length xs"
  shows "rotate m (xs[(m + i) mod length xs := y]) = (rotate m xs)[i := y]"
proof (rule nth_equalityI)
  fix k assume "k < length (rotate m (xs[(m + i) mod length xs := y]))"
  then have k: "k < length xs" by simp
  have "(m + k) mod length xs = (m + i) mod length xs \<longleftrightarrow> k = i"
    using k assms by (rule add_mod_inj)
  moreover have "(m + i) mod length xs < length xs"
    using assms by (intro mod_less_divisor) linarith
  ultimately show "rotate m (xs[(m + i) mod length xs := y]) ! k = (rotate m xs)[i := y] ! k"
    using k assms by (cases "k = i") (auto simp: rotate_nth)
qed simp

text \<open>Moving the head over one cell while writing it: the read order loses its first
  element and gains the written one at the end.\<close>

lemma rotate_advance:
  assumes "h < length xs"
  shows "rotate (Suc h mod length xs) (xs[h := y]) = tl (rotate h xs) @ [y]"
proof -
  let ?ys = "xs[h := y]"
  have l: "length ?ys = length xs" by simp
  have "rotate (Suc h mod length xs) ?ys = rotate (Suc h) ?ys"
    using rotate_conv_mod [of "Suc h" ?ys] by simp
  also have "\<dots> = rotate1 (rotate h ?ys)" by simp
  also have "rotate h ?ys = (rotate h xs)[0 := y]"
    using rotate_update_at [of 0 xs h y] assms by (cases xs) auto
  also have "rotate1 ((rotate h xs)[0 := y]) = tl (rotate h xs) @ [y]"
    using assms by (cases "rotate h xs") auto
  finally show ?thesis .
qed

text \<open>A window of the last elements of a growing list.\<close>

lemma drop_window: "n < length ys \<Longrightarrow> tl (drop n ys) @ [z] = drop (Suc n) (ys @ [z])"
  by (simp add: drop_Suc tl_drop)

lemma rotate_hd:
  "h < length xs \<Longrightarrow> hd (rotate h xs) = xs ! h"
  using rotate_nth [of 0 xs h] by (metis add_0_right hd_conv_nth length_0_conv length_rotate
      less_nat_zero_code mod_less neq0_conv)

lemma set_somes_rotate [simp]: "set (somes (rotate n xs)) = set (somes xs)"
  by (simp add: set_somes)

text \<open>The contents of a ring of \<open>len\<close> elements, and what an append and a removal do to
  it.\<close>

lemma ring_append:
  "\<lbrakk> len < length xs \<rbrakk>
    \<Longrightarrow> take (Suc len) (rotate h (xs[(h + len) mod length xs := y])) = take len (rotate h xs) @ [y]"
  by (simp add: rotate_update_at take_Suc_conv_app_nth)

lemma ring_remove:
  assumes "h < length xs" "0 < len" "len \<le> length xs"
  shows "take len (rotate h xs) = xs ! h # take (len - 1) (rotate (Suc h mod length xs) xs)"
proof -
  have r: "rotate (Suc h mod length xs) xs = tl (rotate h xs) @ [xs ! h]"
    using rotate_advance [of h xs "xs ! h"] assms by simp
  obtain y ys where ys: "rotate h xs = y # ys"
    using assms by (cases "rotate h xs") auto
  have "y = xs ! h" using rotate_hd [of h xs] assms ys by simp
  moreover have "length ys = length xs - 1" using ys by (metis length_rotate length_tl list.sel(3))
  ultimately show ?thesis using assms r ys by (cases len) auto
qed

section \<open>Interfaces\<close>

text \<open>A bounded queue: \<open>contents\<close> is what it holds, oldest first.\<close>

locale fifo =
  fixes enq :: "'a \<Rightarrow> 'q \<Rightarrow> 'q option"
    and deq :: "'q \<Rightarrow> ('a \<times> 'q) option"
    and contents :: "'q \<Rightarrow> 'a list"
    and ok :: "'q \<Rightarrow> bool"
  assumes enq_ok: "\<lbrakk> ok q; enq x q = Some q' \<rbrakk> \<Longrightarrow> ok q' \<and> contents q' = contents q @ [x]"
    and deq_ok: "\<lbrakk> ok q; deq q = Some (x, q') \<rbrakk> \<Longrightarrow> ok q' \<and> contents q = x # contents q'"
begin

lemma run_conserves:
  "\<lbrakk> ok q; qrun enq deq ops q = (ac, de, q') \<rbrakk>
    \<Longrightarrow> ok q' \<and> contents q @ ac = de @ contents q'"
proof (induction ops arbitrary: q ac de q')
  case (Cons op ops)
  show ?case
  proof (cases op)
    case (Enq x)
    show ?thesis
    proof (cases "enq x q")
      case (Some q1)
      obtain ac1 de1 q2 where r: "qrun enq deq ops q1 = (ac1, de1, q2)" by (cases "qrun enq deq ops q1")
      then have e: "ac = x # ac1" "de = de1" "q' = q2" using Cons.prems Enq Some by auto
      show ?thesis using Cons.IH [OF _ r] enq_ok [OF Cons.prems(1) Some] e by auto
    qed (use Cons Enq in auto)
  next
    case Deq
    show ?thesis
    proof (cases "deq q")
      case (Some p)
      obtain x q1 where p: "p = (x, q1)" by (cases p)
      obtain ac1 de1 q2 where r: "qrun enq deq ops q1 = (ac1, de1, q2)" by (cases "qrun enq deq ops q1")
      then have e: "ac = ac1" "de = x # de1" "q' = q2" using Cons.prems Deq Some p by auto
      show ?thesis using Cons.IH [OF _ r] deq_ok [OF Cons.prems(1)] Some p e by auto
    qed (use Cons Deq in auto)
  qed
qed simp

text \<open>From an empty queue, what is delivered is a prefix of what was accepted.\<close>

lemma run_prefix:
  "\<lbrakk> ok q; contents q = []; qrun enq deq ops q = (ac, de, q') \<rbrakk>
    \<Longrightarrow> ac = de @ contents q'"
  using run_conserves [of q ops ac de q'] by simp

end

text \<open>A component driven by a sequence of operations.\<close>

locale machine =
  fixes step :: "'op \<Rightarrow> 's \<Rightarrow> 's"
    and inv :: "'s \<Rightarrow> bool"
  assumes step_inv: "inv s \<Longrightarrow> inv (step a s)"
begin

lemma run_inv: "inv s \<Longrightarrow> inv (fold step ops s)"
  by (induction ops arbitrary: s) (auto simp: step_inv)

end

text \<open>A condition that no operation clears.\<close>

locale latch =
  fixes step :: "'op \<Rightarrow> 's \<Rightarrow> 's"
    and bad :: "'s \<Rightarrow> bool"
  assumes step_bad: "bad s \<Longrightarrow> bad (step a s)"

sublocale latch \<subseteq> latch_run: machine step bad
  by unfold_locales (rule step_bad)

text \<open>A fault register that keeps its first value.\<close>

locale sticky =
  fixes step :: "'op \<Rightarrow> 's \<Rightarrow> 's"
    and fault :: "'s \<Rightarrow> 'e option"
  assumes step_fault: "fault s = Some e \<Longrightarrow> fault (step a s) = Some e"
begin

lemma run_fault: "fault s = Some e \<Longrightarrow> fault (fold step ops s) = Some e"
  by (induction ops arbitrary: s) (auto simp: step_fault)

end

sublocale sticky \<subseteq> sticky_latch: latch step "\<lambda>s. fault s \<noteq> None"
  by unfold_locales (auto dest: step_fault)

end
