(* ===== verification/Deauth.thy ===== *)
theory Deauth
  imports Prelude
begin

text \<open>
  The receipt queue of the serialized disconnect worker
  (\<open>src/src/upstream_supplicant/deauth.rs\<close>).

  A bounded ring of four accepted requests, one running native call, and a second ring
  with the last eight returned statuses.  A caller takes a \<open>Checkpoint\<close>, later turns
  it into a \<open>Receipt\<close> and polls whether exactly the calls issued in between have returned.

  The definitions follow \<open>impl Queue\<close> method by method.  The specification \<open>aq\<close> is the
  same component with unbounded memory: all returned statuses, whether a call is
  running, and the accepted reasons still waiting.  \<open>dq_rel\<close> relates the two; every
  operation is shown to keep it, and \<open>dq_poll\<close> is then characterised by the
  specification's log alone.
\<close>

section \<open>Data\<close>

definition dq_CAPACITY :: nat where
  [simp]: "dq_CAPACITY = 4"

definition dq_HISTORY :: nat where
  [simp]: "dq_HISTORY = 8"

datatype dticket = DTicket u64

record drequest =
  drq_ticket :: dticket
  drq_reason :: u16

record dcheckpoint =
  dcp_issued :: u64
  dcp_rejected :: u64

record dreceipt =
  drc_before :: u64
  drc_through :: u64

datatype returned = NoRequest | Ioctls

datatype derror = Full | Exhausted | Rejected | EvidenceLost | InvalidCompletion
  | WakeFailed | WorkerUnavailable | Busy | Native i32

fun derror_status :: "derror \<Rightarrow> i32" where
  "derror_status Full = - 0x6301"
| "derror_status Exhausted = - 0x6302"
| "derror_status Rejected = - 0x6303"
| "derror_status EvidenceLost = - 0x6304"
| "derror_status InvalidCompletion = - 0x6305"
| "derror_status WakeFailed = - 0x6306"
| "derror_status WorkerUnavailable = - 0x6308"
| "derror_status Busy = - 0x6309"
| "derror_status (Native status) = status"

record dq =
  dq_requests :: "drequest option list"
  dq_head :: nat
  dq_len :: nat
  dq_running :: "dticket option"
  dq_issued :: u64
  dq_rejected :: u64
  dq_history :: "(dticket \<times> i32) option list"
  dq_history_next :: nat
  dq_fault :: "derror option"
  dq_native_failure :: "i32 option"

section \<open>Operations\<close>

definition dq_new :: dq where
  "dq_new = \<lparr> dq_requests = replicate dq_CAPACITY None, dq_head = 0, dq_len = 0,
     dq_running = None, dq_issued = 0, dq_rejected = 0,
     dq_history = replicate dq_HISTORY None, dq_history_next = 0,
     dq_fault = None, dq_native_failure = None \<rparr>"

definition dq_checkpoint :: "dq \<Rightarrow> dcheckpoint" where
  "dq_checkpoint q = \<lparr> dcp_issued = dq_issued q, dcp_rejected = dq_rejected q \<rparr>"

definition dq_health :: "dq \<Rightarrow> derror + unit" where
  "dq_health q = (case dq_fault q of None \<Rightarrow> Inr () | Some e \<Rightarrow> Inl e)"

definition dq_poll_idle :: "dq \<Rightarrow> derror + unit poll" where
  "dq_poll_idle q =
     (case dq_health q of
        Inl e \<Rightarrow> Inl e
      | Inr _ \<Rightarrow>
         (case dq_native_failure q of
            Some status \<Rightarrow> Inl (Native status)
          | None \<Rightarrow>
             (if dq_rejected q \<noteq> 0 then Inl Rejected
              else Inr (if dq_running q \<noteq> None \<or> dq_len q \<noteq> 0 then Pending else Ready ()))))"

definition dq_reject :: "derror \<Rightarrow> dq \<Rightarrow> derror \<times> dq" where
  "dq_reject e q =
     (case checked_inc (dq_rejected q) of
        Some r \<Rightarrow> (e, q\<lparr> dq_rejected := r \<rparr>)
      | None \<Rightarrow> (Exhausted, q\<lparr> dq_fault := Some Exhausted \<rparr>))"

definition dq_push :: "u16 \<Rightarrow> dq \<Rightarrow> (derror + dticket) \<times> dq" where
  "dq_push reason q =
     (case dq_fault q of
        Some fault \<Rightarrow> (Inl fault, q)
      | None \<Rightarrow>
         (if dq_len q = dq_CAPACITY then apfst Inl (dq_reject Full q)
          else
            (case checked_inc (dq_issued q) of
               None \<Rightarrow> (Inl Exhausted, q\<lparr> dq_fault := Some Exhausted \<rparr>)
             | Some sequence \<Rightarrow>
                 let ticket = DTicket sequence;
                     tail = (dq_head q + dq_len q) mod dq_CAPACITY
                 in (Inr ticket,
                     q\<lparr> dq_requests :=
                          (dq_requests q)[tail := Some \<lparr> drq_ticket = ticket, drq_reason = reason \<rparr>],
                        dq_len := dq_len q + 1,
                        dq_issued := sequence \<rparr>))))"

definition dq_pop :: "dq \<Rightarrow> drequest option \<times> dq" where
  "dq_pop q =
     (if dq_running q \<noteq> None \<or> dq_len q = 0 \<or> dq_fault q \<noteq> None then (None, q)
      else
        (case dq_requests q ! dq_head q of
           None \<Rightarrow> (None, q)
         | Some request \<Rightarrow>
             (Some request,
              q\<lparr> dq_requests := (dq_requests q)[dq_head q := None],
                 dq_head := (dq_head q + 1) mod dq_CAPACITY,
                 dq_len := dq_len q - 1,
                 dq_running := Some (drq_ticket request) \<rparr>)))"

definition dq_begin_inline :: "u16 \<Rightarrow> dq \<Rightarrow> (derror + drequest) \<times> dq" where
  "dq_begin_inline reason q =
     (case dq_poll_idle q of
        Inl e \<Rightarrow> (Inl e, q)
      | Inr Pending \<Rightarrow> apfst Inl (dq_reject Busy q)
      | Inr (Ready _) \<Rightarrow>
         (case dq_push reason q of
            (Inl e, q1) \<Rightarrow> (Inl e, q1)
          | (Inr ticket, q1) \<Rightarrow>
             (case dq_pop q1 of
                (Some request, q2) \<Rightarrow>
                  (if drq_ticket request = ticket then (Inr request, q2)
                   else (Inl InvalidCompletion, q2\<lparr> dq_fault := Some InvalidCompletion \<rparr>))
              | (None, q2) \<Rightarrow>
                  (Inl InvalidCompletion, q2\<lparr> dq_fault := Some InvalidCompletion \<rparr>))))"

definition dq_complete :: "dticket \<Rightarrow> i32 \<Rightarrow> dq \<Rightarrow> (derror + unit) \<times> dq" where
  "dq_complete ticket status q =
     (if dq_running q \<noteq> Some ticket
      then (Inl InvalidCompletion, q\<lparr> dq_fault := Some InvalidCompletion \<rparr>)
      else (Inr (),
        q\<lparr> dq_history := (dq_history q)[dq_history_next q := Some (ticket, status)],
           dq_history_next := (dq_history_next q + 1) mod dq_HISTORY,
           dq_running := None,
           dq_native_failure :=
             (if status \<noteq> 0 \<and> dq_native_failure q = None then Some status
              else dq_native_failure q) \<rparr>))"

definition dq_wake_failed :: "dq \<Rightarrow> dq" where
  "dq_wake_failed q = q\<lparr> dq_fault := Some WakeFailed \<rparr>"

definition dq_worker_unavailable :: "dq \<Rightarrow> dq" where
  "dq_worker_unavailable q = q\<lparr> dq_fault := Some WorkerUnavailable \<rparr>"

definition dq_receipt_since :: "dcheckpoint \<Rightarrow> dq \<Rightarrow> derror + dreceipt" where
  "dq_receipt_since before q =
     (case dq_fault q of
        Some fault \<Rightarrow> Inl fault
      | None \<Rightarrow>
         (if dcp_rejected before \<noteq> dq_rejected q then Inl Rejected
          else if dcp_issued before > dq_issued q
               \<or> dq_issued q - dcp_issued before > of_nat dq_HISTORY then Inl EvidenceLost
          else Inr \<lparr> drc_before = dcp_issued before, drc_through = dq_issued q \<rparr>))"

text \<open>The body of the loop of \<open>poll\<close>, over the ticket numbers that remain.\<close>

fun dq_poll_loop :: "dq \<Rightarrow> bool \<Rightarrow> u64 list \<Rightarrow> derror + returned poll" where
  "dq_poll_loop q pending [] = Inr (if pending then Pending else Ready Ioctls)"
| "dq_poll_loop q pending (sequence # rest) =
     (case List.find (\<lambda>p. fst p = DTicket sequence) (somes (dq_history q)) of
        Some (_, status) \<Rightarrow>
          (if status \<noteq> 0 then Inl (Native status) else dq_poll_loop q pending rest)
      | None \<Rightarrow>
          (if dq_running q = Some (DTicket sequence)
              \<or> list_ex (\<lambda>request. drq_ticket request = DTicket sequence) (somes (dq_requests q))
           then dq_poll_loop q True rest
           else Inl EvidenceLost))"

text \<open>\<open>(before + 1)..=through\<close>, on words.\<close>

definition dq_range :: "dreceipt \<Rightarrow> u64 list" where
  "dq_range r = map of_nat [Suc (unat (drc_before r)) ..< Suc (unat (drc_through r))]"

definition dq_poll :: "dreceipt \<Rightarrow> dq \<Rightarrow> derror + returned poll" where
  "dq_poll receipt q =
     (case dq_fault q of
        Some fault \<Rightarrow> Inl fault
      | None \<Rightarrow>
         (if drc_through receipt > dq_issued q
             \<or> drc_before receipt > drc_through receipt
             \<or> drc_through receipt - drc_before receipt > of_nat dq_HISTORY
          then Inl EvidenceLost
          else if drc_before receipt = drc_through receipt then Inr (Ready NoRequest)
          else dq_poll_loop q False (dq_range receipt)))"

text \<open>\<open>run_inline\<close>: \<open>native\<close> and \<open>wake\<close> run outside the metadata lock, so both may change
  the queue (a callback can enqueue); each returns the queue it leaves.\<close>

definition dq_run_inline :: "u16 \<Rightarrow> (u16 \<Rightarrow> dq \<Rightarrow> i32 \<times> u16 \<times> dq) \<Rightarrow> (dq \<Rightarrow> bool \<times> dq) \<Rightarrow> dq
    \<Rightarrow> (derror + i32) \<times> u16 \<times> dq" where
  "dq_run_inline reason native wake q =
     (case dq_begin_inline reason q of
        (Inl e, q1) \<Rightarrow> (Inl e, reason, q1)
      | (Inr request, q1) \<Rightarrow>
         (case native reason q1 of
            (status, reason', q2) \<Rightarrow>
             (case dq_complete (drq_ticket request) status q2 of
                (completed, q3) \<Rightarrow>
                 (case wake q3 of
                    (woken, q4) \<Rightarrow>
                      let q5 = (if woken then q4 else dq_wake_failed q4)
                      in (case completed of
                            Inl e \<Rightarrow> (Inl e, reason', q5)
                          | Inr _ \<Rightarrow>
                             (case dq_health q5 of
                                Inl e \<Rightarrow> (Inl e, reason', q5)
                              | Inr _ \<Rightarrow> (Inr status, reason', q5)))))))"

text \<open>The operations as steps, and the statuses a sequence of steps returned.\<close>

datatype dop = OpPush u16 | OpPop | OpBeginInline u16 | OpComplete dticket i32
  | OpWakeFailed | OpWorkerUnavailable

fun dq_step :: "dop \<Rightarrow> dq \<Rightarrow> dq" where
  "dq_step (OpPush r) q = snd (dq_push r q)"
| "dq_step OpPop q = snd (dq_pop q)"
| "dq_step (OpBeginInline r) q = snd (dq_begin_inline r q)"
| "dq_step (OpComplete t s) q = snd (dq_complete t s q)"
| "dq_step OpWakeFailed q = dq_wake_failed q"
| "dq_step OpWorkerUnavailable q = dq_worker_unavailable q"

fun dq_returned :: "dop \<Rightarrow> dq \<Rightarrow> i32 list" where
  "dq_returned (OpComplete t s) q = (if fst (dq_complete t s q) = Inr () then [s] else [])"
| "dq_returned _ q = []"

fun dq_log :: "dop list \<Rightarrow> dq \<Rightarrow> i32 list" where
  "dq_log [] q = []"
| "dq_log (a # as) q = dq_returned a q @ dq_log as (dq_step a q)"

text \<open>One turn of the worker's inner loop (\<open>deauth_worker\<close> in \<open>upstream_supplicant.rs\<close>):
  pop, run the ioctl, complete.\<close>

definition dq_serve :: "(u16 \<Rightarrow> i32) \<Rightarrow> dq \<Rightarrow> (u16 \<times> dq) option" where
  "dq_serve ioctl q =
     (case dq_pop q of
        (None, _) \<Rightarrow> None
      | (Some request, q1) \<Rightarrow>
          Some (drq_reason request,
                snd (dq_complete (drq_ticket request) (ioctl (drq_reason request)) q1)))"

definition dq_accept :: "u16 \<Rightarrow> dq \<Rightarrow> dq option" where
  "dq_accept reason q = (case dq_push reason q of (Inl _, _) \<Rightarrow> None | (Inr _, q1) \<Rightarrow> Some q1)"

definition dq_waiting :: "dq \<Rightarrow> u16 list" where
  "dq_waiting q = map drq_reason (somes (rotate (dq_head q) (dq_requests q)))"

section \<open>Specification\<close>

record aq =
  aq_completed :: "i32 list"
  aq_active :: bool
  aq_waiting :: "u16 list"

definition aq_base :: "aq \<Rightarrow> nat" where
  "aq_base a = length (aq_completed a) + (if aq_active a then 1 else 0)"

definition aq_issued :: "aq \<Rightarrow> nat" where
  "aq_issued a = aq_base a + length (aq_waiting a)"

definition aq_requests :: "aq \<Rightarrow> drequest list" where
  "aq_requests a = map (\<lambda>(k, r). \<lparr> drq_ticket = DTicket (of_nat k), drq_reason = r \<rparr>)
     (List.enumerate (Suc (aq_base a)) (aq_waiting a))"

definition aq_results :: "aq \<Rightarrow> (dticket \<times> i32) list" where
  "aq_results a = map (\<lambda>(k, s). (DTicket (of_nat k), s)) (List.enumerate 1 (aq_completed a))"

definition dq_rel :: "aq \<Rightarrow> dq \<Rightarrow> bool" where
  "dq_rel a q \<longleftrightarrow>
     length (dq_requests q) = 4 \<and> length (dq_history q) = 8
     \<and> dq_head q < 4 \<and> dq_history_next q < 8
     \<and> dq_len q = length (aq_waiting a) \<and> dq_len q \<le> 4
     \<and> unat (dq_issued q) = aq_issued a
     \<and> dq_running q =
         (if aq_active a then Some (DTicket (of_nat (Suc (length (aq_completed a))))) else None)
     \<and> rotate (dq_head q) (dq_requests q) = map Some (aq_requests a) @ replicate (4 - dq_len q) None
     \<and> rotate (dq_history_next q) (dq_history q)
         = drop (length (aq_completed a)) (replicate 8 None @ map Some (aq_results a))
     \<and> dq_native_failure q = List.find (\<lambda>s. s \<noteq> 0) (aq_completed a)"

definition dq_sim :: "i32 list \<Rightarrow> dq \<Rightarrow> bool" where
  "dq_sim c q \<longleftrightarrow> (\<exists>a. dq_rel a q \<and> aq_completed a = c)"

text \<open>What polling tickets \<open>b + 1\<close> to \<open>t\<close> has to answer, from the log of returned
  statuses: the first ticket is already out of the window of eight, some call failed,
  some call has not returned, or all returned 0.\<close>

definition log_poll :: "i32 list \<Rightarrow> nat \<Rightarrow> nat \<Rightarrow> derror + returned poll" where
  "log_poll c b t =
     (if b < t \<and> b + 8 < length c then Inl EvidenceLost
      else
        (case List.find (\<lambda>s. s \<noteq> 0) (drop b (take t c)) of
           Some s \<Rightarrow> Inl (Native s)
         | None \<Rightarrow> Inr (if b < t \<and> length c < t then Pending else Ready Ioctls)))"

section \<open>The operations refine the specification\<close>

lemma dq_rel_fault [simp]: "dq_rel a (q\<lparr> dq_fault := f \<rparr>) = dq_rel a q"
  by (simp add: dq_rel_def)

lemma dq_rel_rejected [simp]: "dq_rel a (q\<lparr> dq_rejected := r \<rparr>) = dq_rel a q"
  by (simp add: dq_rel_def)

lemma dq_rel_new: "dq_rel \<lparr> aq_completed = [], aq_active = False, aq_waiting = [] \<rparr> dq_new"
  by (simp add: dq_rel_def dq_new_def aq_issued_def aq_base_def aq_requests_def aq_results_def
      numeral_eq_Suc)

lemma dq_reject_rel: "dq_rel a q \<Longrightarrow> dq_rel a (snd (dq_reject e q))"
  by (simp add: dq_reject_def split: option.split)

lemma aq_issued_lt: "dq_rel a q \<Longrightarrow> aq_issued a < 2 ^ 64"
  unfolding dq_rel_def using unsigned_less [of "dq_issued q", where ?'a = nat] by simp

lemma dq_rel_issued: "dq_rel a q \<Longrightarrow> unat (dq_issued q) = aq_issued a"
  by (simp add: dq_rel_def)

lemma dq_ring_push:
  assumes l: "length (requests :: drequest option list) = 4" "len < 4"
    and r: "rotate h requests = map Some rs @ replicate (4 - len) None" "length rs = len"
  shows "rotate h (requests[(h + len) mod 4 := Some x]) = map Some (rs @ [x]) @ replicate (3 - len) None"
proof -
  have "rotate h (requests[(h + len) mod 4 := Some x]) = (rotate h requests)[len := Some x]"
    using rotate_update_at [of len requests h] l by simp
  also have "\<dots> = map Some rs @ (replicate (4 - len) None)[0 := Some x]"
    using r by (simp add: list_update_append)
  also have "(replicate (4 - len) None)[0 := Some x] = Some x # replicate (3 - len) None"
    using l by (cases "4 - len") auto
  finally show ?thesis by simp
qed

lemma dq_push_rel:
  assumes R: "dq_rel a q" and P: "dq_push reason q = (Inr t, q')"
  shows "dq_rel (a\<lparr> aq_waiting := aq_waiting a @ [reason] \<rparr>) q'
    \<and> t = DTicket (of_nat (Suc (aq_issued a))) \<and> dq_fault q = None \<and> dq_fault q' = None
    \<and> dq_len q \<noteq> 4"
proof -
  let ?t = "dq_issued q + 1"
  from P have f: "dq_fault q = None" and l4: "dq_len q \<noteq> 4" and i: "dq_issued q \<noteq> - 1"
    and t: "t = DTicket ?t"
    and q': "q' = q\<lparr> dq_requests := (dq_requests q)[(dq_head q + dq_len q) mod 4 :=
              Some \<lparr> drq_ticket = DTicket ?t, drq_reason = reason \<rparr>],
            dq_len := dq_len q + 1, dq_issued := ?t \<rparr>"
    by (auto simp: dq_push_def dq_reject_def Let_def checked_inc_def
        split: option.splits if_splits)
  have u: "unat ?t = Suc (aq_issued a)" using R i by (simp add: dq_rel_def unat_inc)
  then have w: "?t = of_nat (Suc (aq_issued a))" by (metis of_nat_unat ucast_id)
  let ?x = "\<lparr> drq_ticket = DTicket ?t, drq_reason = reason \<rparr>"
  have "rotate (dq_head q) ((dq_requests q)[(dq_head q + dq_len q) mod 4 := Some ?x])
      = map Some (aq_requests a @ [?x]) @ replicate (3 - dq_len q) None"
    using R l4 by (intro dq_ring_push) (auto simp: dq_rel_def aq_requests_def)
  moreover have "aq_requests (a\<lparr> aq_waiting := aq_waiting a @ [reason] \<rparr>) = aq_requests a @ [?x]"
    unfolding w by (simp add: aq_requests_def aq_base_def aq_issued_def enumerate_append_eq)
  moreover have "aq_issued (a\<lparr> aq_waiting := aq_waiting a @ [reason] \<rparr>) = Suc (aq_issued a)"
    by (simp add: aq_issued_def aq_base_def)
  moreover have "aq_results (a\<lparr> aq_waiting := aq_waiting a @ [reason] \<rparr>) = aq_results a"
    by (simp add: aq_results_def)
  ultimately have "dq_rel (a\<lparr> aq_waiting := aq_waiting a @ [reason] \<rparr>) q'"
    using R l4 u unfolding q' dq_rel_def by simp
  then show ?thesis using f l4 q' t w by simp
qed

lemma dq_push_err_rel:
  "\<lbrakk> dq_rel a q; dq_push reason q = (Inl e, q') \<rbrakk> \<Longrightarrow> dq_rel a q'"
  using dq_reject_rel [of a q Full]
  by (auto simp: dq_push_def Let_def apfst_def map_prod_def split: option.splits if_splits prod.splits)

lemma dq_pop_head:
  assumes "dq_rel a q" "aq_waiting a = r # rs"
  shows "dq_requests q ! dq_head q
    = Some \<lparr> drq_ticket = DTicket (of_nat (Suc (aq_base a))), drq_reason = r \<rparr>"
  using assms rotate_hd [of "dq_head q" "dq_requests q"]
  by (simp add: dq_rel_def aq_requests_def)

lemma dq_pop_rel:
  assumes R: "dq_rel a q" and P: "dq_pop q = (Some x, q')"
  shows "\<exists>r rs. aq_waiting a = r # rs \<and> \<not> aq_active a
    \<and> x = \<lparr> drq_ticket = DTicket (of_nat (Suc (length (aq_completed a)))), drq_reason = r \<rparr>
    \<and> dq_rel (a\<lparr> aq_active := True, aq_waiting := rs \<rparr>) q' \<and> dq_fault q' = dq_fault q"
proof -
  from P have run: "dq_running q = None" and len: "dq_len q \<noteq> 0"
    by (auto simp: dq_pop_def split: option.splits if_splits)
  then obtain r rs where w: "aq_waiting a = r # rs"
    using R by (cases "aq_waiting a") (auto simp: dq_rel_def)
  have na: "\<not> aq_active a" using run R by (auto simp: dq_rel_def split: if_splits)
  then have b: "aq_base a = length (aq_completed a)" by (simp add: aq_base_def)
  let ?x = "\<lparr> drq_ticket = DTicket (of_nat (Suc (length (aq_completed a)))), drq_reason = r \<rparr>"
  have h: "dq_requests q ! dq_head q = Some ?x" using dq_pop_head [OF R w] b by simp
  have q': "x = ?x" "q' = q\<lparr> dq_requests := (dq_requests q)[dq_head q := None],
                 dq_head := (dq_head q + 1) mod 4, dq_len := dq_len q - 1,
                 dq_running := Some (drq_ticket ?x) \<rparr>"
    using P h by (auto simp: dq_pop_def split: if_splits)
  have "rotate (Suc (dq_head q) mod 4) ((dq_requests q)[dq_head q := None])
      = tl (map Some (aq_requests a) @ replicate (4 - dq_len q) None) @ [None]"
    using R rotate_advance [of "dq_head q" "dq_requests q" None] by (simp add: dq_rel_def)
  also have "\<dots> = map Some (aq_requests (a\<lparr> aq_active := True, aq_waiting := rs \<rparr>))
      @ replicate (4 - (dq_len q - 1)) None"
    using R w na by (auto simp: dq_rel_def aq_requests_def aq_base_def replicate_append_same
        Suc_diff_le simp flip: replicate_Suc)
  finally have "dq_rel (a\<lparr> aq_active := True, aq_waiting := rs \<rparr>) q'"
    using R w na unfolding q' dq_rel_def
    by (simp add: aq_issued_def aq_base_def aq_results_def)
  then show ?thesis using w na q' by auto
qed

lemma dq_pop_None: "dq_rel a q \<Longrightarrow> dq_pop q = (None, q') \<Longrightarrow> q' = q"
  by (auto simp: dq_pop_def split: option.splits if_splits)

lemma dq_complete_rel:
  assumes R: "dq_rel a q" and P: "dq_complete t s q = (Inr (), q')"
  shows "aq_active a \<and> t = DTicket (of_nat (Suc (length (aq_completed a))))
    \<and> dq_rel (a\<lparr> aq_active := False, aq_completed := aq_completed a @ [s] \<rparr>) q'
    \<and> dq_fault q' = dq_fault q"
proof -
  from P have run: "dq_running q = Some t"
    and q': "q' = q\<lparr> dq_history := (dq_history q)[dq_history_next q := Some (t, s)],
           dq_history_next := Suc (dq_history_next q) mod 8, dq_running := None,
           dq_native_failure := (if s \<noteq> 0 \<and> dq_native_failure q = None then Some s
              else dq_native_failure q) \<rparr>"
    by (auto simp: dq_complete_def split: if_splits)
  have act: "aq_active a" and t: "t = DTicket (of_nat (Suc (length (aq_completed a))))"
    using run R by (auto simp: dq_rel_def split: if_splits)
  let ?a = "a\<lparr> aq_active := False, aq_completed := aq_completed a @ [s] \<rparr>"
  let ?old = "replicate 8 None @ map Some (aq_results a)"
  let ?n = "length (aq_completed a)"
  have res: "aq_results ?a = aq_results a @ [(t, s)]"
    by (simp add: aq_results_def t enumerate_append_eq)
  have len: "length (aq_results a) = ?n" by (simp add: aq_results_def)
  have "rotate (Suc (dq_history_next q) mod 8) ((dq_history q)[dq_history_next q := Some (t, s)])
      = tl (drop ?n ?old) @ [Some (t, s)]"
    using R rotate_advance [of "dq_history_next q" "dq_history q" "Some (t, s)"]
    by (simp add: dq_rel_def)
  also have "\<dots> = drop (Suc ?n) (?old @ [Some (t, s)])"
    using len by (intro drop_window) simp
  finally have "rotate (Suc (dq_history_next q) mod 8) ((dq_history q)[dq_history_next q := Some (t, s)])
      = drop (length (aq_completed ?a)) (replicate 8 None @ map Some (aq_results ?a))"
    by (simp add: res)
  moreover have "aq_requests ?a = aq_requests a" "aq_issued ?a = aq_issued a"
    using act by (simp_all add: aq_requests_def aq_issued_def aq_base_def)
  moreover have "List.find (\<lambda>s. s \<noteq> 0) (aq_completed ?a)
      = (if s \<noteq> 0 \<and> dq_native_failure q = None then Some s else dq_native_failure q)"
    using R by (auto simp: dq_rel_def find_append split: option.split)
  ultimately show ?thesis
    using R act t unfolding q' dq_rel_def by simp
qed

lemma dq_complete_err_rel:
  "\<lbrakk> dq_rel a q; dq_complete t s q = (Inl e, q') \<rbrakk> \<Longrightarrow> dq_rel a q'"
  by (auto simp: dq_complete_def split: if_splits)

text \<open>\<open>dq_sim c q\<close>: the queue implements a specification state whose log is \<open>c\<close>.\<close>

lemma dq_simI: "dq_rel a q \<Longrightarrow> dq_sim (aq_completed a) q"
  by (auto simp: dq_sim_def)

lemma dq_sim_fault [simp]: "dq_sim c (q\<lparr> dq_fault := f \<rparr>) = dq_sim c q"
  by (simp add: dq_sim_def)

lemma dq_sim_push: "dq_sim c q \<Longrightarrow> dq_sim c (snd (dq_push r q))"
proof -
  assume "dq_sim c q"
  then obtain a where R: "dq_rel a q" "aq_completed a = c" by (auto simp: dq_sim_def)
  obtain x q' where p: "dq_push r q = (x, q')" by (cases "dq_push r q")
  show ?thesis
  proof (cases x)
    case (Inl e)
    then show ?thesis using dq_simI [OF dq_push_err_rel [OF R(1)]] R(2) p by simp
  next
    case (Inr t)
    then show ?thesis using dq_push_rel [OF R(1)] R(2) p
        dq_simI [of "a\<lparr> aq_waiting := aq_waiting a @ [r] \<rparr>" q'] by simp
  qed
qed

lemma dq_sim_pop: "dq_sim c q \<Longrightarrow> dq_sim c (snd (dq_pop q))"
proof -
  assume "dq_sim c q"
  then obtain a where R: "dq_rel a q" "aq_completed a = c" by (auto simp: dq_sim_def)
  obtain x q' where p: "dq_pop q = (x, q')" by (cases "dq_pop q")
  show ?thesis
  proof (cases x)
    case None
    then show ?thesis using dq_pop_None [OF R(1)] dq_simI [OF R(1)] R(2) p by simp
  next
    case (Some y)
    then obtain rs where "dq_rel (a\<lparr> aq_active := True, aq_waiting := rs \<rparr>) q'"
      using dq_pop_rel [OF R(1)] p by blast
    from dq_simI [OF this] show ?thesis using R(2) p by simp
  qed
qed

lemma dq_sim_reject: "dq_sim c q \<Longrightarrow> dq_sim c (snd (dq_reject e q))"
  using dq_reject_rel by (auto simp: dq_sim_def)

lemma dq_sim_begin_inline: "dq_sim c q \<Longrightarrow> dq_sim c (snd (dq_begin_inline r q))"
proof -
  assume S: "dq_sim c q"
  obtain x q1 where p: "dq_push r q = (x, q1)" by (cases "dq_push r q")
  obtain y q2 where o: "dq_pop q1 = (y, q2)" by (cases "dq_pop q1")
  have "dq_sim c q1" using dq_sim_push [OF S, of r] p by simp
  moreover from dq_sim_pop [OF this] have "dq_sim c q2" using o by simp
  moreover note dq_sim_reject [OF S, of Busy]
  ultimately show ?thesis using S p o unfolding dq_begin_inline_def
    by (cases "dq_poll_idle q"; cases x; cases y) (simp_all split: poll.split)
qed

lemma dq_sim_complete:
  "dq_sim c q \<Longrightarrow> dq_sim (c @ dq_returned (OpComplete t s) q) (snd (dq_complete t s q))"
proof -
  assume "dq_sim c q"
  then obtain a where R: "dq_rel a q" "aq_completed a = c" by (auto simp: dq_sim_def)
  obtain x q' where p: "dq_complete t s q = (x, q')" by (cases "dq_complete t s q")
  show ?thesis
  proof (cases x)
    case (Inl e)
    then show ?thesis using dq_simI [OF dq_complete_err_rel [OF R(1)]] R(2) p by simp
  next
    case (Inr t)
    then show ?thesis using dq_complete_rel [OF R(1)] R(2) p
        dq_simI [of "a\<lparr> aq_active := False, aq_completed := aq_completed a @ [s] \<rparr>" q'] by simp
  qed
qed

text \<open>One step keeps the relation and appends exactly the returned status to the log.\<close>

lemma dq_sim_step: "dq_sim c q \<Longrightarrow> dq_sim (c @ dq_returned op q) (dq_step op q)"
proof (cases op)
  case (OpComplete t s)
  assume "dq_sim c q"
  from dq_sim_complete [OF this, of t s] OpComplete show ?thesis by simp
qed (simp_all add: dq_sim_push dq_sim_pop dq_sim_begin_inline dq_wake_failed_def
      dq_worker_unavailable_def)

lemma dq_sim_run: "dq_sim c q \<Longrightarrow> dq_sim (c @ dq_log ops q) (fold dq_step ops q)"
proof (induction ops arbitrary: c q)
  case (Cons op ops)
  show ?case using Cons.IH [OF dq_sim_step [OF Cons.prems, of op]] by simp
qed simp

lemma dq_sim_reachable: "dq_sim (dq_log ops dq_new) (fold dq_step ops dq_new)"
  using dq_sim_run [OF dq_simI [OF dq_rel_new], of ops] by simp

section \<open>Polling answers from the log\<close>

lemma aq_results_nth:
  "i < length (aq_completed a)
    \<Longrightarrow> aq_results a ! i = (DTicket (of_nat (Suc i)), aq_completed a ! i)"
  by (simp add: aq_results_def nth_enumerate_eq)

lemma dq_history_set:
  assumes "dq_rel a q"
  shows "set (somes (dq_history q)) =
    {(DTicket (of_nat (Suc i)), aq_completed a ! i) | i.
       i < length (aq_completed a) \<and> length (aq_completed a) \<le> i + 8}"
proof -
  let ?n = "length (aq_completed a)"
  have l: "length (aq_results a) = ?n" by (simp add: aq_results_def)
  have "set (somes (dq_history q)) = set (somes (rotate (dq_history_next q) (dq_history q)))"
    by simp
  also have "somes (rotate (dq_history_next q) (dq_history q)) = drop (?n - 8) (aq_results a)"
    using assms by (simp add: dq_rel_def drop_map)
  also have "set (drop (?n - 8) (aq_results a)) = {aq_results a ! i | i. i < ?n \<and> ?n \<le> i + 8}"
  proof -
    have "set (drop (?n - 8) (aq_results a)) = {aq_results a ! (?n - 8 + j) | j. j < ?n - (?n - 8)}"
      by (auto simp: set_conv_nth l)
    also have "\<dots> = {aq_results a ! i | i. i < ?n \<and> ?n \<le> i + 8}"
      by (auto intro: exI [of _ "i - (?n - 8)" for i])
        (metis add_diff_inverse_nat diff_less_mono le_diff_conv not_less)
    finally show ?thesis .
  qed
  also have "\<dots> = {(DTicket (of_nat (Suc i)), aq_completed a ! i) | i. i < ?n \<and> ?n \<le> i + 8}"
    by (rule Collect_cong) (metis aq_results_nth)
  finally show ?thesis .
qed

lemma dq_find_history:
  assumes R: "dq_rel a q" and k: "k < aq_issued a"
  shows "List.find (\<lambda>p. fst p = DTicket (of_nat (Suc k))) (somes (dq_history q)) =
    (if k < length (aq_completed a) \<and> length (aq_completed a) \<le> k + 8
     then Some (DTicket (of_nat (Suc k)), aq_completed a ! k) else None)"
proof -
  let ?n = "length (aq_completed a)"
  have b: "aq_issued a < 2 ^ 64" by (rule aq_issued_lt [OF R])
  have nb: "?n \<le> aq_issued a" by (simp add: aq_issued_def aq_base_def)
  have inj: "(of_nat (Suc i) :: u64) = of_nat (Suc k) \<longleftrightarrow> i = k" if "i < ?n" for i
    using that b nb k of_nat_unat_inj [where ?'w = 64, of "Suc i" "Suc k"] by simp
  show ?thesis
  proof (cases "k < ?n \<and> ?n \<le> k + 8")
    case True
    have "List.find (\<lambda>p. fst p = DTicket (of_nat (Suc k))) (somes (dq_history q))
        = Some (DTicket (of_nat (Suc k)), aq_completed a ! k)"
      using True by (intro find_unique) (auto simp: dq_history_set [OF R] inj simp del: of_nat_Suc)
    then show ?thesis using True by simp
  next
    case False
    then have "List.find (\<lambda>p. fst p = DTicket (of_nat (Suc k))) (somes (dq_history q)) = None"
      by (auto simp: find_None_iff dq_history_set [OF R] inj simp del: of_nat_Suc dest!: sym [of "of_nat (Suc k)"])
    then show ?thesis using False by simp
  qed
qed

lemma dq_in_flight:
  assumes R: "dq_rel a q" and k: "k < aq_issued a"
  shows "(dq_running q = Some (DTicket (of_nat (Suc k)))
      \<or> list_ex (\<lambda>r. drq_ticket r = DTicket (of_nat (Suc k))) (somes (dq_requests q)))
    \<longleftrightarrow> length (aq_completed a) \<le> k"
proof -
  let ?n = "length (aq_completed a)"
  have b: "aq_issued a < 2 ^ 64" by (rule aq_issued_lt [OF R])
  have inj: "(of_nat i :: u64) = of_nat (Suc k) \<longleftrightarrow> i = Suc k" if "i \<le> aq_issued a" for i
    using that b k of_nat_unat_inj [where ?'w = 64, of i "Suc k"] by simp
  have "set (somes (dq_requests q)) = set (somes (rotate (dq_head q) (dq_requests q)))" by simp
  also have "\<dots> = set (aq_requests a)" using R by (simp add: dq_rel_def)
  finally have s: "set (somes (dq_requests q)) = set (aq_requests a)" .
  have w: "list_ex (\<lambda>r. drq_ticket r = DTicket (of_nat (Suc k))) (somes (dq_requests q))
      \<longleftrightarrow> aq_base a \<le> k"
  proof -
    have "list_ex (\<lambda>r. drq_ticket r = DTicket (of_nat (Suc k))) (somes (dq_requests q))
        \<longleftrightarrow> (\<exists>i \<in> {Suc (aq_base a) ..< Suc (aq_base a) + length (aq_waiting a)}.
              (of_nat i :: u64) = of_nat (Suc k))"
      by (auto simp: list_ex_iff s aq_requests_def in_set_enumerate_eq Bex_def simp del: of_nat_Suc)
    also have "\<dots> \<longleftrightarrow> aq_base a \<le> k"
      using k by (auto simp: inj aq_issued_def simp del: of_nat_Suc)
    finally show ?thesis .
  qed
  have "?n < aq_issued a" if "aq_active a" using that by (simp add: aq_issued_def aq_base_def)
  then have r: "dq_running q = Some (DTicket (of_nat (Suc k))) \<longleftrightarrow> aq_active a \<and> k = ?n"
    using R inj [of "Suc ?n"] by (auto simp: dq_rel_def simp del: of_nat_Suc)
  show ?thesis unfolding w r by (auto simp: aq_base_def)
qed

lemma dq_poll_loop_log:
  assumes R: "dq_rel a q"
  shows "\<lbrakk> b \<le> t; t \<le> aq_issued a \<rbrakk>
    \<Longrightarrow> dq_poll_loop q p (map of_nat [Suc b ..< Suc t]) =
      (if p \<and> log_poll (aq_completed a) b t = Inr (Ready Ioctls) then Inr Pending
       else log_poll (aq_completed a) b t)"
proof (induction "t - b" arbitrary: b p)
  case 0
  then show ?case by (simp add: log_poll_def)
next
  case (Suc d)
  let ?c = "aq_completed a"
  have bt: "b < t" using Suc.hyps(2) by simp
  have u: "[Suc b ..< Suc t] = Suc b # [Suc (Suc b) ..< Suc t]" using bt by (simp add: upt_conv_Cons)
  have IH: "dq_poll_loop q p' (map of_nat [Suc (Suc b) ..< Suc t]) =
      (if p' \<and> log_poll ?c (Suc b) t = Inr (Ready Ioctls) then Inr Pending
       else log_poll ?c (Suc b) t)" for p'
    using Suc bt by (intro Suc.hyps(1)) auto
  have f: "List.find (\<lambda>p. fst p = DTicket (of_nat (Suc b))) (somes (dq_history q)) =
    (if b < length ?c \<and> length ?c \<le> b + 8 then Some (DTicket (of_nat (Suc b)), ?c ! b) else None)"
    using bt Suc.prems by (intro dq_find_history [OF R]) simp
  have g: "(dq_running q = Some (DTicket (of_nat (Suc b)))
      \<or> list_ex (\<lambda>r. drq_ticket r = DTicket (of_nat (Suc b))) (somes (dq_requests q)))
    \<longleftrightarrow> length ?c \<le> b"
    using bt Suc.prems by (intro dq_in_flight [OF R]) simp
  consider "b < length ?c" "length ?c \<le> b + 8" | "length ?c \<le> b" | "b + 8 < length ?c" by linarith
  then show ?case
  proof cases
    case 1
    then have "drop b (take t ?c) = ?c ! b # drop (Suc b) (take t ?c)"
      using bt by (subst Cons_nth_drop_Suc [symmetric]) auto
    then show ?thesis using 1 bt unfolding u list.map dq_poll_loop.simps f IH
      by (auto simp: log_poll_def)
  next
    case 2
    then show ?thesis using bt unfolding u list.map dq_poll_loop.simps f g IH
      by (simp add: log_poll_def)
  next
    case 3
    then show ?thesis using bt unfolding u list.map dq_poll_loop.simps f g IH
      by (simp add: log_poll_def)
  qed
qed

lemma dq_poll_rel:
  assumes R: "dq_rel a q" and f: "dq_fault q = None"
    and r: "drc_before r < drc_through r" "drc_through r \<le> dq_issued q"
      "drc_through r - drc_before r \<le> 8"
  shows "dq_poll r q = log_poll (aq_completed a) (unat (drc_before r)) (unat (drc_through r))"
proof -
  have "unat (drc_through r) \<le> aq_issued a" "unat (drc_before r) \<le> unat (drc_through r)"
    using R r by (auto simp: dq_rel_def word_le_nat_alt word_less_nat_alt)
  from dq_poll_loop_log [OF R this(2,1), of False] show ?thesis
    using f r by (auto simp: dq_poll_def dq_range_def)
qed

section \<open>Interfaces the queue provides\<close>

lemma dq_waiting_rel: "dq_rel a q \<Longrightarrow> dq_waiting q = aq_waiting a"
proof -
  assume "dq_rel a q"
  then have "dq_waiting q = map drq_reason (aq_requests a)" by (simp add: dq_waiting_def dq_rel_def)
  also have "\<dots> = map snd (List.enumerate (Suc (aq_base a)) (aq_waiting a))"
    by (simp add: aq_requests_def comp_def case_prod_beta)
  finally show ?thesis by simp
qed

lemma dq_complete_waiting: "dq_waiting (snd (dq_complete t s q)) = dq_waiting q"
  by (simp add: dq_complete_def dq_waiting_def)

interpretation deauth_fifo: fifo dq_accept "dq_serve ioctl" dq_waiting "\<lambda>q. \<exists>c. dq_sim c q"
proof unfold_locales
  fix q q' x
  assume S: "\<exists>c. dq_sim c q" and e: "dq_accept x q = Some q'"
  then obtain a where R: "dq_rel a q" by (auto simp: dq_sim_def)
  obtain t where p: "dq_push x q = (Inr t, q')"
    using e by (auto simp: dq_accept_def split: prod.splits sum.splits)
  have R': "dq_rel (a\<lparr> aq_waiting := aq_waiting a @ [x] \<rparr>) q'" using dq_push_rel [OF R p] by simp
  show "(\<exists>c. dq_sim c q') \<and> dq_waiting q' = dq_waiting q @ [x]"
    using dq_simI [OF R'] dq_waiting_rel [OF R] dq_waiting_rel [OF R'] by auto
next
  fix q q' x
  assume S: "\<exists>c. dq_sim c q" and d: "dq_serve ioctl q = Some (x, q')"
  then obtain a where R: "dq_rel a q" by (auto simp: dq_sim_def)
  obtain y q1 where p: "dq_pop q = (Some y, q1)" and x: "x = drq_reason y"
    and q': "q' = snd (dq_complete (drq_ticket y) (ioctl x) q1)"
    using d by (auto simp: dq_serve_def split: prod.splits option.splits)
  obtain r rs where w: "aq_waiting a = r # rs" "drq_reason y = r"
    and R1: "dq_rel (a\<lparr> aq_active := True, aq_waiting := rs \<rparr>) q1"
    using dq_pop_rel [OF R p] by auto
  show "(\<exists>c. dq_sim c q') \<and> dq_waiting q = x # dq_waiting q'"
    using dq_sim_complete [OF dq_simI [OF R1]] dq_waiting_rel [OF R] dq_waiting_rel [OF R1] w x q'
    by (auto simp: dq_complete_waiting)
qed

lemma dq_faulted_push: "dq_fault q = Some e \<Longrightarrow> dq_push r q = (Inl e, q)"
  by (simp add: dq_push_def)

lemma dq_faulted_pop: "dq_fault q \<noteq> None \<Longrightarrow> dq_pop q = (None, q)"
  by (simp add: dq_pop_def)

interpretation deauth_latch: latch dq_step "\<lambda>q. dq_fault q \<noteq> None"
proof unfold_locales
  fix q :: dq and op
  assume "dq_fault q \<noteq> None"
  then obtain e where e: "dq_fault q = Some e" by auto
  then have "dq_begin_inline r q = (Inl e, q)" for r
    by (simp add: dq_begin_inline_def dq_poll_idle_def dq_health_def)
  then show "dq_fault (dq_step op q) \<noteq> None"
    using e by (cases op) (auto simp: dq_faulted_push dq_faulted_pop dq_complete_def
        dq_wake_failed_def dq_worker_unavailable_def)
qed

lemma dq_idle_rel:
  assumes R: "dq_rel a q" and P: "dq_poll_idle q = Inr (Ready ())"
  shows "aq_issued a = length (aq_completed a) \<and> (\<forall>s \<in> set (aq_completed a). s = 0)"
proof -
  from P have "dq_native_failure q = None" "dq_running q = None" "dq_len q = 0"
    by (auto simp: dq_poll_idle_def split: sum.splits option.splits if_splits)
  moreover from this(1) have "\<forall>s \<in> set (aq_completed a). s = 0"
    using R find_None_iff [of "\<lambda>s. s \<noteq> 0" "aq_completed a"] by (simp add: dq_rel_def)
  ultimately show ?thesis using R
    by (auto simp: dq_rel_def aq_issued_def aq_base_def split: if_splits)
qed

lemma dq_sim_issued:
  "dq_sim c q \<Longrightarrow> length c \<le> unat (dq_issued q)"
  by (auto simp: dq_sim_def dq_rel_def aq_issued_def aq_base_def)

lemma slice_all_zero:
  assumes "List.find (\<lambda>s. s \<noteq> 0) (drop b (take t c)) = None" "b \<le> k" "k < t" "t \<le> length c"
  shows "c ! k = 0"
proof -
  have "c ! k = drop b (take t c) ! (k - b)" using assms by simp
  moreover have "k - b < length (drop b (take t c))" using assms by simp
  ultimately have "c ! k \<in> set (drop b (take t c))" using nth_mem by metis
  then show ?thesis using assms(1) by (auto simp: find_None_iff)
qed

lemma dq_begin_inline_ok:
  assumes "dq_begin_inline r q = (Inr x, q')"
  shows "dq_poll_idle q = Inr (Ready ()) \<and> dq_running q' = Some (drq_ticket x)"
proof -
  obtain u where i: "dq_poll_idle q = Inr (Ready u)"
    using assms by (cases "dq_poll_idle q")
      (auto simp: dq_begin_inline_def apfst_def map_prod_def split: poll.splits prod.splits)
  obtain t q1 where p: "dq_push r q = (Inr t, q1)"
    using assms i by (cases "dq_push r q") (auto simp: dq_begin_inline_def split: sum.splits)
  have "dq_pop q1 = (Some x, q')"
    using assms i p by (auto simp: dq_begin_inline_def split: prod.splits option.splits if_splits)
  then show ?thesis using i by (auto simp: dq_pop_def split: option.splits if_splits)
qed

lemma dq_push_running: "dq_running (snd (dq_push r q)) = dq_running q"
  by (auto simp: dq_push_def dq_reject_def Let_def split: option.split)

lemma dq_pushes_running: "dq_running (fold (\<lambda>r. snd \<circ> dq_push r) rs q) = dq_running q"
  by (induction rs arbitrary: q) (auto simp: dq_push_running)

lemma dq_pushes_sim: "dq_sim c q \<Longrightarrow> dq_sim c (fold (\<lambda>r. snd \<circ> dq_push r) rs q)"
  by (induction rs arbitrary: q) (auto simp: dq_sim_push)

lemma dq_run_inline_sim:
  assumes S: "dq_sim c q"
    and native: "\<And>r p. \<exists>rs. snd (snd (native r p)) = fold (\<lambda>r. snd \<circ> dq_push r) rs p"
    and wake: "\<And>p. snd (wake p) = p"
    and ok: "dq_run_inline reason native wake q = (Inr status, reason', q')"
  shows "dq_poll_idle q = Inr (Ready ()) \<and> dq_sim (c @ [status]) q' \<and> dq_fault q' = None"
proof -
  obtain x q1 where b: "dq_begin_inline reason q = (Inr x, q1)"
    using ok by (auto simp: dq_run_inline_def split: prod.splits sum.splits)
  obtain st r2 q2 where n: "native reason q1 = (st, r2, q2)" by (cases "native reason q1")
  obtain cm q3 where cp: "dq_complete (drq_ticket x) st q2 = (cm, q3)" by fastforce
  obtain wk where w: "wake q3 = (wk, q3)" using wake [of q3] by (cases "wake q3") auto
  have "dq_sim c q1" using dq_sim_begin_inline [OF S, of reason] b by simp
  moreover have "\<exists>rs. q2 = fold (\<lambda>r. snd \<circ> dq_push r) rs q1" using native [of reason q1] n by simp
  ultimately have S2: "dq_sim c q2" and run: "dq_running q2 = Some (drq_ticket x)"
    using dq_begin_inline_ok [OF b] by (auto simp: dq_pushes_sim dq_pushes_running)
  have S3: "dq_sim (c @ [st]) q3"
    using dq_sim_complete [OF S2, of "drq_ticket x" st] cp run by (simp add: dq_complete_def split: if_splits)
  have "status = st \<and> q' = q3 \<and> wk \<and> dq_fault q3 = None"
    using ok b n cp w run
    by (auto simp: dq_run_inline_def dq_complete_def Let_def dq_health_def dq_wake_failed_def
        split: option.splits if_splits)
  then show ?thesis using S3 dq_begin_inline_ok [OF b] by simp
qed

text \<open>A refusal stays visible: once the queue has a fault, or has counted a rejection since a
  checkpoint, no later operation makes a receipt for that checkpoint possible.\<close>

definition dq_flagged :: "u64 \<Rightarrow> dq \<Rightarrow> bool" where
  "dq_flagged rejected q \<longleftrightarrow> dq_fault q \<noteq> None \<or> rejected < dq_rejected q"

lemma dq_flagged_reject: "rejected \<le> dq_rejected q \<Longrightarrow> dq_flagged rejected (snd (dq_reject e q))"
  by (auto simp: dq_flagged_def dq_reject_def checked_inc_Some word_less_nat_alt word_le_nat_alt unat_inc
      split: option.split)

lemma dq_flagged_mono: "dq_flagged rejected q \<Longrightarrow> dq_flagged rejected (snd (dq_reject e q))"
  by (auto simp: dq_flagged_def dq_reject_def checked_inc_Some word_less_nat_alt unat_inc split: option.split)

lemma dq_flagged_push: "dq_flagged rejected q \<Longrightarrow> dq_flagged rejected (snd (dq_push r q))"
  using dq_flagged_mono [of rejected q Full]
  by (auto simp: dq_push_def Let_def dq_flagged_def split: option.split)

lemma dq_flagged_pop: "dq_flagged rejected q \<Longrightarrow> dq_flagged rejected (snd (dq_pop q))"
  by (auto simp: dq_pop_def dq_flagged_def split: option.split)

lemma dq_flagged_begin_inline:
  assumes "dq_flagged rejected q"
  shows "dq_flagged rejected (snd (dq_begin_inline r q))"
proof -
  have p: "dq_flagged rejected q1" if "dq_push r q = (x, q1)" for x q1
    using dq_flagged_push [OF assms, of r] that by simp
  have "dq_flagged rejected q2" if "dq_push r q = (x, q1)" "dq_pop q1 = (y, q2)" for x q1 y q2
    using dq_flagged_pop [OF p [OF that(1)]] that(2) by simp
  then show ?thesis
    using assms dq_flagged_mono [OF assms, of Busy] p
    by (auto simp: dq_begin_inline_def dq_flagged_def split: sum.split poll.split option.split prod.split)
qed

interpretation deauth_flag: latch dq_step "dq_flagged rejected" for rejected
proof unfold_locales
  show "dq_flagged rejected (dq_step a q)" if "dq_flagged rejected q" for q a
    using that dq_flagged_push dq_flagged_pop dq_flagged_begin_inline
    by (cases a) (auto simp: dq_complete_def dq_wake_failed_def dq_worker_unavailable_def dq_flagged_def)
qed

lemma dq_flagged_no_receipt:
  assumes "dq_flagged (dcp_rejected before) q"
  shows "\<exists>e. dq_receipt_since before (fold dq_step later q) = Inl e"
  using deauth_flag.latch_run.run_inv [OF assms, of later]
  by (auto simp: dq_flagged_def dq_receipt_since_def split: option.split)

lemma dq_push_refused:
  "dq_push r q = (Inl e, q') \<Longrightarrow> dq_flagged (dq_rejected q) q'"
  using dq_flagged_reject [of "dq_rejected q" q Full]
  by (auto simp: dq_push_def Let_def apfst_def map_prod_def dq_flagged_def split: option.splits if_splits prod.splits)

section \<open>Properties\<close>

text \<open>C2: After any sequence of queue operations, polling a receipt answers the recorded fault when
  the queue has one (a failed wake, an unavailable worker, a bad completion).  Otherwise a receipt
  that no interval of at most eight issued tickets has is answered with lost evidence, and an empty
  interval with \<open>NoRequest\<close>.  For the tickets \<open>before + 1\<close> to \<open>through\<close> the answer is exactly what the
  full log of returned statuses says: evidence lost when the window of eight has moved past the
  first ticket, the first failing native status in the range, pending while a call has not returned,
  and \<open>Ioctls\<close> only when all of them returned 0.\<close>

theorem deauth_poll_answers_log:
  "let q = fold dq_step ops dq_new; b = unat (drc_before r); t = unat (drc_through r)
   in dq_poll r q =
     (case dq_fault q of
        Some fault \<Rightarrow> Inl fault
      | None \<Rightarrow> if unat (dq_issued q) < t \<or> t < b \<or> 8 < t - b then Inl EvidenceLost
                else if b = t then Inr (Ready NoRequest)
                else log_poll (dq_log ops dq_new) b t)"
proof -
  let ?q = "fold dq_step ops dq_new"
  obtain a where R: "dq_rel a ?q" "aq_completed a = dq_log ops dq_new"
    using dq_sim_reachable [of ops] by (auto simp: dq_sim_def)
  have valid: "dq_poll r ?q = log_poll (dq_log ops dq_new) (unat (drc_before r)) (unat (drc_through r))"
    if "dq_fault ?q = None" "drc_before r < drc_through r" "drc_through r \<le> dq_issued ?q"
      "drc_through r - drc_before r \<le> 8"
    using dq_poll_rel [OF R(1) that] R(2) by simp
  have diff: "unat (drc_through r - drc_before r) = unat (drc_through r) - unat (drc_before r)"
    if "\<not> drc_through r < drc_before r"
    using that by (simp add: unat_sub word_le_nat_alt word_less_nat_alt)
  show ?thesis
    using valid diff
    by (auto simp: Let_def dq_poll_def word_less_nat_alt word_le_nat_alt word_unat_eq_iff split: option.split)
qed

text \<open>C3: A receipt taken around a batch of requests proves that batch: when the receipt
  issued for the interval between a checkpoint and a later state polls \<open>Ready Ioctls\<close> in any
  still later state, every ticket issued in the interval has returned status 0, and no
  request was rejected in between.\<close>

theorem deauth_receipt_end_to_end:
  assumes q0: "q0 = fold dq_step ops0 dq_new"
    and q1: "q1 = fold dq_step ops1 q0"
    and q2: "q2 = fold dq_step ops2 q1"
    and receipt: "dq_receipt_since (dq_checkpoint q0) q1 = Inr r"
    and ready: "dq_poll r q2 = Inr (Ready Ioctls)"
  shows "dq_rejected q0 = dq_rejected q1 \<and>
    (\<forall>k. unat (dq_issued q0) \<le> k \<and> k < unat (dq_issued q1) \<longrightarrow>
       k < length (dq_log (ops0 @ ops1 @ ops2) dq_new)
       \<and> dq_log (ops0 @ ops1 @ ops2) dq_new ! k = 0)"
proof -
  let ?c = "dq_log (ops0 @ ops1 @ ops2) dq_new"
  have q2': "q2 = fold dq_step (ops0 @ ops1 @ ops2) dq_new" by (simp add: q0 q1 q2)
  have r: "drc_before r = dq_issued q0" "drc_through r = dq_issued q1"
    and rej: "dq_rejected q0 = dq_rejected q1"
    using receipt by (auto simp: dq_receipt_since_def dq_checkpoint_def split: option.splits if_splits)
  have f: "dq_fault q2 = None" and v: "drc_through r \<le> dq_issued q2" "drc_before r < drc_through r"
      "drc_through r - drc_before r \<le> 8"
    using ready by (auto simp: dq_poll_def split: option.splits if_splits)
  obtain a where R: "dq_rel a q2" "aq_completed a = ?c"
    using dq_sim_reachable [of "ops0 @ ops1 @ ops2"] q2' by (auto simp: dq_sim_def)
  have L: "log_poll ?c (unat (dq_issued q0)) (unat (dq_issued q1)) = Inr (Ready Ioctls)"
    using dq_poll_rel [OF R(1) f v(2,1,3)] ready R(2) r by simp
  have lt: "unat (dq_issued q0) < unat (dq_issued q1)" using v(2) r by (simp add: word_less_nat_alt)
  have len: "unat (dq_issued q1) \<le> length ?c"
    and all: "List.find (\<lambda>s. s \<noteq> 0) (drop (unat (dq_issued q0)) (take (unat (dq_issued q1)) ?c)) = None"
    using L lt by (auto simp: log_poll_def split: option.splits if_splits)
  have "?c ! k = 0" if "unat (dq_issued q0) \<le> k" "k < unat (dq_issued q1)" for k
    using slice_all_zero [OF all that len] .
  then show ?thesis using rej len by auto
qed

theorem deauth_receipt_end_to_end_witness:
  "\<exists>r. dq_receipt_since (dq_checkpoint dq_new) (fold dq_step [OpPush 3] dq_new) = Inr r
     \<and> dq_poll r (fold dq_step [OpPop, OpComplete (DTicket 1) 0] (fold dq_step [OpPush 3] dq_new))
         = Inr (Ready Ioctls)
     \<and> dq_rejected dq_new = dq_rejected (fold dq_step [OpPush 3] dq_new)
     \<and> dq_log ([] @ [OpPush 3] @ [OpPop, OpComplete (DTicket 1) 0]) dq_new ! 0 = 0"
proof -
  let ?q1 = "fold dq_step [OpPush 3] dq_new"
  let ?ops = "[OpPop, OpComplete (DTicket 1) 0]"
  let ?r = "\<lparr> drc_before = 0, drc_through = 1 \<rparr>"
  have r: "dq_receipt_since (dq_checkpoint dq_new) ?q1 = Inr ?r"
    by code_simp
  have i: "unat (dq_issued dq_new) = 0" "unat (dq_issued ?q1) = 1"
    by code_simp+
  have p: "dq_poll ?r (fold dq_step ?ops ?q1) = Inr (Ready Ioctls)"
    by code_simp
  have "dq_new = fold dq_step [] dq_new" by simp
  from deauth_receipt_end_to_end [OF this refl refl r p] r p i show ?thesis by auto
qed

text \<open>The idle answer covers every request of the session, also those nobody holds a
  receipt for: when \<open>poll_idle\<close> is ready, every ticket ever issued has returned and
  every returned status was 0, although the history keeps only eight of them.\<close>

theorem deauth_idle_covers_session:
  assumes "dq_poll_idle (fold dq_step ops dq_new) = Inr (Ready ())"
  shows "length (dq_log ops dq_new) = unat (dq_issued (fold dq_step ops dq_new))
    \<and> (\<forall>s \<in> set (dq_log ops dq_new). s = 0)"
proof -
  obtain a where R: "dq_rel a (fold dq_step ops dq_new)" and c: "aq_completed a = dq_log ops dq_new"
    using dq_sim_reachable [of ops] by (auto simp: dq_sim_def)
  show ?thesis using dq_idle_rel [OF R assms] dq_rel_issued [OF R] unfolding c by simp
qed

text \<open>C4: Requests are served in the order they were accepted, none is lost and none is
  served twice: after any interleaving of pushes and worker turns, what was accepted is what
  was served followed by what still waits.\<close>

theorem deauth_served_in_order:
  assumes "qrun dq_accept (dq_serve ioctl) ops dq_new = (accepted, served, q)"
  shows "accepted = served @ dq_waiting q"
proof (rule deauth_fifo.run_prefix [OF _ _ assms])
  show "\<exists>c. dq_sim c dq_new" using dq_simI [OF dq_rel_new] by blast
  show "dq_waiting dq_new = []" by (simp add: dq_waiting_def dq_new_def)
qed

theorem deauth_served_in_order_witness:
  "\<exists>q. qrun dq_accept (dq_serve (\<lambda>_. 0)) [Enq 3, Enq 4, Deq] dq_new = ([3, 4], [3], q)
     \<and> [3, 4] = [3] @ dq_waiting q"
proof -
  let ?run = "qrun dq_accept (dq_serve (\<lambda>_. 0)) [Enq 3, Enq 4, Deq] dq_new"
  have "fst ?run = [3, 4] \<and> fst (snd ?run) = [3]" by code_simp
  then obtain q where q: "?run = ([3, 4], [3], q)" by (metis prod.collapse)
  from deauth_served_in_order [OF q] q show ?thesis by blast
qed

text \<open>A synchronous recovery call never overtakes queued work: \<open>run_inline\<close> succeeds only
  from an idle queue, and then exactly its own status is appended to the log, whatever
  callbacks enqueue while the native call runs.\<close>

theorem deauth_inline_exact:
  assumes "\<And>r p. \<exists>rs. snd (snd (native r p)) = fold (\<lambda>r. snd \<circ> dq_push r) rs p"
    and "\<And>p. snd (wake p) = p"
    and "dq_run_inline reason native wake (fold dq_step ops dq_new) = (Inr status, reason', q')"
  shows "dq_poll_idle (fold dq_step ops dq_new) = Inr (Ready ())
    \<and> dq_sim (dq_log ops dq_new @ [status]) q' \<and> dq_fault q' = None"
  using dq_run_inline_sim [OF dq_sim_reachable assms] .

text \<open>A fault is never forgotten: once the queue is faulted it stays faulted under every
  sequence of operations, and a faulted queue accepts nothing and hands out nothing.\<close>

theorem deauth_fault_latched:
  assumes "dq_fault q \<noteq> None"
  shows "dq_fault (fold dq_step ops q) \<noteq> None
    \<and> (\<exists>e. dq_push r (fold dq_step ops q) = (Inl e, fold dq_step ops q))
    \<and> dq_pop (fold dq_step ops q) = (None, fold dq_step ops q)"
proof -
  have f: "dq_fault (fold dq_step ops q) \<noteq> None" by (rule deauth_latch.latch_run.run_inv [OF assms])
  then show ?thesis using dq_faulted_push dq_faulted_pop by fastforce
qed

end
