(* ===== verification/HostTx.thy ===== *)
theory HostTx
  imports Prelude
begin

text \<open>
  Ownership of host transmit buffers on FRW queue 4 (\<open>src/src/netif_l2/host_tx.rs\<close>).

  A table of 32 slots follows every buffer handed to the vendor queue from the post to
  the point where both the post has returned and the buffer was executed or freed.
  The definitions follow \<open>impl Tracker\<close>; the wrappers of \<open>mod native\<close> take the vendor
  functions as arguments that may change the tracker (they dispatch, free and post
  concurrently).  The invariant \<open>ht_inv\<close> ties the counters to the table; it is kept by
  every operation, so the accounting of the diagnostics holds after every sequence of
  operations.
\<close>

section \<open>Data\<close>

definition ht_CAPACITY :: nat where
  [simp]: "ht_CAPACITY = 32"

definition ht_CONTRACT_ERROR :: i32 where
  "ht_CONTRACT_ERROR = - 0x1002"

definition ht_DRAIN_TIMEOUT :: i32 where
  "ht_DRAIN_TIMEOUT = - 0x1003"

datatype hticket = HTicket u64

datatype hstage = Queued | Executing | Executed | Freeing | Freed

record hactive =
  ha_ticket :: hticket
  ha_pointer :: addr
  ha_stage :: hstage
  ha_post_returned :: bool

record hdiag =
  hd_accepted :: u64
  hd_processed :: u64
  hd_dropped :: u64
  hd_pending :: u32
  hd_peak :: u32
  hd_rejected :: u64
  hd_callback_errors :: u64
  hd_closed :: bool
  hd_fault :: i32

record ht =
  ht_slots :: "hactive option list"
  ht_diag :: hdiag
  ht_terminal :: bool

datatype hrejection = Release | Duplicate

section \<open>Operations\<close>

definition ht_new :: ht where
  "ht_new = \<lparr> ht_slots = replicate ht_CAPACITY None,
     ht_diag = \<lparr> hd_accepted = 0, hd_processed = 0, hd_dropped = 0, hd_pending = 0, hd_peak = 0,
       hd_rejected = 0, hd_callback_errors = 0, hd_closed = False, hd_fault = 0 \<rparr>,
     ht_terminal = False \<rparr>"

abbreviation ht_on_diag :: "(hdiag \<Rightarrow> hdiag) \<Rightarrow> ht \<Rightarrow> ht" where
  "ht_on_diag f t \<equiv> t\<lparr> ht_diag := f (ht_diag t) \<rparr>"

definition ht_fail :: "i32 \<Rightarrow> ht \<Rightarrow> ht" where
  "ht_fail status t = ht_on_diag (\<lambda>d. d\<lparr>
     hd_fault := (if hd_fault d = 0 then status else hd_fault d), hd_closed := True \<rparr>) t"

definition ht_count_rejected :: "ht \<Rightarrow> ht" where
  "ht_count_rejected t = ht_on_diag (\<lambda>d. d\<lparr> hd_rejected := sat_inc (hd_rejected d) \<rparr>) t"

definition ht_queued_at :: "addr \<Rightarrow> hactive \<Rightarrow> bool" where
  "ht_queued_at pointer a \<longleftrightarrow> ha_pointer a = pointer \<and> ha_stage a = Queued"

text \<open>The two \<open>expect\<close> calls are the two \<open>the\<close>; lemma \<open>ht_begin_no_panic\<close> shows that the
  guard before them excludes \<open>None\<close>.\<close>

definition ht_begin :: "addr \<Rightarrow> ht \<Rightarrow> (hrejection + hticket) \<times> ht" where
  "ht_begin pointer t =
     (if list_ex (ht_queued_at pointer) (somes (ht_slots t))
      then (Inl Duplicate, ht_count_rejected (ht_fail ht_CONTRACT_ERROR t))
      else
        let slot = free_pos (ht_slots t);
            sequence = checked_inc (hd_accepted (ht_diag t));
            t1 = (if pointer = 0 \<or> slot = None \<or> sequence = None
                  then ht_fail ht_CONTRACT_ERROR t else t)
        in if hd_closed (ht_diag t1) then (Inl Release, ht_count_rejected t1)
           else
             let ticket = HTicket (the sequence);
                 pending = hd_pending (ht_diag t1) + 1
             in (Inr ticket,
                 t1\<lparr> ht_slots := (ht_slots t1)[the slot :=
                        Some \<lparr> ha_ticket = ticket, ha_pointer = pointer, ha_stage = Queued,
                               ha_post_returned = False \<rparr>],
                     ht_diag := (ht_diag t1)\<lparr> hd_accepted := the sequence, hd_pending := pending,
                        hd_peak := max (hd_peak (ht_diag t1)) pending \<rparr> \<rparr>))"

definition ht_retire :: "hticket \<Rightarrow> ht \<Rightarrow> ht" where
  "ht_retire ticket t =
     (case slot_pos (\<lambda>a. ha_ticket a = ticket) (ht_slots t) of
        None \<Rightarrow> t
      | Some index \<Rightarrow>
         let a = the (ht_slots t ! index)
         in if \<not> ha_post_returned a \<or> ha_stage a \<notin> {Executed, Freed} then t
            else t\<lparr> ht_slots := (ht_slots t)[index := None],
                    ht_diag := (let d = (ht_diag t)\<lparr> hd_pending := hd_pending (ht_diag t) - 1 \<rparr>
                      in if ha_stage a = Executed then d\<lparr> hd_processed := hd_processed d + 1 \<rparr>
                         else d\<lparr> hd_dropped := hd_dropped d + 1 \<rparr>) \<rparr>)"

definition ht_set_slot :: "nat \<Rightarrow> hactive \<Rightarrow> ht \<Rightarrow> ht" where
  "ht_set_slot i a t = t\<lparr> ht_slots := (ht_slots t)[i := Some a] \<rparr>"

definition ht_post_returned :: "hticket \<Rightarrow> i32 \<Rightarrow> ht \<Rightarrow> ht" where
  "ht_post_returned ticket status t =
     (case slot_pos (\<lambda>a. ha_ticket a = ticket) (ht_slots t) of
        None \<Rightarrow> ht_fail ht_CONTRACT_ERROR t
      | Some i \<Rightarrow>
         let a = the (ht_slots t ! i)
         in if ha_post_returned a then ht_fail ht_CONTRACT_ERROR t
            else
              let t1 = ht_set_slot i (a\<lparr> ha_post_returned := True \<rparr>) t;
                  t2 = (if status \<noteq> 0 then ht_fail status t1 else t1)
              in ht_retire ticket t2)"

definition ht_dispatch :: "addr \<Rightarrow> ht \<Rightarrow> hticket option \<times> ht" where
  "ht_dispatch pointer t =
     (case slot_pos (ht_queued_at pointer) (ht_slots t) of
        None \<Rightarrow> (None, ht_fail ht_CONTRACT_ERROR t)
      | Some i \<Rightarrow>
         let a = the (ht_slots t ! i)
         in (Some (ha_ticket a), ht_set_slot i (a\<lparr> ha_stage := Executing \<rparr>) t))"

definition ht_before_free :: "addr \<Rightarrow> ht \<Rightarrow> hticket option \<times> ht" where
  "ht_before_free pointer t =
     (case slot_pos (ht_queued_at pointer) (ht_slots t) of
        None \<Rightarrow> (None, t)
      | Some i \<Rightarrow>
         let a = the (ht_slots t ! i)
         in (Some (ha_ticket a), ht_set_slot i (a\<lparr> ha_stage := Freeing \<rparr>) t))"

definition ht_complete :: "hticket \<Rightarrow> bool \<Rightarrow> i32 \<Rightarrow> ht \<Rightarrow> ht" where
  "ht_complete ticket freeing status t =
     (case slot_pos (\<lambda>a. ha_ticket a = ticket) (ht_slots t) of
        None \<Rightarrow> ht_fail ht_CONTRACT_ERROR t
      | Some i \<Rightarrow>
         let a = the (ht_slots t ! i);
             expected = (if freeing then Freeing else Executing)
         in if ha_stage a \<noteq> expected then ht_fail ht_CONTRACT_ERROR t
            else if freeing \<and> status \<noteq> 0 then ht_fail status t
            else
              let t1 = ht_set_slot i (a\<lparr> ha_stage := (if freeing then Freed else Executed) \<rparr>) t;
                  t2 = (if \<not> freeing \<and> status \<noteq> 0
                        then ht_fail status (ht_on_diag (\<lambda>d. d\<lparr>
                               hd_callback_errors := sat_inc (hd_callback_errors d) \<rparr>) t1)
                        else t1)
              in ht_retire ticket t2)"

definition ht_close :: "ht \<Rightarrow> ht" where
  "ht_close t = ht_on_diag (\<lambda>d. d\<lparr> hd_closed := True \<rparr>) t"

definition ht_seal :: "ht \<Rightarrow> ht" where
  "ht_seal t = ht_close (t\<lparr> ht_terminal := True \<rparr>)"

definition ht_resume_handshake :: "i32 \<Rightarrow> ht \<Rightarrow> (i32 + unit) \<times> ht" where
  "ht_resume_handshake native_status t =
     (if native_status \<noteq> 0 then (Inl native_status, t)
      else if hd_fault (ht_diag t) \<noteq> 0 then (Inl (hd_fault (ht_diag t)), t)
      else if ht_terminal t \<or> hd_pending (ht_diag t) \<noteq> 0 then (Inl ht_CONTRACT_ERROR, t)
      else (Inr (), ht_on_diag (\<lambda>d. d\<lparr> hd_closed := False \<rparr>) t))"

definition ht_drained :: "ht \<Rightarrow> i32 + bool" where
  "ht_drained t =
     (if hd_fault (ht_diag t) \<noteq> 0 then Inl (hd_fault (ht_diag t))
      else Inr (hd_closed (ht_diag t) \<and> hd_pending (ht_diag t) = 0))"

text \<open>The wait loop reads, in every turn, the tracker, the clock (absent when no tick source
  is bound) and the result of the one-millisecond sleep; a list of such readings drives the
  model.  \<open>None\<close>: the readings ran out before the loop returned.\<close>

fun ht_wait_loop :: "u64 \<Rightarrow> (ht \<times> u64 option \<times> bool) list \<Rightarrow> (i32 + unit) option" where
  "ht_wait_loop started [] = None"
| "ht_wait_loop started ((t, clock, slept) # rest) =
     (case ht_drained t of
        Inl e \<Rightarrow> Some (Inl e)
      | Inr True \<Rightarrow> Some (Inr ())
      | Inr False \<Rightarrow>
         (case clock of
            None \<Rightarrow> Some (Inl ht_CONTRACT_ERROR)
          | Some now \<Rightarrow>
             (if now < started \<or> now - started \<ge> 1000 then Some (Inl ht_DRAIN_TIMEOUT)
              else if \<not> slept then Some (Inl ht_CONTRACT_ERROR)
              else ht_wait_loop started rest)))"

definition ht_wait_for_drain :: "u64 option \<Rightarrow> (ht \<times> u64 option \<times> bool) list \<Rightarrow> (i32 + unit) option" where
  "ht_wait_for_drain clock readings =
     (case clock of
        None \<Rightarrow> Some (Inl ht_CONTRACT_ERROR)
      | Some started \<Rightarrow> ht_wait_loop started readings)"

text \<open>\<open>close_and_drain\<close> closes admission before the first reading, so the readings are a
  function of the closed tracker; the tracker at the return is \<open>final\<close> of it.\<close>

definition ht_close_and_drain ::
  "u64 option \<Rightarrow> (ht \<Rightarrow> (ht \<times> u64 option \<times> bool) list) \<Rightarrow> (ht \<Rightarrow> ht) \<Rightarrow> ht \<Rightarrow> ((i32 + unit) \<times> ht) option" where
  "ht_close_and_drain clock readings final t =
     (let t1 = ht_close t
      in case ht_wait_for_drain clock (readings t1) of
           None \<Rightarrow> None
         | Some (Inl status) \<Rightarrow> Some (Inl status, ht_fail status (final t1))
         | Some (Inr u) \<Rightarrow> Some (Inr u, final t1))"

definition ht_seal_and_drain ::
  "u64 option \<Rightarrow> (ht \<Rightarrow> (ht \<times> u64 option \<times> bool) list) \<Rightarrow> (ht \<Rightarrow> ht) \<Rightarrow> ht \<Rightarrow> ((i32 + unit) \<times> ht) option" where
  "ht_seal_and_drain clock readings final t = ht_close_and_drain clock readings final (ht_seal t)"

text \<open>The linker wrappers.  \<open>real_post\<close>, \<open>real_dispatch\<close> and \<open>real_free\<close> are the vendor
  functions on the arguments of the call; the message pointer of \<open>dispatch\<close> is read as the
  payload it carries (\<open>None\<close>: null message, wrong length or null data).\<close>

definition ht_native_post :: "u16 \<Rightarrow> addr \<Rightarrow> (ht \<Rightarrow> i32 \<times> ht) \<Rightarrow> (ht \<Rightarrow> u32 \<times> ht) \<Rightarrow> ht \<Rightarrow> i32 \<times> ht" where
  "ht_native_post kind netbuf real_post real_free t =
     (if kind \<noteq> 4 then real_post t
      else
        (case ht_begin netbuf t of
           (Inl Release, t1) \<Rightarrow> (ht_CONTRACT_ERROR, snd (real_free t1))
         | (Inl Duplicate, t1) \<Rightarrow> (ht_CONTRACT_ERROR, t1)
         | (Inr ticket, t1) \<Rightarrow>
            (case real_post t1 of
               (status, t2) \<Rightarrow> (status, ht_post_returned ticket status t2))))"

definition ht_native_dispatch :: "u16 \<Rightarrow> addr option \<Rightarrow> (ht \<Rightarrow> i32 \<times> ht) \<Rightarrow> ht \<Rightarrow> i32 \<times> ht" where
  "ht_native_dispatch kind payload real_dispatch t =
     (case (if kind = 4 then ht_dispatch (case payload of None \<Rightarrow> 0 | Some p \<Rightarrow> p) t else (None, t)) of
        (ticket, t1) \<Rightarrow>
         (case real_dispatch t1 of
            (status, t2) \<Rightarrow>
              (status, case ticket of None \<Rightarrow> t2 | Some k \<Rightarrow> ht_complete k False status t2)))"

definition ht_native_free :: "addr \<Rightarrow> (ht \<Rightarrow> u32 \<times> ht) \<Rightarrow> ht \<Rightarrow> u32 \<times> ht" where
  "ht_native_free netbuf real_free t =
     (case ht_before_free netbuf t of
        (ticket, t1) \<Rightarrow>
         (case real_free t1 of
            (status, t2) \<Rightarrow>
              (status, case ticket of None \<Rightarrow> t2 | Some k \<Rightarrow> ht_complete k True (sint status) t2)))"

datatype hop = HBegin addr | HPostReturned hticket i32 | HDispatch addr | HBeforeFree addr
  | HComplete hticket bool i32 | HClose | HSeal | HResume i32 | HFail i32

fun ht_step :: "hop \<Rightarrow> ht \<Rightarrow> ht" where
  "ht_step (HBegin p) t = snd (ht_begin p t)"
| "ht_step (HPostReturned k s) t = ht_post_returned k s t"
| "ht_step (HDispatch p) t = snd (ht_dispatch p t)"
| "ht_step (HBeforeFree p) t = snd (ht_before_free p t)"
| "ht_step (HComplete k f s) t = ht_complete k f s t"
| "ht_step HClose t = ht_close t"
| "ht_step HSeal t = ht_seal t"
| "ht_step (HResume s) t = snd (ht_resume_handshake s t)"
| "ht_step (HFail s) t = ht_fail s t"

section \<open>Invariant\<close>

definition ht_has :: "hticket \<Rightarrow> ht \<Rightarrow> bool" where
  "ht_has k t \<longleftrightarrow> (\<exists>a. Some a \<in> set (ht_slots t) \<and> ha_ticket a = k)"

definition ht_number :: "hactive \<Rightarrow> nat" where
  "ht_number a = (case ha_ticket a of HTicket n \<Rightarrow> unat n)"

text \<open>A settled buffer has both returned from its post and finished; it must not stay in the
  table.\<close>

definition ht_settled :: "hactive \<Rightarrow> bool" where
  "ht_settled a \<longleftrightarrow> ha_post_returned a \<and> ha_stage a \<in> {Executed, Freed}"

definition ht_uniq :: "hactive option list \<Rightarrow> bool" where
  "ht_uniq xs \<longleftrightarrow> (\<forall>i j a b. i < length xs \<and> j < length xs \<and> xs ! i = Some a \<and> xs ! j = Some b
     \<and> (ha_ticket a = ha_ticket b
        \<or> ha_stage a = Queued \<and> ha_stage b = Queued \<and> ha_pointer a = ha_pointer b) \<longrightarrow> i = j)"

definition ht_core :: "ht \<Rightarrow> bool" where
  "ht_core t \<longleftrightarrow>
     length (ht_slots t) = 32
     \<and> ht_uniq (ht_slots t)
     \<and> (\<forall>a. Some a \<in> set (ht_slots t) \<longrightarrow> ht_number a \<le> unat (hd_accepted (ht_diag t)))
     \<and> unat (hd_pending (ht_diag t)) = occupied (ht_slots t)
     \<and> unat (hd_processed (ht_diag t)) + unat (hd_dropped (ht_diag t)) + occupied (ht_slots t)
         = unat (hd_accepted (ht_diag t))
     \<and> hd_pending (ht_diag t) \<le> hd_peak (ht_diag t) \<and> hd_peak (ht_diag t) \<le> 32
     \<and> (hd_fault (ht_diag t) \<noteq> 0 \<longrightarrow> hd_closed (ht_diag t))
     \<and> (ht_terminal t \<longrightarrow> hd_closed (ht_diag t))"

definition ht_inv :: "ht \<Rightarrow> bool" where
  "ht_inv t \<longleftrightarrow> ht_core t \<and> (\<forall>a. Some a \<in> set (ht_slots t) \<longrightarrow> \<not> ht_settled a)"

lemmas ht_simps = ht_fail_def ht_count_rejected_def ht_close_def ht_seal_def ht_set_slot_def

lemma ht_begin_no_panic:
  assumes "\<not> hd_closed (ht_diag (if pointer = 0 \<or> free_pos (ht_slots t) = None
      \<or> checked_inc (hd_accepted (ht_diag t)) = None then ht_fail ht_CONTRACT_ERROR t else t))"
  shows "free_pos (ht_slots t) \<noteq> None \<and> checked_inc (hd_accepted (ht_diag t)) \<noteq> None"
  using assms by (auto simp: ht_fail_def split: if_splits)

lemma ht_uniq_new: "ht_uniq (replicate n None)"
  unfolding ht_uniq_def by (metis length_replicate nth_replicate option.distinct(1))

lemma ht_uniqD:
  "\<lbrakk> ht_uniq xs; i < length xs; j < length xs; xs ! i = Some a; xs ! j = Some b;
     ha_ticket a = ha_ticket b \<rbrakk> \<Longrightarrow> i = j"
  unfolding ht_uniq_def by blast

lemma ht_uniq_keep:
  assumes "ht_uniq xs" "i < length xs" "xs ! i = Some a" "ha_ticket a' = ha_ticket a"
    "ha_stage a' = Queued \<longrightarrow> ha_stage a = Queued \<and> ha_pointer a' = ha_pointer a"
  shows "ht_uniq (xs[i := Some a'])"
  unfolding ht_uniq_def
proof (intro allI impI, elim conjE)
  fix k j b c
  assume h: "k < length (xs[i := Some a'])" "j < length (xs[i := Some a'])"
    "xs[i := Some a'] ! k = Some b" "xs[i := Some a'] ! j = Some c"
    "ha_ticket b = ha_ticket c \<or> ha_stage b = Queued \<and> ha_stage c = Queued \<and> ha_pointer b = ha_pointer c"
  have u: "\<And>i j a b. \<lbrakk> i < length xs; j < length xs; xs ! i = Some a; xs ! j = Some b;
     ha_ticket a = ha_ticket b \<or> ha_stage a = Queued \<and> ha_stage b = Queued \<and> ha_pointer a = ha_pointer b \<rbrakk>
     \<Longrightarrow> i = j" using assms(1) unfolding ht_uniq_def by blast
  show "k = j"
  proof (cases "k = i"; cases "j = i")
    assume "k = i" "j \<noteq> i"
    then show ?thesis using h assms u [of i j a c] by auto
  next
    assume "k \<noteq> i" "j = i"
    then show ?thesis using h assms u [of k i b a] by auto
  next
    assume "k \<noteq> i" "j \<noteq> i"
    then show ?thesis using h u [of k j b c] by auto
  qed simp
qed

lemma ht_uniq_clear: "ht_uniq xs \<Longrightarrow> ht_uniq (xs[i := None])"
  unfolding ht_uniq_def by (metis length_list_update nth_list_update_eq nth_list_update_neq option.distinct(1))

lemma ht_uniq_fill:
  assumes "ht_uniq xs" "\<And>b. Some b \<in> set xs \<Longrightarrow> ha_ticket b \<noteq> ha_ticket a"
    "\<And>b. Some b \<in> set xs \<Longrightarrow> \<not> ht_queued_at (ha_pointer a) b"
  shows "ht_uniq (xs[i := Some a])"
  unfolding ht_uniq_def
proof (intro allI impI, elim conjE)
  fix k j b c
  assume h: "k < length (xs[i := Some a])" "j < length (xs[i := Some a])"
    "xs[i := Some a] ! k = Some b" "xs[i := Some a] ! j = Some c"
    "ha_ticket b = ha_ticket c \<or> ha_stage b = Queued \<and> ha_stage c = Queued \<and> ha_pointer b = ha_pointer c"
  have mem: "Some d \<in> set xs" if "m < length xs" "m \<noteq> i" "xs[i := Some a] ! m = Some d" for m d
    using that by (metis nth_list_update_neq nth_mem)
  show "k = j"
  proof (cases "k = i"; cases "j = i")
    assume "k = i" "j \<noteq> i"
    then show ?thesis using h mem [of j c] assms(2,3) [of c] by (auto simp: ht_queued_at_def)
  next
    assume "k \<noteq> i" "j = i"
    then show ?thesis using h mem [of k b] assms(2,3) [of b] by (auto simp: ht_queued_at_def)
  next
    assume "k \<noteq> i" "j \<noteq> i"
    then show ?thesis using h assms(1) unfolding ht_uniq_def by (metis length_list_update nth_list_update_neq)
  qed simp
qed

lemma ht_inv_new: "ht_inv ht_new"
  by (simp add: ht_inv_def ht_core_def ht_new_def ht_uniq_new)

lemma ht_core_fail: "ht_core t \<Longrightarrow> ht_core (ht_fail s t)"
  by (simp add: ht_core_def ht_fail_def)

lemma ht_inv_fail: "ht_inv t \<Longrightarrow> ht_inv (ht_fail s t)"
  by (simp add: ht_inv_def ht_core_fail) (simp add: ht_fail_def)

lemma ht_inv_rejected: "ht_inv t \<Longrightarrow> ht_inv (ht_count_rejected t)"
  by (simp add: ht_inv_def ht_core_def ht_count_rejected_def)

lemma ht_core_set_slot:
  assumes c: "ht_core t" and i: "i < length (ht_slots t)" "ht_slots t ! i = Some a"
    and a': "ha_ticket a' = ha_ticket a"
      "ha_stage a' = Queued \<longrightarrow> ha_stage a = Queued \<and> ha_pointer a' = ha_pointer a"
  shows "ht_core (ht_set_slot i a' t)"
proof -
  have "Some a \<in> set (ht_slots t)" using i by (metis nth_mem)
  then have "\<And>b. Some b \<in> set ((ht_slots t)[i := Some a']) \<Longrightarrow>
      ht_number b \<le> unat (hd_accepted (ht_diag t))"
    using c a' by (auto simp: ht_core_def ht_number_def dest!: set_update_Some)
  then show ?thesis
    using c ht_uniq_keep [OF _ i a'] occupied_keep [of i "ht_slots t" a'] i
    by (simp add: ht_core_def ht_set_slot_def)
qed

lemma ht_slot_posD:
  "slot_pos P (ht_slots t) = Some i
    \<Longrightarrow> i < length (ht_slots t) \<and> ht_slots t ! i = Some (the (ht_slots t ! i)) \<and> P (the (ht_slots t ! i))
      \<and> Some (the (ht_slots t ! i)) \<in> set (ht_slots t)"
  by (auto dest!: slot_pos_Some) (metis nth_mem)

lemma ht_core_retire:
  assumes c: "ht_core t"
  shows "ht_core (ht_retire k t)"
proof (cases "slot_pos (\<lambda>a. ha_ticket a = k) (ht_slots t)")
  case None
  then show ?thesis using c by (simp add: ht_retire_def)
next
  case (Some i)
  let ?a = "the (ht_slots t ! i)" and ?d = "ht_diag t"
  have i: "i < length (ht_slots t)" "ht_slots t ! i = Some ?a" using ht_slot_posD [OF Some] by auto
  have occ: "Suc (occupied ((ht_slots t)[i := None])) = occupied (ht_slots t)"
    using i by (intro occupied_clear) auto
  have p0: "hd_pending ?d \<noteq> 0" using c occ by (auto simp: ht_core_def)
  then have pm: "unat (hd_pending ?d - 1) = unat (hd_pending ?d) - 1"
    by (simp add: unat_minus_one)
  have le: "hd_pending ?d - 1 \<le> hd_peak ?d"
    using c pm by (auto simp: ht_core_def word_le_nat_alt)
  have acc: "unat (hd_accepted ?d) < 2 ^ 64" using unsigned_less [of "hd_accepted ?d", where ?'a = nat] by simp
  have bound: "Suc (unat (hd_processed ?d)) < 2 ^ 64" "Suc (unat (hd_dropped ?d)) < 2 ^ 64"
    using c occ acc by (auto simp: ht_core_def)
  then have "hd_processed ?d \<noteq> - 1" "hd_dropped ?d \<noteq> - 1" by (auto simp: eq_minus_one_iff)
  then have inc: "unat (hd_processed ?d + 1) = Suc (unat (hd_processed ?d))"
      "unat (hd_dropped ?d + 1) = Suc (unat (hd_dropped ?d))"
    by (simp_all add: unat_inc)
  have mem: "\<And>b. Some b \<in> set ((ht_slots t)[i := None]) \<Longrightarrow> Some b \<in> set (ht_slots t)"
    by (auto dest: set_update_Some)
  show ?thesis
    using c Some i occ pm le inc mem
    by (auto simp: ht_retire_def Let_def ht_core_def ht_uniq_clear)
qed

lemma ht_retire_slots:
  "slot_pos (\<lambda>a. ha_ticket a = k) (ht_slots t) = Some i \<Longrightarrow>
    ht_slots (ht_retire k t) = (if ht_settled (the (ht_slots t ! i)) then (ht_slots t)[i := None] else ht_slots t)"
  by (auto simp: ht_retire_def Let_def ht_settled_def)

lemma ht_inv_retire:
  assumes c: "ht_core t"
    and s: "\<And>a. Some a \<in> set (ht_slots t) \<Longrightarrow> ha_ticket a \<noteq> k \<Longrightarrow> \<not> ht_settled a"
  shows "ht_inv (ht_retire k t)"
proof -
  have "\<not> ht_settled a" if mem: "Some a \<in> set (ht_slots (ht_retire k t))" for a
  proof (cases "slot_pos (\<lambda>a. ha_ticket a = k) (ht_slots t)")
    case None
    then have "ht_retire k t = t" by (simp add: ht_retire_def)
    then show ?thesis using mem s None by (auto simp: slot_pos_None)
  next
    case (Some i)
    let ?a = "the (ht_slots t ! i)"
    have i: "i < length (ht_slots t)" "ht_slots t ! i = Some ?a" "ha_ticket ?a = k"
      using ht_slot_posD [OF Some] by auto
    have uniq: "m = i" if "m < length (ht_slots t)" "ht_slots t ! m = Some b" "ha_ticket b = k" for m b
      using ht_uniqD [of "ht_slots t" m i b ?a] c i that by (auto simp: ht_core_def)
    obtain m where m: "m < length (ht_slots t)" "ht_slots (ht_retire k t) ! m = Some a"
      using mem by (cases "ht_settled ?a") (auto simp: in_set_conv_nth ht_retire_slots [OF Some])
    have "ht_slots t ! m = Some a"
      using m by (cases "ht_settled ?a"; cases "m = i") (auto simp: ht_retire_slots [OF Some])
    moreover have "m \<noteq> i" if "ht_settled ?a"
      using that m i by (auto simp: ht_retire_slots [OF Some])
    ultimately show ?thesis using uniq [of m a] s [of a] m(1) i by (metis nth_mem option.sel)
  qed
  then show ?thesis using ht_core_retire [OF c] by (auto simp: ht_inv_def)
qed

lemma ht_inv_post_returned:
  assumes I: "ht_inv t"
  shows "ht_inv (ht_post_returned k s t)"
proof (cases "slot_pos (\<lambda>a. ha_ticket a = k) (ht_slots t)")
  case None
  then show ?thesis using I by (simp add: ht_post_returned_def ht_inv_fail)
next
  case (Some i)
  let ?a = "the (ht_slots t ! i)"
  let ?t1 = "ht_set_slot i (?a\<lparr> ha_post_returned := True \<rparr>) t"
  let ?t2 = "if s \<noteq> 0 then ht_fail s ?t1 else ?t1"
  note i = ht_slot_posD [OF Some]
  have "ht_core ?t1" using I i by (intro ht_core_set_slot) (auto simp: ht_inv_def)
  then have c: "ht_core ?t2" by (simp add: ht_core_fail)
  have "ht_slots ?t2 = (ht_slots t)[i := Some (?a\<lparr> ha_post_returned := True \<rparr>)]"
    by (simp add: ht_set_slot_def ht_fail_def)
  then have "\<not> ht_settled b" if "Some b \<in> set (ht_slots ?t2)" "ha_ticket b \<noteq> k" for b
    using that I i by (auto simp: ht_inv_def dest!: set_update_Some)
  then have "ht_inv (ht_retire k ?t2)" by (rule ht_inv_retire [OF c])
  then show ?thesis using Some I by (simp add: ht_post_returned_def Let_def ht_inv_fail)
qed

lemma ht_inv_complete:
  assumes I: "ht_inv t"
  shows "ht_inv (ht_complete k freeing s t)"
proof (cases "slot_pos (\<lambda>a. ha_ticket a = k) (ht_slots t)")
  case None
  then show ?thesis using I by (simp add: ht_complete_def ht_inv_fail)
next
  case (Some i)
  let ?a = "the (ht_slots t ! i)"
  let ?a' = "?a\<lparr> ha_stage := (if freeing then Freed else Executed) \<rparr>"
  let ?t1 = "ht_set_slot i ?a' t"
  let ?t2 = "if \<not> freeing \<and> s \<noteq> 0 then ht_fail s (ht_on_diag (\<lambda>d. d\<lparr>
               hd_callback_errors := sat_inc (hd_callback_errors d) \<rparr>) ?t1) else ?t1"
  note i = ht_slot_posD [OF Some]
  have "ht_core ?t1" using I i by (intro ht_core_set_slot) (auto simp: ht_inv_def)
  moreover from this have "ht_core (ht_on_diag (\<lambda>d. d\<lparr>
               hd_callback_errors := sat_inc (hd_callback_errors d) \<rparr>) ?t1)"
    by (simp add: ht_core_def)
  ultimately have c: "ht_core ?t2"
    by (cases freeing; cases "s = 0") (simp_all add: ht_core_fail)
  have "ht_slots ?t2 = (ht_slots t)[i := Some ?a']" by (simp add: ht_set_slot_def ht_fail_def)
  then have "\<not> ht_settled b" if "Some b \<in> set (ht_slots ?t2)" "ha_ticket b \<noteq> k" for b
    using that I i by (auto simp: ht_inv_def dest!: set_update_Some)
  then have "ht_inv (ht_retire k ?t2)" by (rule ht_inv_retire [OF c])
  then show ?thesis using Some I by (simp add: ht_complete_def Let_def ht_inv_fail)
qed

lemma ht_inv_leave_queue:
  assumes I: "ht_inv t" and p: "slot_pos (ht_queued_at p) (ht_slots t) = Some i"
    and st: "st = Executing \<or> st = Freeing"
  shows "ht_inv (ht_set_slot i ((the (ht_slots t ! i))\<lparr> ha_stage := st \<rparr>) t)"
proof -
  note i = ht_slot_posD [OF p]
  have "ht_core (ht_set_slot i ((the (ht_slots t ! i))\<lparr> ha_stage := st \<rparr>) t)"
    using I i st by (intro ht_core_set_slot) (auto simp: ht_inv_def)
  then show ?thesis using I st by (auto simp: ht_inv_def ht_set_slot_def ht_settled_def dest!: set_update_Some)
qed

lemma ht_inv_dispatch: "ht_inv t \<Longrightarrow> ht_inv (snd (ht_dispatch p t))"
  by (auto simp: ht_dispatch_def Let_def ht_inv_fail ht_inv_leave_queue split: option.split)

lemma ht_inv_before_free: "ht_inv t \<Longrightarrow> ht_inv (snd (ht_before_free p t))"
  by (auto simp: ht_before_free_def Let_def ht_inv_leave_queue split: option.split)

text \<open>An accepted post fills a free slot under a ticket larger than every ticket before.\<close>

lemma ht_begin_accepted:
  assumes b: "ht_begin p t = (Inr k, t')"
  obtains i n where "free_pos (ht_slots t) = Some i" "hd_accepted (ht_diag t) \<noteq> - 1"
    "n = hd_accepted (ht_diag t) + 1" "k = HTicket n" "p \<noteq> 0" "\<not> hd_closed (ht_diag t)"
    "\<And>a. Some a \<in> set (ht_slots t) \<Longrightarrow> \<not> ht_queued_at p a"
    "t' = t\<lparr> ht_slots := (ht_slots t)[i := Some \<lparr> ha_ticket = k, ha_pointer = p, ha_stage = Queued,
              ha_post_returned = False \<rparr>],
            ht_diag := (ht_diag t)\<lparr> hd_accepted := n, hd_pending := hd_pending (ht_diag t) + 1,
              hd_peak := max (hd_peak (ht_diag t)) (hd_pending (ht_diag t) + 1) \<rparr> \<rparr>"
proof -
  have nd: "\<not> list_ex (ht_queued_at p) (somes (ht_slots t))"
    using b by (auto simp: ht_begin_def split: if_splits)
  have ok: "p \<noteq> 0 \<and> free_pos (ht_slots t) \<noteq> None \<and> checked_inc (hd_accepted (ht_diag t)) \<noteq> None
      \<and> \<not> hd_closed (ht_diag t)"
    using b nd by (auto simp: ht_begin_def Let_def ht_fail_def split: if_splits)
  then obtain i where i: "free_pos (ht_slots t) = Some i" by auto
  have n: "hd_accepted (ht_diag t) \<noteq> - 1" using ok by simp
  have "ht_begin p t = (Inr (HTicket (hd_accepted (ht_diag t) + 1)),
      t\<lparr> ht_slots := (ht_slots t)[i := Some \<lparr> ha_ticket = HTicket (hd_accepted (ht_diag t) + 1),
              ha_pointer = p, ha_stage = Queued, ha_post_returned = False \<rparr>],
         ht_diag := (ht_diag t)\<lparr> hd_accepted := hd_accepted (ht_diag t) + 1,
              hd_pending := hd_pending (ht_diag t) + 1,
              hd_peak := max (hd_peak (ht_diag t)) (hd_pending (ht_diag t) + 1) \<rparr> \<rparr>)"
    using nd ok i n by (simp add: ht_begin_def Let_def checked_inc_def)
  then show ?thesis
    using b nd ok i n by (intro that [of i "hd_accepted (ht_diag t) + 1"]) (auto simp: list_ex_iff set_somes)
qed

lemma ht_inv_begin:
  assumes I: "ht_inv t"
  shows "ht_inv (snd (ht_begin p t))"
proof (cases "ht_begin p t")
  case (Pair r t')
  show ?thesis
  proof (cases r)
    case (Inl e)
    then show ?thesis using Pair I
      by (auto simp: ht_begin_def Let_def ht_inv_fail ht_inv_rejected split: if_splits)
  next
    case (Inr k)
    obtain i n where i: "free_pos (ht_slots t) = Some i" and n: "hd_accepted (ht_diag t) \<noteq> - 1"
        "n = hd_accepted (ht_diag t) + 1" "k = HTicket n"
      and nq: "\<And>a. Some a \<in> set (ht_slots t) \<Longrightarrow> \<not> ht_queued_at p a"
      and cl: "\<not> hd_closed (ht_diag t)"
      and t': "t' = t\<lparr> ht_slots := (ht_slots t)[i := Some \<lparr> ha_ticket = k, ha_pointer = p,
              ha_stage = Queued, ha_post_returned = False \<rparr>],
            ht_diag := (ht_diag t)\<lparr> hd_accepted := n, hd_pending := hd_pending (ht_diag t) + 1,
              hd_peak := max (hd_peak (ht_diag t)) (hd_pending (ht_diag t) + 1) \<rparr> \<rparr>"
      by (rule ht_begin_accepted [of p t k t']) (use Pair Inr in auto)
    let ?a = "\<lparr> ha_ticket = k, ha_pointer = p, ha_stage = Queued, ha_post_returned = False \<rparr>"
    note f = free_pos_Some [OF i]
    have un: "unat n = Suc (unat (hd_accepted (ht_diag t)))" using n by (simp add: unat_inc)
    have occ: "occupied ((ht_slots t)[i := Some ?a]) = Suc (occupied (ht_slots t))"
      using f by (intro occupied_fill) auto
    have le: "occupied ((ht_slots t)[i := Some ?a]) \<le> 32"
      using occupied_le [of "(ht_slots t)[i := Some ?a]"] I by (simp add: ht_inv_def ht_core_def)
    have up: "unat (hd_pending (ht_diag t) + 1) = Suc (unat (hd_pending (ht_diag t)))"
      using I occ le by (intro unat_inc) (auto simp: ht_inv_def ht_core_def eq_minus_one_iff)
    have p32: "hd_pending (ht_diag t) + 1 \<le> 32"
      using up occ le I by (simp add: word_le_nat_alt ht_inv_def ht_core_def)
    have fresh: "ha_ticket b \<noteq> k" if "Some b \<in> set (ht_slots t)" for b
      using that I un n by (auto simp: ht_inv_def ht_core_def ht_number_def split: hticket.splits)
    have "ht_uniq ((ht_slots t)[i := Some ?a])"
      using I nq fresh by (intro ht_uniq_fill) (auto simp: ht_inv_def ht_core_def)
    moreover have "ht_number b \<le> unat n \<and> \<not> ht_settled b"
      if "Some b \<in> set ((ht_slots t)[i := Some ?a])" for b
      using set_update_Some [OF that] I un n
      by (auto simp: ht_inv_def ht_core_def ht_number_def ht_settled_def le_Suc_eq)
    ultimately show ?thesis
      using I un occ up p32 cl unfolding Pair snd_conv t'
      by (auto simp: ht_inv_def ht_core_def max_def)
  qed
qed

lemma ht_inv_step: "ht_inv t \<Longrightarrow> ht_inv (ht_step a t)"
proof (cases a)
  case (HResume s)
  then show "ht_inv t \<Longrightarrow> ?thesis" by (auto simp: ht_resume_handshake_def ht_inv_def ht_core_def)
next
  case HClose
  then show "ht_inv t \<Longrightarrow> ?thesis" by (simp add: ht_close_def ht_inv_def ht_core_def)
next
  case HSeal
  then show "ht_inv t \<Longrightarrow> ?thesis" by (simp add: ht_seal_def ht_close_def ht_inv_def ht_core_def)
qed (simp_all add: ht_inv_begin ht_inv_post_returned ht_inv_dispatch ht_inv_before_free
    ht_inv_complete ht_inv_fail)

interpretation host_tx: machine ht_step ht_inv
  by unfold_locales (rule ht_inv_step)

text \<open>The first fault is kept, and a sealed tracker stays sealed and closed.\<close>

lemma ht_retire_flags [simp]:
  "hd_fault (ht_diag (ht_retire k t)) = hd_fault (ht_diag t)"
  "hd_closed (ht_diag (ht_retire k t)) = hd_closed (ht_diag t)"
  "ht_terminal (ht_retire k t) = ht_terminal t"
  by (auto simp: ht_retire_def Let_def split: option.split)

lemma ht_step_fault:
  "hd_fault (ht_diag t) \<noteq> 0 \<Longrightarrow> hd_fault (ht_diag (ht_step a t)) = hd_fault (ht_diag t)"
  by (cases a) (auto simp: ht_begin_def ht_post_returned_def ht_dispatch_def ht_before_free_def
      ht_complete_def ht_resume_handshake_def ht_simps Let_def split: option.split)

lemma ht_step_terminal:
  "ht_terminal t \<and> hd_closed (ht_diag t) \<Longrightarrow> ht_terminal (ht_step a t) \<and> hd_closed (ht_diag (ht_step a t))"
  by (cases a) (auto simp: ht_begin_def ht_post_returned_def ht_dispatch_def ht_before_free_def
      ht_complete_def ht_resume_handshake_def ht_simps Let_def split: option.split)

interpretation host_tx_fault: sticky ht_step
  "\<lambda>t. if hd_fault (ht_diag t) = 0 then None else Some (hd_fault (ht_diag t))"
  by unfold_locales (auto simp: ht_step_fault split: if_splits)

interpretation host_tx_seal: latch ht_step "\<lambda>t. ht_terminal t \<and> hd_closed (ht_diag t)"
  by unfold_locales (rule ht_step_terminal)

lemma ht_begin_closed: "hd_closed (ht_diag t) \<Longrightarrow> \<exists>r. fst (ht_begin p t) = Inl r"
  by (auto simp: ht_begin_def Let_def ht_fail_def)

lemma ht_wait_loop_Inr:
  "ht_wait_loop started readings = Some (Inr ()) \<Longrightarrow> \<exists>r \<in> set readings. ht_drained (fst r) = Inr True"
  by (induction readings rule: ht_wait_loop.induct)
    (auto split: sum.splits bool.splits option.splits if_splits)

lemma ht_wait_loop_returns:
  "\<lbrakk> (t, Some now, slept) \<in> set readings; now < started \<or> now - started \<ge> 1000 \<rbrakk>
    \<Longrightarrow> \<exists>r. ht_wait_loop started readings = Some r"
  by (induction readings rule: ht_wait_loop.induct)
    (auto split: sum.splits bool.splits option.splits if_splits)

lemma ht_wait_loop_error: "ht_wait_loop started readings = Some (Inl e) \<Longrightarrow> e \<noteq> 0"
  by (induction readings rule: ht_wait_loop.induct)
    (auto simp: ht_drained_def ht_CONTRACT_ERROR_def ht_DRAIN_TIMEOUT_def
      split: sum.splits bool.splits option.splits if_splits)

text \<open>The wrappers keep the invariant when the vendor functions they call do.\<close>

lemma ht_native_post_inv:
  assumes "ht_inv t" "\<And>t. ht_inv t \<Longrightarrow> ht_inv (snd (real_post t))" "\<And>t. ht_inv t \<Longrightarrow> ht_inv (snd (real_free t))"
  shows "ht_inv (snd (ht_native_post kind p real_post real_free t))"
proof (cases "kind = 4")
  case True
  obtain r t1 where b: "ht_begin p t = (r, t1)" by fastforce
  have I1: "ht_inv t1" using ht_inv_begin [OF assms(1), of p] b by simp
  obtain st t2 where q: "real_post t1 = (st, t2)" by fastforce
  have I2: "ht_inv t2" using assms(2) [OF I1] q by simp
  show ?thesis using True b q I1 ht_inv_post_returned [OF I2] assms(3) [OF I1]
    by (cases r) (simp_all add: ht_native_post_def split: hrejection.split)
qed (simp add: ht_native_post_def assms)

lemma ht_native_dispatch_inv:
  assumes "ht_inv t" "\<And>t. ht_inv t \<Longrightarrow> ht_inv (snd (real_dispatch t))"
  shows "ht_inv (snd (ht_native_dispatch kind payload real_dispatch t))"
proof -
  obtain k t1 where k: "(if kind = 4 then ht_dispatch (case payload of None \<Rightarrow> 0 | Some p \<Rightarrow> p) t else (None, t)) = (k, t1)"
    by fastforce
  then have "ht_inv t1" using assms(1) ht_inv_dispatch by (metis snd_conv)
  from assms(2) [OF this] show ?thesis
    unfolding ht_native_dispatch_def k by (auto simp: ht_inv_complete split: prod.split option.split)
qed

lemma ht_native_free_inv:
  assumes "ht_inv t" "\<And>t. ht_inv t \<Longrightarrow> ht_inv (snd (real_free t))"
  shows "ht_inv (snd (ht_native_free p real_free t))"
proof -
  obtain k t1 where k: "ht_before_free p t = (k, t1)" by fastforce
  then have "ht_inv t1" using assms(1) ht_inv_before_free by (metis snd_conv)
  from assms(2) [OF this] show ?thesis
    unfolding ht_native_free_def k by (auto simp: ht_inv_complete split: prod.split option.split)
qed

section \<open>Tickets leave the table only when settled\<close>

lemma ht_tickets_set_slot:
  assumes "i < length (ht_slots t)" "ht_slots t ! i = Some b" "ha_ticket b' = ha_ticket b" "ht_has k t"
  shows "ht_has k (ht_set_slot i b' t)"
proof -
  obtain m a where m: "m < length (ht_slots t)" "ht_slots t ! m = Some a" "ha_ticket a = k"
    using assms(4) by (auto simp: ht_has_def in_set_conv_nth)
  have "(ht_slots (ht_set_slot i b' t)) ! m = Some (if m = i then b' else a)"
    using m assms by (auto simp: ht_set_slot_def)
  moreover have "ha_ticket (if m = i then b' else a) = k" using m assms by auto
  ultimately show ?thesis using m(1) unfolding ht_has_def ht_set_slot_def
    by (metis (no_types, lifting) ht.select_convs(1) ht.surjective ht.update_convs(1) length_list_update nth_mem)
qed

lemma ht_has_fail [simp]: "ht_has k (ht_fail s t) = ht_has k t"
  by (simp add: ht_has_def ht_fail_def)

lemma ht_has_retire:
  assumes c: "ht_core t" and h: "ht_has k t" and g: "\<not> ht_has k (ht_retire k' t)"
  shows "k' = k \<and> (\<exists>a. Some a \<in> set (ht_slots t) \<and> ha_ticket a = k \<and> ht_settled a)"
proof (cases "slot_pos (\<lambda>a. ha_ticket a = k') (ht_slots t)")
  case None
  then show ?thesis using h g by (simp add: ht_retire_def)
next
  case (Some i)
  note i = ht_slot_posD [OF Some]
  have st: "ht_settled (the (ht_slots t ! i))"
    using h g by (auto simp: ht_has_def ht_retire_slots [OF Some] split: if_splits)
  obtain m a where m: "m < length (ht_slots t)" "ht_slots t ! m = Some a" "ha_ticket a = k"
    using h by (auto simp: ht_has_def in_set_conv_nth)
  have "m = i"
  proof (rule ccontr)
    assume "m \<noteq> i"
    then have "ht_slots (ht_retire k' t) ! m = Some a" using m st by (simp add: ht_retire_slots [OF Some])
    then show False using g m st by (auto simp: ht_has_def ht_retire_slots [OF Some]) (metis length_list_update nth_mem)
  qed
  then show ?thesis using m i st by auto
qed

lemma ht_same_ticket:
  "\<lbrakk> ht_core t; Some a \<in> set (ht_slots t); Some b \<in> set (ht_slots t); ha_ticket a = ha_ticket b \<rbrakk> \<Longrightarrow> a = b"
  using ht_uniqD [of "ht_slots t"] unfolding ht_core_def in_set_conv_nth by (metis option.sel)

lemma ht_leaves_post_returned:
  assumes I: "ht_inv t" and a: "Some a \<in> set (ht_slots t)"
    and g: "\<not> ht_has (ha_ticket a) (ht_post_returned k s t)"
  shows "k = ha_ticket a \<and> ha_stage a \<in> {Executed, Freed}"
proof -
  have h: "ht_has (ha_ticket a) t" using a by (auto simp: ht_has_def)
  obtain i where i: "slot_pos (\<lambda>a. ha_ticket a = k) (ht_slots t) = Some i"
    using g h by (cases "slot_pos (\<lambda>a. ha_ticket a = k) (ht_slots t)") (auto simp: ht_post_returned_def)
  let ?b = "the (ht_slots t ! i)"
  let ?t1 = "ht_set_slot i (?b\<lparr> ha_post_returned := True \<rparr>) t"
  let ?t2 = "if s \<noteq> 0 then ht_fail s ?t1 else ?t1"
  note j = ht_slot_posD [OF i]
  have g': "\<not> ht_has (ha_ticket a) (ht_retire k ?t2)"
    using g h i by (auto simp: ht_post_returned_def Let_def split: if_splits)
  have "ht_core ?t1" using I j by (intro ht_core_set_slot) (auto simp: ht_inv_def)
  then have c: "ht_core ?t2" by (simp add: ht_core_fail)
  have "ht_has (ha_ticket a) ?t1" using j h by (intro ht_tickets_set_slot) auto
  then have h2: "ht_has (ha_ticket a) ?t2" by simp
  obtain x where k: "k = ha_ticket a" and x: "Some x \<in> set (ht_slots ?t2)" "ha_ticket x = k" "ht_settled x"
    using ht_has_retire [OF c h2 g'] by auto
  have ab: "?b = a" using ht_same_ticket [of t ?b a] I a j k by (auto simp: ht_inv_def)
  have "x = ?b\<lparr> ha_post_returned := True \<rparr>"
  proof (rule ht_same_ticket [OF c x(1)])
    show "Some (?b\<lparr> ha_post_returned := True \<rparr>) \<in> set (ht_slots ?t2)"
      using j by (auto simp: ht_set_slot_def ht_fail_def set_update_memI)
  qed (use x j in auto)
  then show ?thesis using k x(3) ab by (auto simp: ht_settled_def)
qed

lemma ht_leaves_complete:
  assumes I: "ht_inv t" and a: "Some a \<in> set (ht_slots t)"
    and g: "\<not> ht_has (ha_ticket a) (ht_complete k f s t)"
  shows "k = ha_ticket a \<and> ha_post_returned a \<and> ha_stage a = (if f then Freeing else Executing)"
proof -
  have h: "ht_has (ha_ticket a) t" using a by (auto simp: ht_has_def)
  obtain i where i: "slot_pos (\<lambda>a. ha_ticket a = k) (ht_slots t) = Some i"
    using g h by (cases "slot_pos (\<lambda>a. ha_ticket a = k) (ht_slots t)") (auto simp: ht_complete_def)
  let ?b = "the (ht_slots t ! i)"
  let ?b' = "?b\<lparr> ha_stage := (if f then Freed else Executed) \<rparr>"
  let ?t1 = "ht_set_slot i ?b' t"
  let ?t2 = "if \<not> f \<and> s \<noteq> 0 then ht_fail s (ht_on_diag (\<lambda>d. d\<lparr>
               hd_callback_errors := sat_inc (hd_callback_errors d) \<rparr>) ?t1) else ?t1"
  note j = ht_slot_posD [OF i]
  have st: "ha_stage ?b = (if f then Freeing else Executing)"
    using g h i by (auto simp: ht_complete_def Let_def split: if_splits)
  have g': "\<not> ht_has (ha_ticket a) (ht_retire k ?t2)"
    using g h i st by (auto simp: ht_complete_def Let_def split: if_splits)
  have "ht_core ?t1" using I j by (intro ht_core_set_slot) (auto simp: ht_inv_def)
  then have c: "ht_core ?t2" by (auto simp: ht_core_def ht_fail_def)
  have "ht_has (ha_ticket a) ?t1" using j h by (intro ht_tickets_set_slot) auto
  then have h2: "ht_has (ha_ticket a) ?t2" by (auto simp: ht_has_def ht_fail_def)
  obtain x where k: "k = ha_ticket a" and x: "Some x \<in> set (ht_slots ?t2)" "ha_ticket x = k" "ht_settled x"
    using ht_has_retire [OF c h2 g'] by auto
  have ab: "?b = a" using ht_same_ticket [of t ?b a] I a j k by (auto simp: ht_inv_def)
  have "x = ?b'"
  proof (rule ht_same_ticket [OF c x(1)])
    show "Some ?b' \<in> set (ht_slots ?t2)"
      using j by (auto simp: ht_set_slot_def ht_fail_def set_update_memI)
  qed (use x j in auto)
  then show ?thesis using k x(3) ab st by (auto simp: ht_settled_def)
qed

lemma ht_has_begin: "ht_has k t \<Longrightarrow> ht_has k (snd (ht_begin p t))"
proof (cases "ht_begin p t")
  case (Pair r t')
  assume h: "ht_has k t"
  show ?thesis
  proof (cases r)
    case (Inl e)
    then have "ht_slots t' = ht_slots t"
      using Pair by (auto simp: ht_begin_def Let_def ht_simps split: if_splits)
    then show ?thesis using h Pair by (simp add: ht_has_def)
  next
    case (Inr n)
    obtain i x where i: "free_pos (ht_slots t) = Some i" and t': "ht_slots t' = (ht_slots t)[i := Some x]"
      by (rule ht_begin_accepted [of p t n t']) (use Pair Inr in auto)
    obtain m a where m: "m < length (ht_slots t)" "ht_slots t ! m = Some a" "ha_ticket a = k"
      using h by (auto simp: ht_has_def in_set_conv_nth)
    have "m \<noteq> i" using free_pos_Some [OF i] m by auto
    then have "ht_slots t' ! m = Some a" using t' m by simp
    then show ?thesis using Pair m t' unfolding ht_has_def by (metis length_list_update nth_mem snd_conv)
  qed
qed

section \<open>Properties\<close>

text \<open>C5: After every sequence of tracker operations the diagnostics account for every
  buffer: accepted buffers are processed, dropped or pending, the pending count is the number
  of occupied slots and never exceeds the capacity, no slot holds a settled buffer, and a
  recorded fault implies that admission is closed.\<close>

theorem host_tx_accounting:
  shows "let t = fold ht_step ops ht_new; d = ht_diag t in
    unat (hd_accepted d) = unat (hd_processed d) + unat (hd_dropped d) + unat (hd_pending d)
    \<and> unat (hd_pending d) = occupied (ht_slots t)
    \<and> hd_pending d \<le> hd_peak d \<and> hd_peak d \<le> 32
    \<and> filter ht_settled (somes (ht_slots t)) = []
    \<and> (hd_fault d = 0 \<or> hd_closed d)"
  using host_tx.run_inv [OF ht_inv_new, of ops]
  by (auto simp: ht_inv_def ht_core_def Let_def filter_empty_conv set_somes)

text \<open>C6: A drain certificate is real: in every reachable state in which \<open>drained\<close> answers
  true, no slot is occupied, admission is closed, no fault was recorded and every accepted
  buffer has been processed or dropped.\<close>

theorem host_tx_drained_empty:
  assumes "ht_drained (fold ht_step ops ht_new) = Inr True"
  shows "(\<forall>s \<in> set (ht_slots (fold ht_step ops ht_new)). s = None)
    \<and> hd_closed (ht_diag (fold ht_step ops ht_new))
    \<and> hd_fault (ht_diag (fold ht_step ops ht_new)) = 0
    \<and> unat (hd_accepted (ht_diag (fold ht_step ops ht_new)))
        = unat (hd_processed (ht_diag (fold ht_step ops ht_new)))
          + unat (hd_dropped (ht_diag (fold ht_step ops ht_new)))"
proof -
  let ?t = "fold ht_step ops ht_new"
  have I: "ht_core ?t" using host_tx.run_inv [OF ht_inv_new, of ops] by (simp add: ht_inv_def)
  have d: "hd_fault (ht_diag ?t) = 0" "hd_closed (ht_diag ?t)" "hd_pending (ht_diag ?t) = 0"
    using assms by (auto simp: ht_drained_def split: if_splits)
  then have "occupied (ht_slots ?t) = 0" using I by (simp add: ht_core_def)
  moreover from this have "\<forall>s \<in> set (ht_slots ?t). s = None" by (simp only: occupied_zero)
  ultimately show ?thesis using I d by (simp add: ht_core_def)
qed

theorem host_tx_drained_empty_witness:
  "occupied (ht_slots (fold ht_step [HBegin 64, HDispatch 64, HPostReturned (HTicket 1) 0,
      HComplete (HTicket 1) False 0, HClose] ht_new)) = 0"
proof -
  have "ht_drained (fold ht_step [HBegin 64, HDispatch 64, HPostReturned (HTicket 1) 0,
      HComplete (HTicket 1) False 0, HClose] ht_new) = Inr True"
    by code_simp
  from host_tx_drained_empty [OF this] show ?thesis unfolding occupied_zero by blast
qed

text \<open>C7: A buffer leaves the table only when both its owners are done with it: the step that
  removes a ticket is either the return of its post after execution or free, or its execution
  or free after the post returned.  So a stale or duplicate notification never retires it.\<close>

theorem host_tx_leaves_settled:
  assumes a: "Some a \<in> set (ht_slots (fold ht_step ops ht_new))"
    and g: "\<not> ht_has (ha_ticket a) (ht_step op (fold ht_step ops ht_new))"
  shows "(\<exists>s. op = HPostReturned (ha_ticket a) s \<and> ha_stage a \<in> {Executed, Freed})
    \<or> (\<exists>f s. op = HComplete (ha_ticket a) f s \<and> ha_post_returned a
          \<and> ha_stage a = (if f then Freeing else Executing))"
proof -
  let ?t = "fold ht_step ops ht_new"
  have I: "ht_inv ?t" by (rule host_tx.run_inv [OF ht_inv_new])
  have h: "ht_has (ha_ticket a) ?t" using a by (auto simp: ht_has_def)
  have q: "ht_has (ha_ticket a) (ht_set_slot i ((the (ht_slots ?t ! i))\<lparr> ha_stage := st \<rparr>) ?t)"
    if "slot_pos P (ht_slots ?t) = Some i" for P i st
    using ht_slot_posD [OF that] h by (intro ht_tickets_set_slot) auto
  show ?thesis
  proof (cases op)
    case (HPostReturned k s)
    then show ?thesis using ht_leaves_post_returned [OF I a] g by auto
  next
    case (HComplete k f s)
    then show ?thesis using ht_leaves_complete [OF I a] g by auto
  next
    case (HBegin p)
    then show ?thesis using ht_has_begin [OF h] g by simp
  next
    case (HDispatch p)
    then show ?thesis using q g h by (auto simp: ht_dispatch_def Let_def split: option.splits)
  next
    case (HBeforeFree p)
    then show ?thesis using q g h by (auto simp: ht_before_free_def Let_def split: option.splits)
  qed (use g h in \<open>auto simp: ht_has_def ht_simps ht_resume_handshake_def split: if_splits\<close>)
qed

theorem host_tx_leaves_settled_witness:
  "\<exists>a. Some a \<in> set (ht_slots (fold ht_step [HBegin 64, HDispatch 64, HPostReturned (HTicket 1) 0] ht_new))
     \<and> \<not> ht_has (ha_ticket a) (ht_step (HComplete (HTicket 1) False 0)
         (fold ht_step [HBegin 64, HDispatch 64, HPostReturned (HTicket 1) 0] ht_new))
     \<and> ha_post_returned a \<and> ha_stage a = Executing"
proof -
  let ?ops = "[HBegin 64, HDispatch 64, HPostReturned (HTicket 1) 0]"
  let ?op = "HComplete (HTicket 1) False 0"
  let ?a = "\<lparr> ha_ticket = HTicket 1, ha_pointer = 64, ha_stage = Executing, ha_post_returned = True \<rparr>"
  have "somes (ht_slots (fold ht_step ?ops ht_new)) = [?a]" by code_simp
  then have a: "Some ?a \<in> set (ht_slots (fold ht_step ?ops ht_new))" by (metis list.set_intros(1) mem_Collect_eq set_somes)
  have "somes (ht_slots (ht_step ?op (fold ht_step ?ops ht_new))) = []" by code_simp
  then have g: "\<not> ht_has (ha_ticket ?a) (ht_step ?op (fold ht_step ?ops ht_new))"
    by (metis empty_iff empty_set ht_has_def mem_Collect_eq set_somes)
  from host_tx_leaves_settled [OF a g] a g show ?thesis by auto
qed

text \<open>Sealing is final: after \<open>seal\<close>, whatever happens, admission stays closed, every
  later post is rejected and no handshake reopens the queue.\<close>

theorem host_tx_seal_final:
  "ht_terminal (fold ht_step ops (ht_seal t)) \<and> hd_closed (ht_diag (fold ht_step ops (ht_seal t)))
   \<and> (\<exists>r. fst (ht_begin p (fold ht_step ops (ht_seal t))) = Inl r)
   \<and> (\<exists>e. fst (ht_resume_handshake s (fold ht_step ops (ht_seal t))) = Inl e)"
proof -
  have "ht_terminal (ht_seal t) \<and> hd_closed (ht_diag (ht_seal t))" by (simp add: ht_seal_def ht_close_def)
  from host_tx_seal.latch_run.run_inv [OF this, of ops] show ?thesis
    using ht_begin_closed by (auto simp: ht_resume_handshake_def)
qed

text \<open>The drain wait returns within its deadline whenever the clock passes it, success
  means that a drained tracker was observed, and failure leaves a closed tracker with a
  recorded fault.\<close>

theorem host_tx_drain_returns:
  assumes "(tr, Some now, slept) \<in> set (readings (ht_close t))" and "now - started \<ge> 1000"
  shows "\<exists>r t'. ht_close_and_drain (Some started) readings final t = Some (r, t')
    \<and> (case r of
         Inr _ \<Rightarrow> (\<exists>x \<in> set (readings (ht_close t)). ht_drained (fst x) = Inr True)
       | Inl e \<Rightarrow> e \<noteq> 0 \<and> hd_closed (ht_diag t') \<and> hd_fault (ht_diag t') \<noteq> 0)"
proof -
  obtain r where r: "ht_wait_loop started (readings (ht_close t)) = Some r"
    using ht_wait_loop_returns [OF assms(1)] assms(2) by blast
  show ?thesis
  proof (cases r)
    case (Inl e)
    then show ?thesis using r ht_wait_loop_error [of started _ e]
      by (auto simp: ht_close_and_drain_def ht_wait_for_drain_def Let_def ht_fail_def)
  next
    case (Inr u)
    then show ?thesis using r ht_wait_loop_Inr [of started "readings (ht_close t)"]
      by (simp add: ht_close_and_drain_def ht_wait_for_drain_def Let_def)
  qed
qed

end
