(* ===== verification/UserCleanup.thy ===== *)
theory UserCleanup
  imports Prelude
begin

text \<open>
  Checked teardown of HMAC users (\<open>src/src/netif_l2/user_cleanup.rs\<close>).

  The vendor's delete routine discards the status of the nested user free.  The tracker
  follows each delete call by a ticket that is never reused and records what the nested
  free returned, so that a missing, repeated or failed free turns the delete into a
  failure that stays for the rest of the session.  The definitions follow
  \<open>impl Tracker\<close>; \<open>uc_native_free\<close> is the wrapper of the resource free with the vendor
  functions as arguments.  The delete wrapper also closes the receive route and the host
  transmit queue; it is in theory \<open>Disconnect\<close>.
\<close>

section \<open>Data\<close>

definition uc_SLOTS :: nat where
  [simp]: "uc_SLOTS = 4"

definition uc_CONTRACT_ERROR :: u32 where
  "uc_CONTRACT_ERROR = 0xffffff01"

datatype uticket = UTicket u64

datatype ufree = NotSeen | Running | Returned u32 | Invalid

record uactive =
  ua_ticket :: uticket
  ua_user :: addr
  ua_free :: ufree

record udiag =
  ud_entered :: u64
  ud_completed :: u64
  ud_active :: u32
  ud_free_completed :: u64
  ud_unscoped_free :: u64
  ud_fault :: u32
  ud_last_outer_status :: u32
  ud_last_free_status :: "u32 option"
  ud_last_checked_status :: u32

record uc =
  uc_slots :: "uactive option list"
  uc_issued :: u64
  uc_diag :: udiag

section \<open>Operations\<close>

definition uc_new :: uc where
  "uc_new = \<lparr> uc_slots = replicate uc_SLOTS None, uc_issued = 0,
     uc_diag = \<lparr> ud_entered = 0, ud_completed = 0, ud_active = 0, ud_free_completed = 0,
       ud_unscoped_free = 0, ud_fault = 0, ud_last_outer_status = 0, ud_last_free_status = None,
       ud_last_checked_status = 0 \<rparr> \<rparr>"

abbreviation uc_on_diag :: "(udiag \<Rightarrow> udiag) \<Rightarrow> uc \<Rightarrow> uc" where
  "uc_on_diag f t \<equiv> t\<lparr> uc_diag := f (uc_diag t) \<rparr>"

definition uc_fail :: "u32 \<Rightarrow> uc \<Rightarrow> u32 \<times> uc" where
  "uc_fail status t =
     (status, uc_on_diag (\<lambda>d. d\<lparr> ud_fault := (if ud_fault d = 0 then status else ud_fault d) \<rparr>) t)"

definition uc_checked_status :: "u32 \<Rightarrow> uc \<Rightarrow> u32" where
  "uc_checked_status status t = (if status \<noteq> 0 then status else ud_fault (uc_diag t))"

definition uc_handshake_status :: "uc \<Rightarrow> u32" where
  "uc_handshake_status t =
     (if ud_fault (uc_diag t) \<noteq> 0 then ud_fault (uc_diag t)
      else if ud_active (uc_diag t) \<noteq> 0 then uc_CONTRACT_ERROR
      else 0)"

definition uc_begin :: "addr \<Rightarrow> uc \<Rightarrow> uticket option \<times> uc" where
  "uc_begin user t =
     (if user = 0 \<or> list_ex (\<lambda>slot. ua_user slot = user) (somes (uc_slots t))
      then (None, snd (uc_fail uc_CONTRACT_ERROR t))
      else
        (case free_pos (uc_slots t) of
           None \<Rightarrow> (None, snd (uc_fail uc_CONTRACT_ERROR t))
         | Some index \<Rightarrow>
            (case checked_inc (uc_issued t) of
               None \<Rightarrow> (None, snd (uc_fail uc_CONTRACT_ERROR t))
             | Some sequence \<Rightarrow>
                (Some (UTicket sequence),
                 t\<lparr> uc_issued := sequence,
                    uc_slots := (uc_slots t)[index :=
                      Some \<lparr> ua_ticket = UTicket sequence, ua_user = user, ua_free = NotSeen \<rparr>],
                    uc_diag := (uc_diag t)\<lparr> ud_entered := sequence,
                      ud_active := ud_active (uc_diag t) + 1 \<rparr> \<rparr>))))"

definition uc_set_free :: "nat \<Rightarrow> ufree \<Rightarrow> uc \<Rightarrow> uc" where
  "uc_set_free i f t =
     t\<lparr> uc_slots := (uc_slots t)[i := Some ((the (uc_slots t ! i))\<lparr> ua_free := f \<rparr>)] \<rparr>"

definition uc_begin_free :: "addr \<Rightarrow> uc \<Rightarrow> uticket option \<times> uc" where
  "uc_begin_free user t =
     (case slot_pos (\<lambda>slot. ua_user slot = user) (uc_slots t) of
        None \<Rightarrow> (None, uc_on_diag (\<lambda>d. d\<lparr> ud_unscoped_free := sat_inc (ud_unscoped_free d) \<rparr>) t)
      | Some i \<Rightarrow>
         let slot = the (uc_slots t ! i)
         in if ua_free slot \<noteq> NotSeen
            then (None, snd (uc_fail uc_CONTRACT_ERROR (uc_set_free i Invalid t)))
            else (Some (ua_ticket slot), uc_set_free i Running t))"

definition uc_finish_free :: "uticket \<Rightarrow> u32 \<Rightarrow> uc \<Rightarrow> uc" where
  "uc_finish_free ticket status t =
     (case slot_pos (\<lambda>slot. ua_ticket slot = ticket) (uc_slots t) of
        None \<Rightarrow> snd (uc_fail uc_CONTRACT_ERROR t)
      | Some i \<Rightarrow>
         let slot = the (uc_slots t ! i)
         in if ua_free slot \<noteq> Running
            then snd (uc_fail uc_CONTRACT_ERROR (uc_set_free i Invalid t))
            else
              let t1 = uc_on_diag (\<lambda>d. d\<lparr> ud_free_completed := sat_inc (ud_free_completed d) \<rparr>)
                         (uc_set_free i (Returned status) t)
              in if status \<noteq> 0 then snd (uc_fail status t1) else t1)"

definition uc_finish :: "uticket option \<Rightarrow> u32 \<Rightarrow> uc \<Rightarrow> u32 \<times> uc" where
  "uc_finish ticket outer t =
     (case (case ticket of None \<Rightarrow> None
            | Some k \<Rightarrow> slot_pos (\<lambda>slot. ua_ticket slot = k) (uc_slots t)) of
        None \<Rightarrow> uc_fail uc_CONTRACT_ERROR t
      | Some index \<Rightarrow>
         let slot = the (uc_slots t ! index);
             t1 = t\<lparr> uc_slots := (uc_slots t)[index := None],
                     uc_diag := (uc_diag t)\<lparr> ud_active := ud_active (uc_diag t) - 1,
                       ud_completed := ud_completed (uc_diag t) + 1,
                       ud_last_outer_status := outer,
                       ud_last_free_status :=
                         (case ua_free slot of Returned status \<Rightarrow> Some status | _ \<Rightarrow> None) \<rparr> \<rparr>;
             checked = (if outer \<noteq> 0 then outer
                        else case ua_free slot of Returned status \<Rightarrow> status | _ \<Rightarrow> uc_CONTRACT_ERROR);
             t2 = (if checked \<noteq> 0 then snd (uc_fail checked t1) else t1);
             fault = ud_fault (uc_diag t2)
         in (fault, uc_on_diag (\<lambda>d. d\<lparr> ud_last_checked_status := fault \<rparr>) t2))"

text \<open>The wrapper of \<open>hmac_res_free_mac_user_etc\<close>: \<open>user\<close> is what the vendor's lookup returns for
  the index, \<open>real_free\<close> the vendor free; \<open>inject\<close> is the fault-injection build feature.\<close>

definition uc_native_free :: "bool \<Rightarrow> addr \<Rightarrow> (uc \<Rightarrow> u32 \<times> uc) \<Rightarrow> uc \<Rightarrow> u32 \<times> uc" where
  "uc_native_free inject user real_free t =
     (case uc_begin_free user t of
        (ticket, t1) \<Rightarrow>
         (case real_free t1 of
            (status0, t2) \<Rightarrow>
              let status = (if inject \<and> ticket \<noteq> None \<and> status0 = 0 then 100 else status0)
              in (status, case ticket of None \<Rightarrow> t2 | Some k \<Rightarrow> uc_finish_free k status t2)))"

datatype uop = UBegin addr | UBeginFree addr | UFinishFree uticket u32 | UFinish "uticket option" u32

fun uc_step :: "uop \<Rightarrow> uc \<Rightarrow> uc" where
  "uc_step (UBegin u) t = snd (uc_begin u t)"
| "uc_step (UBeginFree u) t = snd (uc_begin_free u t)"
| "uc_step (UFinishFree k s) t = uc_finish_free k s t"
| "uc_step (UFinish k s) t = snd (uc_finish k s t)"

section \<open>Invariant\<close>

definition uc_number :: "uactive \<Rightarrow> nat" where
  "uc_number a = (case ua_ticket a of UTicket n \<Rightarrow> unat n)"

text \<open>What an active slot may look like: a nested free that failed or was invalid is already in
  the fault register.\<close>

definition uc_slot_ok :: "u64 \<Rightarrow> u32 \<Rightarrow> uactive \<Rightarrow> bool" where
  "uc_slot_ok issued fault a \<longleftrightarrow> uc_number a \<le> unat issued \<and> ua_user a \<noteq> 0
     \<and> (ua_free a \<in> {NotSeen, Running, Returned 0} \<or> fault \<noteq> 0)"

definition uc_inv :: "uc \<Rightarrow> bool" where
  "uc_inv t \<longleftrightarrow>
     length (uc_slots t) = 4
     \<and> slot_inj ua_ticket (uc_slots t) \<and> slot_inj ua_user (uc_slots t)
     \<and> (\<forall>a. Some a \<in> set (uc_slots t) \<longrightarrow> uc_slot_ok (uc_issued t) (ud_fault (uc_diag t)) a)
     \<and> unat (ud_active (uc_diag t)) = occupied (uc_slots t)
     \<and> unat (ud_completed (uc_diag t)) + occupied (uc_slots t) = unat (uc_issued t)
     \<and> ud_entered (uc_diag t) = uc_issued t"

lemma uc_CONTRACT_ERROR_nz [simp]: "uc_CONTRACT_ERROR \<noteq> 0"
  by (simp add: uc_CONTRACT_ERROR_def)

lemma uc_inv_new: "uc_inv uc_new"
  by (simp add: uc_inv_def uc_new_def)

lemma uc_fail_snd [simp]:
  "uc_slots (snd (uc_fail s t)) = uc_slots t" "uc_issued (snd (uc_fail s t)) = uc_issued t"
  "ud_active (uc_diag (snd (uc_fail s t))) = ud_active (uc_diag t)"
  "ud_completed (uc_diag (snd (uc_fail s t))) = ud_completed (uc_diag t)"
  "ud_entered (uc_diag (snd (uc_fail s t))) = ud_entered (uc_diag t)"
  "ud_fault (uc_diag (snd (uc_fail s t))) = (if ud_fault (uc_diag t) = 0 then s else ud_fault (uc_diag t))"
  "fst (uc_fail s t) = s"
  by (simp_all add: uc_fail_def)

lemma uc_slot_ok_fail: "uc_slot_ok n f a \<Longrightarrow> uc_slot_ok n (if f = 0 then s else f) a"
  by (auto simp: uc_slot_ok_def)

lemma uc_inv_fail: "uc_inv t \<Longrightarrow> uc_inv (snd (uc_fail s t))"
  using uc_slot_ok_fail [of "uc_issued t" "ud_fault (uc_diag t)" _ s] unfolding uc_inv_def uc_fail_snd
  by blast

lemma uc_inv_set_free:
  assumes I: "uc_inv t" and i: "i < length (uc_slots t)" "uc_slots t ! i \<noteq> None"
    and f: "f \<in> {NotSeen, Running, Returned 0} \<or> ud_fault (uc_diag t) \<noteq> 0"
  shows "uc_inv (uc_set_free i f t)"
proof -
  obtain a where a: "uc_slots t ! i = Some a" using i by auto
  have m: "Some a \<in> set (uc_slots t)" using i a by (metis nth_mem)
  let ?a = "a\<lparr> ua_free := f \<rparr>"
  have ok: "uc_slot_ok (uc_issued t) (ud_fault (uc_diag t)) b"
    if "Some b \<in> set ((uc_slots t)[i := Some ?a])" for b
    using set_update_Some [OF that] I m f by (auto simp: uc_inv_def uc_slot_ok_def uc_number_def)
  show ?thesis
    using I ok a i(1) slot_inj_keep [of ua_ticket "uc_slots t" i a ?a]
      slot_inj_keep [of ua_user "uc_slots t" i a ?a] occupied_keep [of i "uc_slots t" ?a]
    by (auto simp: uc_inv_def uc_set_free_def)
qed

text \<open>Marking a slot together with recording the fault that explains the mark.\<close>

lemma uc_inv_set_free_fail:
  assumes I: "uc_inv t" and i: "i < length (uc_slots t)" "uc_slots t ! i \<noteq> None" and s: "s \<noteq> 0"
  shows "uc_inv (snd (uc_fail s (uc_set_free i f t)))"
proof -
  have "snd (uc_fail s (uc_set_free i f t)) = uc_set_free i f (snd (uc_fail s t))"
    by (simp add: uc_fail_def uc_set_free_def)
  moreover have "uc_inv (uc_set_free i f (snd (uc_fail s t)))"
    using uc_inv_fail [OF I] i s by (intro uc_inv_set_free) auto
  ultimately show ?thesis by simp
qed

lemma uc_inv_begin:
  assumes I: "uc_inv t"
  shows "uc_inv (snd (uc_begin u t))"
proof (cases "u = 0 \<or> list_ex (\<lambda>slot. ua_user slot = u) (somes (uc_slots t))
    \<or> free_pos (uc_slots t) = None \<or> checked_inc (uc_issued t) = None")
  case True
  then show ?thesis using uc_inv_fail [OF I]
    by (auto simp: uc_begin_def checked_inc_Some split: option.split)
next
  case False
  then obtain i where i: "free_pos (uc_slots t) = Some i" and n: "uc_issued t \<noteq> - 1" by auto
  let ?n = "uc_issued t + 1"
  let ?a = "\<lparr> ua_ticket = UTicket ?n, ua_user = u, ua_free = NotSeen \<rparr>"
  note f = free_pos_Some [OF i]
  have un: "unat ?n = Suc (unat (uc_issued t))" using n by (simp add: unat_inc)
  have users: "ua_user b \<noteq> u" if "Some b \<in> set (uc_slots t)" for b
    using False that by (auto simp: list_ex_iff set_somes)
  have tick: "ua_ticket b \<noteq> UTicket ?n" if "Some b \<in> set (uc_slots t)" for b
    using I that un by (auto simp: uc_inv_def uc_slot_ok_def uc_number_def split: uticket.splits)
  have occ: "occupied ((uc_slots t)[i := Some ?a]) = Suc (occupied (uc_slots t))"
    using f by (intro occupied_fill) auto
  have "occupied ((uc_slots t)[i := Some ?a]) \<le> 4"
    using occupied_le [of "(uc_slots t)[i := Some ?a]"] I by (simp add: uc_inv_def)
  then have act: "unat (ud_active (uc_diag t) + 1) = Suc (unat (ud_active (uc_diag t)))"
    using I occ by (intro unat_inc) (auto simp: uc_inv_def eq_minus_one_iff)
  have ok: "uc_slot_ok ?n (ud_fault (uc_diag t)) b" if "Some b \<in> set ((uc_slots t)[i := Some ?a])" for b
    using set_update_Some [OF that] I un False
    by (auto simp: uc_inv_def uc_slot_ok_def uc_number_def le_Suc_eq)
  have "uc_begin u t = (Some (UTicket ?n), t\<lparr> uc_issued := ?n, uc_slots := (uc_slots t)[i := Some ?a],
      uc_diag := (uc_diag t)\<lparr> ud_entered := ?n, ud_active := ud_active (uc_diag t) + 1 \<rparr> \<rparr>)"
    using False i n by (simp add: uc_begin_def checked_inc_def)
  moreover have "slot_inj ua_ticket ((uc_slots t)[i := Some ?a])"
    using I tick by (intro slot_inj_fill) (auto simp: uc_inv_def)
  moreover have "slot_inj ua_user ((uc_slots t)[i := Some ?a])"
    using I users by (intro slot_inj_fill) (auto simp: uc_inv_def)
  ultimately show ?thesis
    using I un occ act ok by (auto simp: uc_inv_def)
qed

lemma uc_inv_begin_free: "uc_inv t \<Longrightarrow> uc_inv (snd (uc_begin_free u t))"
proof -
  assume I: "uc_inv t"
  show ?thesis
  proof (cases "slot_pos (\<lambda>slot. ua_user slot = u) (uc_slots t)")
    case None
    then show ?thesis using I by (simp add: uc_begin_free_def uc_inv_def)
  next
    case (Some i)
    have p: "i < length (uc_slots t)" and ne: "uc_slots t ! i \<noteq> None"
      using slot_pos_Some [OF Some] by auto
    show ?thesis
      using Some uc_inv_set_free_fail [OF I _ ne, of uc_CONTRACT_ERROR Invalid]
        uc_inv_set_free [OF I _ ne, of Running] p
      by (simp add: uc_begin_free_def Let_def)
  qed
qed

lemma uc_inv_finish_free: "uc_inv t \<Longrightarrow> uc_inv (uc_finish_free k s t)"
proof -
  assume I: "uc_inv t"
  show ?thesis
  proof (cases "slot_pos (\<lambda>slot. ua_ticket slot = k) (uc_slots t)")
    case None
    then show ?thesis using uc_inv_fail [OF I] by (simp add: uc_finish_free_def)
  next
    case (Some i)
    have p: "i < length (uc_slots t)" and ne: "uc_slots t ! i \<noteq> None"
      using slot_pos_Some [OF Some] by auto
    let ?up = "uc_on_diag (\<lambda>d. d\<lparr> ud_free_completed := sat_inc (ud_free_completed d) \<rparr>)"
    have up: "uc_inv (?up t')" if "uc_inv t'" for t' using that by (simp add: uc_inv_def)
    have sf: "snd (uc_fail s (?up (uc_set_free i (Returned s) t)))
        = ?up (snd (uc_fail s (uc_set_free i (Returned s) t)))"
      by (simp add: uc_fail_def)
    have nz: "uc_inv (?up (snd (uc_fail s (uc_set_free i (Returned s) t))))" if "s \<noteq> 0"
      using up [OF uc_inv_set_free_fail [OF I _ ne that]] p by blast
    have z: "uc_inv (?up (uc_set_free i (Returned 0) t))"
      using up [OF uc_inv_set_free [OF I _ ne, of "Returned 0"]] p by blast
    have bad: "uc_inv (snd (uc_fail uc_CONTRACT_ERROR (uc_set_free i Invalid t)))"
      using uc_inv_set_free_fail [OF I _ ne] p by auto
    show ?thesis
    proof (cases "ua_free (the (uc_slots t ! i)) = Running")
      case True
      then show ?thesis unfolding uc_finish_free_def Some option.case Let_def
        using nz z sf by (cases "s = 0") simp_all
    next
      case False
      then show ?thesis unfolding uc_finish_free_def Some option.case Let_def using bad by simp
    qed
  qed
qed

lemma uc_inv_take:
  assumes I: "uc_inv t" and i: "i < length (uc_slots t)" "uc_slots t ! i \<noteq> None"
  shows "uc_inv (t\<lparr> uc_slots := (uc_slots t)[i := None],
           uc_diag := (uc_diag t)\<lparr> ud_active := ud_active (uc_diag t) - 1,
             ud_completed := ud_completed (uc_diag t) + 1,
             ud_last_outer_status := o1, ud_last_free_status := o2 \<rparr> \<rparr>)"
proof -
  have occ: "Suc (occupied ((uc_slots t)[i := None])) = occupied (uc_slots t)"
    using i by (rule occupied_clear)
  have "ud_active (uc_diag t) \<noteq> 0" using I occ by (auto simp: uc_inv_def)
  then have act: "unat (ud_active (uc_diag t) - 1) = unat (ud_active (uc_diag t)) - 1"
    by (simp add: unat_minus_one)
  have "unat (uc_issued t) < 2 ^ 64" using unsigned_less [of "uc_issued t", where ?'a = nat] by simp
  then have "ud_completed (uc_diag t) \<noteq> - 1" using I occ by (auto simp: uc_inv_def eq_minus_one_iff)
  then have "unat (ud_completed (uc_diag t) + 1) = Suc (unat (ud_completed (uc_diag t)))"
    by (rule unat_inc)
  then show ?thesis using I occ act
    by (auto simp: uc_inv_def slot_inj_clear dest!: set_update_Some)
qed

lemma uc_inv_last: "uc_inv t \<Longrightarrow> uc_inv (uc_on_diag (\<lambda>d. d\<lparr> ud_last_checked_status := s \<rparr>) t)"
  by (simp add: uc_inv_def)

lemma uc_inv_finish: "uc_inv t \<Longrightarrow> uc_inv (snd (uc_finish k s t))"
proof -
  assume I: "uc_inv t"
  show ?thesis
  proof (cases "case k of None \<Rightarrow> None | Some k \<Rightarrow> slot_pos (\<lambda>slot. ua_ticket slot = k) (uc_slots t)")
    case None
    then show ?thesis using uc_inv_fail [OF I] by (simp add: uc_finish_def)
  next
    case (Some i)
    then have p: "i < length (uc_slots t)" "uc_slots t ! i \<noteq> None"
      by (auto split: option.splits dest: slot_pos_Some)
    show ?thesis unfolding uc_finish_def Some option.case Let_def snd_conv
      by (rule uc_inv_last) (auto intro!: uc_inv_fail uc_inv_take [OF I p])
  qed
qed

lemma uc_inv_step: "uc_inv t \<Longrightarrow> uc_inv (uc_step a t)"
  by (cases a) (simp_all add: uc_inv_begin uc_inv_begin_free uc_inv_finish_free uc_inv_finish)

interpretation user_cleanup: machine uc_step uc_inv
  by unfold_locales (rule uc_inv_step)

lemma uc_step_fault:
  "ud_fault (uc_diag t) \<noteq> 0 \<Longrightarrow> ud_fault (uc_diag (uc_step a t)) = ud_fault (uc_diag t)"
  by (cases a) (auto simp: uc_begin_def uc_begin_free_def uc_finish_free_def uc_finish_def uc_fail_def
      uc_set_free_def Let_def split: option.split ufree.split)

interpretation user_cleanup_fault: sticky uc_step
  "\<lambda>t. if ud_fault (uc_diag t) = 0 then None else Some (ud_fault (uc_diag t))"
  by unfold_locales (auto simp: uc_step_fault split: if_splits)

lemma uc_finish_zero:
  assumes I: "uc_inv t"
  shows "fst (uc_finish ticket outer t) = 0 \<longleftrightarrow> ud_fault (uc_diag t) = 0 \<and> outer = 0
    \<and> (\<exists>a. ticket = Some (ua_ticket a) \<and> Some a \<in> set (uc_slots t) \<and> ua_free a = Returned 0)"
proof (cases "case ticket of None \<Rightarrow> None | Some k \<Rightarrow> slot_pos (\<lambda>slot. ua_ticket slot = k) (uc_slots t)")
  case None
  then show ?thesis by (auto simp: uc_finish_def slot_pos_None split: option.splits)
next
  case (Some i)
  then obtain k where k: "ticket = Some k" "slot_pos (\<lambda>slot. ua_ticket slot = k) (uc_slots t) = Some i"
    by (auto split: option.splits)
  obtain b where b: "uc_slots t ! i = Some b" "ua_ticket b = k" "Some b \<in> set (uc_slots t)"
    using k(2) by (rule slot_posE)
  have u: "a = b" if "Some a \<in> set (uc_slots t)" "ua_ticket a = k" for a
    using slot_inj_eq [of ua_ticket "uc_slots t" a b] I b that by (simp add: uc_inv_def)
  have "fst (uc_finish ticket outer t) = 0 \<longleftrightarrow> ud_fault (uc_diag t) = 0 \<and> outer = 0
      \<and> ua_free b = Returned 0"
    unfolding uc_finish_def Some option.case Let_def b option.sel by (auto split: ufree.splits)
  moreover have "(\<exists>a. ticket = Some (ua_ticket a) \<and> Some a \<in> set (uc_slots t) \<and> ua_free a = Returned 0)
      \<longleftrightarrow> ua_free b = Returned 0"
    using k(1) b u by (metis option.inject)
  ultimately show ?thesis by simp
qed

lemma uc_begin_ok:
  assumes b: "uc_begin u t = (Some k, t1)"
  obtains i where "free_pos (uc_slots t) = Some i"
    "uc_slots t1 = (uc_slots t)[i := Some \<lparr> ua_ticket = k, ua_user = u, ua_free = NotSeen \<rparr>]"
    "ud_fault (uc_diag t1) = ud_fault (uc_diag t)"
  using b by (auto simp: uc_begin_def split: if_splits option.splits)

text \<open>In a reachable state the slot of a user and the slot of its ticket are the same one.\<close>

lemma uc_pos:
  assumes "uc_inv t" "i < length (uc_slots t)" "uc_slots t ! i = Some a"
  shows "slot_pos (\<lambda>s. ua_user s = ua_user a) (uc_slots t) = Some i"
    and "slot_pos (\<lambda>s. ua_ticket s = ua_ticket a) (uc_slots t) = Some i"
  using slot_pos_inj [OF _ assms(2,3), of ua_user] slot_pos_inj [OF _ assms(2,3), of ua_ticket] assms(1)
  by (simp_all add: uc_inv_def)

section \<open>The history of a delete\<close>

text \<open>What the sequence of tracker calls says about a delete, without looking at the table: the ticket
  \<open>k\<close> was given out for \<open>user\<close>, then the nested free of that user began, then it returned \<open>status\<close>; no
  other call in between or afterwards was about this delete.\<close>

fun uc_about :: "uticket \<Rightarrow> addr \<Rightarrow> uop \<Rightarrow> bool" where
  "uc_about k user (UBegin u) = False"
| "uc_about k user (UBeginFree u) = (u = user)"
| "uc_about k user (UFinishFree j s) = (j = k)"
| "uc_about k user (UFinish j s) = (j = Some k)"

inductive uc_life :: "uop list \<Rightarrow> uticket \<Rightarrow> addr \<Rightarrow> ufree \<Rightarrow> bool" where
  begun: "fst (uc_begin user (fold uc_step ops uc_new)) = Some k \<Longrightarrow> uc_life (ops @ [UBegin user]) k user NotSeen"
| freeing: "uc_life ops k user NotSeen \<Longrightarrow> uc_life (ops @ [UBeginFree user]) k user Running"
| freed: "uc_life ops k user Running \<Longrightarrow> uc_life (ops @ [UFinishFree k status]) k user (Returned status)"
| unrelated: "uc_life ops k user f \<Longrightarrow> \<not> uc_about k user a \<Longrightarrow> uc_life (ops @ [a]) k user f"

fun uc_failed :: "uop \<Rightarrow> bool" where
  "uc_failed (UFinishFree k status) = (status \<noteq> 0)"
| "uc_failed (UFinish k outer) = (outer \<noteq> 0)"
| "uc_failed _ = False"

definition uc_live :: "uc \<Rightarrow> uactive \<Rightarrow> bool" where
  "uc_live t a \<longleftrightarrow> Some a \<in> set (uc_slots t)"

lemma member_update:
  assumes "i < length xs"
  shows "v \<in> set (xs[i := y]) \<longleftrightarrow> y = v \<or> (\<exists>j < length xs. j \<noteq> i \<and> xs ! j = v)"
proof
  assume "v \<in> set (xs[i := y])"
  then obtain j where "j < length xs" "(xs[i := y]) ! j = v" by (auto simp: in_set_conv_nth)
  then show "y = v \<or> (\<exists>j < length xs. j \<noteq> i \<and> xs ! j = v)" by (cases "j = i") auto
next
  assume "y = v \<or> (\<exists>j < length xs. j \<noteq> i \<and> xs ! j = v)"
  then show "v \<in> set (xs[i := y])"
  proof
    assume "y = v"
    then show ?thesis using assms by (simp add: set_update_memI)
  next
    assume "\<exists>j < length xs. j \<noteq> i \<and> xs ! j = v"
    then obtain j where j: "j < length (xs[i := y])" "(xs[i := y]) ! j = v" by auto
    from nth_mem [OF j(1)] j(2) show ?thesis by simp
  qed
qed

lemma slot_member_update:
  assumes "slot_inj f xs" "i < length xs" "xs ! i = Some b"
  shows "Some a \<in> set (xs[i := y]) \<longleftrightarrow> y = Some a \<or> Some a \<in> set xs \<and> a \<noteq> b"
proof -
  have "(\<exists>j < length xs. j \<noteq> i \<and> xs ! j = Some a) \<longleftrightarrow> (\<exists>j < length xs. xs ! j = Some a) \<and> a \<noteq> b"
    using slot_injD [OF assms(1) _ assms(2) _ assms(3)] assms(3) by fastforce
  then show ?thesis
    unfolding member_update [OF assms(2)] by (simp add: in_set_conv_nth)
qed

lemma slot_member_fill:
  assumes "free_pos xs = Some i"
  shows "Some a \<in> set (xs[i := y]) \<longleftrightarrow> y = Some a \<or> Some a \<in> set xs"
proof -
  have i: "i < length xs" "xs ! i = None" using free_pos_Some [OF assms] by auto
  then have "(\<exists>j < length xs. j \<noteq> i \<and> xs ! j = Some a) \<longleftrightarrow> (\<exists>j < length xs. xs ! j = Some a)"
    by fastforce
  then show ?thesis
    unfolding member_update [OF i(1)] by (simp add: in_set_conv_nth)
qed

lemma uc_live_fail [simp]: "uc_live (snd (uc_fail s t)) = uc_live t"
  by (simp add: uc_live_def fun_eq_iff)

lemma uc_live_begin:
  "uc_live (snd (uc_begin u t)) a
     \<longleftrightarrow> uc_live t a \<or> (\<exists>k. fst (uc_begin u t) = Some k \<and> a = \<lparr> ua_ticket = k, ua_user = u, ua_free = NotSeen \<rparr>)"
  by (auto simp: uc_begin_def uc_live_def slot_member_fill split: option.split)

lemma uc_live_set_free:
  assumes "uc_inv t" "i < length (uc_slots t)" "uc_slots t ! i = Some b"
  shows "uc_live (uc_set_free i f t) a \<longleftrightarrow> a = b\<lparr> ua_free := f \<rparr> \<or> uc_live t a \<and> a \<noteq> b"
  using slot_member_update [OF _ assms(2,3), of ua_ticket a] assms(1,3)
  by (auto simp: uc_live_def uc_set_free_def uc_inv_def)

lemma uc_live_user:
  "uc_inv t \<Longrightarrow> uc_live t a \<Longrightarrow> uc_live t b \<Longrightarrow> ua_user a = ua_user b \<Longrightarrow> a = b"
  using slot_inj_eq [of ua_user "uc_slots t" a b] by (simp add: uc_live_def uc_inv_def)

lemma uc_live_ticket:
  "uc_inv t \<Longrightarrow> uc_live t a \<Longrightarrow> uc_live t b \<Longrightarrow> ua_ticket a = ua_ticket b \<Longrightarrow> a = b"
  using slot_inj_eq [of ua_ticket "uc_slots t" a b] by (simp add: uc_live_def uc_inv_def)

lemma uc_live_begin_free:
  assumes I: "uc_inv t"
  shows "uc_live (snd (uc_begin_free u t)) a \<longleftrightarrow> uc_live t a \<and> ua_user a \<noteq> u
    \<or> (\<exists>b. uc_live t b \<and> ua_user b = u \<and> a = b\<lparr> ua_free := if ua_free b = NotSeen then Running else Invalid \<rparr>)"
proof (cases "slot_pos (\<lambda>slot. ua_user slot = u) (uc_slots t)")
  case None
  then have "\<not> ua_user b = u" if "uc_live t b" for b
    using that by (auto simp: slot_pos_None uc_live_def)
  moreover have "uc_live (snd (uc_begin_free u t)) = uc_live t"
    using None by (simp add: uc_begin_free_def uc_live_def fun_eq_iff)
  ultimately show ?thesis by auto
next
  case (Some i)
  then obtain b where b: "i < length (uc_slots t)" "uc_slots t ! i = Some b" "ua_user b = u" "uc_live t b"
    by (rule slot_posE) (simp add: uc_live_def)
  have "uc_live (snd (uc_begin_free u t)) a
      \<longleftrightarrow> a = b\<lparr> ua_free := if ua_free b = NotSeen then Running else Invalid \<rparr> \<or> uc_live t a \<and> a \<noteq> b"
    using Some b(2) by (simp add: uc_begin_free_def Let_def uc_live_set_free [OF I b(1,2)])
  moreover have "uc_live t a \<and> a \<noteq> b \<longleftrightarrow> uc_live t a \<and> ua_user a \<noteq> u"
    using uc_live_user [OF I _ b(4)] b(3) by auto
  moreover have "c = b" if "uc_live t c" "ua_user c = u" for c
    using uc_live_user [OF I that(1) b(4)] that(2) b(3) by simp
  ultimately show ?thesis
    using b(3,4) by (metis (lifting))
qed

lemma uc_live_finish_free:
  assumes I: "uc_inv t"
  shows "uc_live (uc_finish_free k s t) a \<longleftrightarrow> uc_live t a \<and> ua_ticket a \<noteq> k
    \<or> (\<exists>b. uc_live t b \<and> ua_ticket b = k \<and> a = b\<lparr> ua_free := if ua_free b = Running then Returned s else Invalid \<rparr>)"
proof (cases "slot_pos (\<lambda>slot. ua_ticket slot = k) (uc_slots t)")
  case None
  then have "\<not> ua_ticket b = k" if "uc_live t b" for b
    using that by (auto simp: slot_pos_None uc_live_def)
  moreover have "uc_live (uc_finish_free k s t) = uc_live t"
    using None by (simp add: uc_finish_free_def uc_live_def fun_eq_iff)
  ultimately show ?thesis by auto
next
  case (Some i)
  then obtain b where b: "i < length (uc_slots t)" "uc_slots t ! i = Some b" "ua_ticket b = k" "uc_live t b"
    by (rule slot_posE) (simp add: uc_live_def)
  have diag: "uc_live (uc_on_diag f x) = uc_live x" for f x
    by (simp add: uc_live_def fun_eq_iff)
  have "uc_live (uc_finish_free k s t) a
      \<longleftrightarrow> a = b\<lparr> ua_free := if ua_free b = Running then Returned s else Invalid \<rparr> \<or> uc_live t a \<and> a \<noteq> b"
    using Some b(2) by (simp add: uc_finish_free_def Let_def diag uc_live_set_free [OF I b(1,2)])
  moreover have "uc_live t a \<and> a \<noteq> b \<longleftrightarrow> uc_live t a \<and> ua_ticket a \<noteq> k"
    using uc_live_ticket [OF I _ b(4)] b(3) by auto
  moreover have "c = b" if "uc_live t c" "ua_ticket c = k" for c
    using uc_live_ticket [OF I that(1) b(4)] that(2) b(3) by simp
  ultimately show ?thesis
    using b(3,4) by (metis (lifting))
qed

lemma uc_live_finish:
  assumes I: "uc_inv t"
  shows "uc_live (snd (uc_finish ticket s t)) a \<longleftrightarrow> uc_live t a \<and> ticket \<noteq> Some (ua_ticket a)"
proof (cases "case ticket of None \<Rightarrow> None | Some k \<Rightarrow> slot_pos (\<lambda>slot. ua_ticket slot = k) (uc_slots t)")
  case None
  then show ?thesis by (auto simp: uc_finish_def uc_live_def slot_pos_None split: option.splits)
next
  case (Some i)
  then obtain k where k: "ticket = Some k" "slot_pos (\<lambda>slot. ua_ticket slot = k) (uc_slots t) = Some i"
    by (auto split: option.splits)
  obtain b where b: "i < length (uc_slots t)" "uc_slots t ! i = Some b" "ua_ticket b = k" "uc_live t b"
    using k(2) by (rule slot_posE) (simp add: uc_live_def)
  have "uc_slots (snd (uc_finish ticket s t)) = (uc_slots t)[i := None]"
    unfolding uc_finish_def Some option.case Let_def by simp
  then have "uc_live (snd (uc_finish ticket s t)) a \<longleftrightarrow> uc_live t a \<and> a \<noteq> b"
    using slot_member_update [OF _ b(1,2), of ua_ticket a None] I by (simp add: uc_live_def uc_inv_def)
  then show ?thesis
    using uc_live_ticket [OF I _ b(4)] b(3) k(1) by auto
qed

text \<open>The table holds a delete, unless its record is invalid, exactly when the history says so.\<close>

lemma uc_life_live:
  assumes "uc_life ops k user f"
  shows "uc_live (fold uc_step ops uc_new) \<lparr> ua_ticket = k, ua_user = user, ua_free = f \<rparr>"
  using assms
proof induction
  case (begun user ops k)
  then show ?case by (simp add: uc_live_begin)
next
  case (freeing ops k user)
  note I = user_cleanup.run_inv [OF uc_inv_new, of ops]
  show ?case using freeing.IH by (fastforce simp: uc_live_begin_free [OF I])
next
  case (freed ops k user status)
  note I = user_cleanup.run_inv [OF uc_inv_new, of ops]
  show ?case using freed.IH by (fastforce simp: uc_live_finish_free [OF I])
next
  case (unrelated ops k user f a)
  note I = user_cleanup.run_inv [OF uc_inv_new, of ops]
  show ?case using unrelated
    by (cases a) (auto simp: uc_live_begin uc_live_begin_free [OF I] uc_live_finish_free [OF I] uc_live_finish [OF I])
qed

lemma uc_live_life:
  "uc_live (fold uc_step ops uc_new) a \<Longrightarrow> ua_free a \<noteq> Invalid \<Longrightarrow> uc_life ops (ua_ticket a) (ua_user a) (ua_free a)"
proof (induction ops arbitrary: a rule: rev_induct)
  case Nil
  then show ?case by (simp add: uc_live_def uc_new_def)
next
  case (snoc op ops)
  let ?t = "fold uc_step ops uc_new"
  note I = user_cleanup.run_inv [OF uc_inv_new, of ops]
  have live: "uc_live (uc_step op ?t) a" using snoc.prems(1) by simp
  note unrelated = uc_life.unrelated [OF snoc.IH [OF _ snoc.prems(2)], of op]
  show ?case
  proof (cases op)
    case (UBegin u)
    then show ?thesis using live unrelated by (auto simp: uc_live_begin intro: uc_life.begun)
  next
    case (UBeginFree u)
    consider "uc_live ?t a" "ua_user a \<noteq> u"
      | b where "uc_live ?t b" "ua_user b = u" "a = b\<lparr> ua_free := if ua_free b = NotSeen then Running else Invalid \<rparr>"
      using live UBeginFree by (auto simp: uc_live_begin_free [OF I])
    then show ?thesis
    proof cases
      case 1
      then show ?thesis using unrelated UBeginFree by simp
    next
      case (2 b)
      then have "ua_free b = NotSeen" using snoc.prems(2) by (auto split: if_splits)
      with 2 show ?thesis using uc_life.freeing [of ops "ua_ticket b" u] snoc.IH [of b] UBeginFree by simp
    qed
  next
    case (UFinishFree k s)
    consider "uc_live ?t a" "ua_ticket a \<noteq> k"
      | b where "uc_live ?t b" "ua_ticket b = k" "a = b\<lparr> ua_free := if ua_free b = Running then Returned s else Invalid \<rparr>"
      using live UFinishFree by (auto simp: uc_live_finish_free [OF I])
    then show ?thesis
    proof cases
      case 1
      then show ?thesis using unrelated UFinishFree by auto
    next
      case (2 b)
      then have "ua_free b = Running" using snoc.prems(2) by (auto split: if_splits)
      with 2 show ?thesis using uc_life.freed [of ops k "ua_user b" s] snoc.IH [of b] UFinishFree by simp
    qed
  next
    case (UFinish k s)
    then show ?thesis using live unrelated by (auto simp: uc_live_finish [OF I])
  qed
qed

lemma uc_clean_no_failure:
  "ud_fault (uc_diag (fold uc_step ops uc_new)) = 0 \<Longrightarrow> list_all (\<lambda>a. \<not> uc_failed a) ops"
proof (induction ops rule: rev_induct)
  case (snoc op ops)
  let ?t = "fold uc_step ops uc_new"
  have "ud_fault (uc_diag ?t) = 0"
    using uc_step_fault [of ?t op] snoc.prems by fastforce
  moreover have "\<not> uc_failed op"
    using snoc.prems
    by (cases op) (auto simp: uc_finish_free_def uc_finish_def Let_def split: option.splits if_splits)
  ultimately show ?case using snoc.IH by simp
qed simp

section \<open>Properties\<close>

text \<open>C8: A delete is reported as successful exactly when the vendor's outer status is 0, the fault
  register is clear, no nested free and no delete of the session has returned a failure, and the calls
  of the tracker show a complete delete: the ticket was given out, then exactly one nested free of
  its user began and returned status 0, and nothing else was reported for this ticket or user.\<close>

theorem user_cleanup_success_exact:
  "fst (uc_finish ticket outer (fold uc_step ops uc_new)) = 0 \<longleftrightarrow>
     outer = 0 \<and> ud_fault (uc_diag (fold uc_step ops uc_new)) = 0 \<and> list_all (\<lambda>a. \<not> uc_failed a) ops
     \<and> (\<exists>k user. ticket = Some k \<and> uc_life ops k user (Returned 0))"
proof -
  let ?t = "fold uc_step ops uc_new"
  have "(\<exists>a. ticket = Some (ua_ticket a) \<and> uc_live ?t a \<and> ua_free a = Returned 0)
      \<longleftrightarrow> (\<exists>k user. ticket = Some k \<and> uc_life ops k user (Returned 0))"
  proof
    assume "\<exists>a. ticket = Some (ua_ticket a) \<and> uc_live ?t a \<and> ua_free a = Returned 0"
    then show "\<exists>k user. ticket = Some k \<and> uc_life ops k user (Returned 0)"
      using uc_live_life [of ops] by (metis ufree.distinct(11))
  next
    assume "\<exists>k user. ticket = Some k \<and> uc_life ops k user (Returned 0)"
    then obtain k user where "ticket = Some k" "uc_life ops k user (Returned 0)" by blast
    then show "\<exists>a. ticket = Some (ua_ticket a) \<and> uc_live ?t a \<and> ua_free a = Returned 0"
      using uc_life_live [of ops k user] by (intro exI [of _ "\<lparr> ua_ticket = k, ua_user = user, ua_free = Returned 0 \<rparr>"]) simp
  qed
  then show ?thesis
    using uc_finish_zero [OF user_cleanup.run_inv [OF uc_inv_new, of ops], of ticket outer] uc_clean_no_failure [of ops]
    by (auto simp: uc_live_def)
qed

text \<open>The tracker's counters account for every delete: issued tickets are completed or
  active, the active count is the number of occupied slots and at most four, tickets and users
  of active slots are distinct.\<close>

theorem user_cleanup_accounting:
  "let t = fold uc_step ops uc_new in
     unat (uc_issued t) = unat (ud_completed (uc_diag t)) + unat (ud_active (uc_diag t))
     \<and> ud_entered (uc_diag t) = uc_issued t
     \<and> unat (ud_active (uc_diag t)) = occupied (uc_slots t) \<and> occupied (uc_slots t) \<le> 4
     \<and> slot_inj ua_ticket (uc_slots t) \<and> slot_inj ua_user (uc_slots t)"
  using user_cleanup.run_inv [OF uc_inv_new, of ops] occupied_le [of "uc_slots (fold uc_step ops uc_new)"]
  by (simp add: uc_inv_def Let_def)

text \<open>The first failure poisons the session: whatever follows, the fault register keeps its
  value, a success status is replaced by it, the handshake is refused with it and no later
  delete can report success.\<close>

theorem user_cleanup_poisoned:
  assumes "ud_fault (uc_diag t) \<noteq> 0"
  shows "ud_fault (uc_diag (fold uc_step ops t)) = ud_fault (uc_diag t)
    \<and> uc_checked_status 0 (fold uc_step ops t) = ud_fault (uc_diag t)
    \<and> uc_handshake_status (fold uc_step ops t) = ud_fault (uc_diag t)
    \<and> fst (uc_finish k s (fold uc_step ops t)) \<noteq> 0"
proof -
  have f: "ud_fault (uc_diag (fold uc_step ops t)) = ud_fault (uc_diag t)"
    using user_cleanup_fault.run_fault [of t "ud_fault (uc_diag t)" ops] assms by (auto split: if_splits)
  then show ?thesis using assms
    by (auto simp: uc_checked_status_def uc_handshake_status_def uc_finish_def Let_def
        split: option.split ufree.split)
qed

text \<open>The status a delete returns is the checked one: from a clean session, a delete whose
  nested free returned \<open>st\<close> reports \<open>st\<close> when it is not 0 and the outer status otherwise, and a delete
  without a nested free never reports success.\<close>

theorem user_cleanup_nested_status:
  assumes I: "uc_inv t" and clean: "ud_fault (uc_diag t) = 0"
    and b: "uc_begin user t = (Some k, t1)"
  shows "fst (uc_finish (Some k) outer (snd (uc_native_free False user (\<lambda>t. (st, t)) t1)))
      = (if st \<noteq> 0 then st else outer)
    \<and> fst (uc_finish (Some k) outer t1) = (if outer \<noteq> 0 then outer else uc_CONTRACT_ERROR)"
proof -
  let ?a = "\<lparr> ua_ticket = k, ua_user = user, ua_free = NotSeen \<rparr>"
  have I1: "uc_inv t1" using uc_inv_begin [OF I, of user] b by simp
  obtain i where fp: "free_pos (uc_slots t) = Some i" and s1: "uc_slots t1 = (uc_slots t)[i := Some ?a]"
    and f1: "ud_fault (uc_diag t1) = 0"
    by (rule uc_begin_ok [OF b]) (use clean in simp)
  have i: "i < length (uc_slots t1)" "uc_slots t1 ! i = Some ?a"
    using free_pos_Some [OF fp] s1 by simp_all
  note pos1 = uc_pos [OF I1 i]
  let ?t2 = "uc_set_free i Running t1"
  have bf: "uc_begin_free user t1 = (Some k, ?t2)" using pos1 i by (simp add: uc_begin_free_def)
  have I2: "uc_inv ?t2" using uc_inv_begin_free [OF I1, of user] bf by simp
  have i2: "i < length (uc_slots ?t2)" "uc_slots ?t2 ! i = Some (?a\<lparr> ua_free := Running \<rparr>)"
    using i by (simp_all add: uc_set_free_def)
  have f2: "ud_fault (uc_diag ?t2) = 0" using f1 by (simp add: uc_set_free_def)
  define t3 where "t3 = uc_finish_free k st ?t2"
  have "uc_slots t3 = (uc_slots ?t2)[i := Some (?a\<lparr> ua_free := Returned st \<rparr>)]"
    and f3: "ud_fault (uc_diag t3) = st"
    using uc_pos(2) [OF I2 i2] i2 f2
    by (simp_all add: t3_def uc_finish_free_def Let_def uc_set_free_def [of i "Returned st"])
  then have i3: "i < length (uc_slots t3)" "uc_slots t3 ! i = Some (?a\<lparr> ua_free := Returned st \<rparr>)"
    using i2 by simp_all
  have I3: "uc_inv t3" unfolding t3_def by (rule uc_inv_finish_free [OF I2])
  have "fst (uc_finish (Some k) outer t3) = (if st \<noteq> 0 then st else outer)"
    using uc_pos(2) [OF I3 i3] i3 f3 by (simp add: uc_finish_def Let_def)
  moreover have "snd (uc_native_free False user (\<lambda>t. (st, t)) t1) = t3"
    by (simp add: uc_native_free_def bf t3_def Let_def)
  moreover have "fst (uc_finish (Some k) outer t1) = (if outer \<noteq> 0 then outer else uc_CONTRACT_ERROR)"
    using pos1 i f1 by (simp add: uc_finish_def Let_def)
  ultimately show ?thesis by simp
qed

end
