(* ===== verification/Route.thy ===== *)
theory Route
  imports Prelude
begin

text \<open>
  The callback route of the native Ethernet path: \<open>src/src/netif_l2.rs\<close>,
  \<open>src/src/netif_l2/host_delivery.rs\<close>, \<open>src/src/netif_l2/initial_session.rs\<close> and
  \<open>src/src/netif_l2/rx_mode.rs\<close>.

  One route connects the context-free vendor callbacks to one registered L2 instance.
  Admission is opened for a generation and closed by advancing a revision that is never
  reused.  Callback tickets, transmit tickets and delivery tickets are the values that Rust
  moves between the entry and the drop of a call; a run of the system (\<open>rsys\<close>) holds
  the outstanding ones, so that every ticket is finished at most once, as ownership
  guarantees in the source.

  Ingress handles, generations, operation identifiers and wakers come from other crates and
  are only stored and compared; they are natural numbers here.  The initial-session
  experiment is part of the model (the Cargo feature on).  \<open>usize\<close> has the 32 bits of the
  target.
\<close>

section \<open>Data\<close>

type_synonym ingress = nat
type_synonym generation = nat
type_synonym operation_id = nat
type_synonym waker = nat

datatype route_error = AlreadyRegistered | CallbacksInFlight | AlreadyOpen | OpenInterrupted
  | LifecycleExhausted | InitialSessionRejected

datatype queue_error = StaleGeneration | OtherQueueError nat

datatype link_error = RouteErr route_error | QueueErr queue_error

record route_diag =
  rd_entered :: u64
  rd_queued :: u64
  rd_dropped :: u64
  rd_closed_drops :: u64
  rd_allocation_drops :: u64
  rd_abandoned :: u64
  rd_in_flight :: u32
  rd_transmits_in_flight :: u32

record allocation_epoch =
  ae_revision :: "u64 option"

definition ae_CLOSED :: allocation_epoch where
  "ae_CLOSED = \<lparr> ae_revision = None \<rparr>"

record host_delivery =
  hv_entered :: u64
  hv_returned :: u64
  hv_abandoned :: u64
  hv_in_flight :: u64
  hv_peak_in_flight :: u64
  hv_entered_while_closed :: u64
  hv_crossed_close :: u64
  hv_nonzero_returns :: u64
  hv_exhausted :: bool

datatype initial_session = Uninitialized | Bootstrapped | Armed operation_id
  | Associating operation_id | Associated operation_id | Opened | Rejected

record route =
  cr_ingress :: "ingress option"
  cr_generation :: "generation option"
  cr_close_revision :: "u64 option"
  cr_close_waker :: "waker option"
  cr_diagnostics :: route_diag
  cr_host_deliveries :: host_delivery
  cr_initial :: initial_session
  cr_initial_open_result :: "(link_error + unit) option"

record open_intent =
  oi_close_revision :: u64
  oi_host_delivery_revision :: u64
  oi_initial_operation :: "operation_id option"

record callback_ticket =
  ct_ingress :: ingress
  ct_generation :: generation

section \<open>Initial session\<close>

definition is_bootstrap :: "initial_session \<Rightarrow> initial_session" where
  "is_bootstrap s = (case s of Uninitialized \<Rightarrow> Bootstrapped | _ \<Rightarrow> Rejected)"

definition is_connect :: "operation_id \<Rightarrow> initial_session \<Rightarrow> initial_session" where
  "is_connect oid s = (case s of Bootstrapped \<Rightarrow> Armed oid | _ \<Rightarrow> Rejected)"

definition is_associate :: "initial_session \<Rightarrow> initial_session" where
  "is_associate s = (case s of Armed oid \<Rightarrow> Associating oid | _ \<Rightarrow> Rejected)"

definition is_result :: "bool \<Rightarrow> initial_session \<Rightarrow> initial_session" where
  "is_result success s =
     (case s of Associating oid \<Rightarrow> (if success then Associated oid else Rejected) | _ \<Rightarrow> Rejected)"

definition is_check :: "operation_id \<Rightarrow> initial_session \<Rightarrow> route_error + unit" where
  "is_check oid s = (if s = Associated oid then Inr () else Inl InitialSessionRejected)"

section \<open>Callback route\<close>

definition hv_new :: host_delivery where
  "hv_new = \<lparr> hv_entered = 0, hv_returned = 0, hv_abandoned = 0, hv_in_flight = 0,
     hv_peak_in_flight = 0, hv_entered_while_closed = 0, hv_crossed_close = 0,
     hv_nonzero_returns = 0, hv_exhausted = False \<rparr>"

definition cr_new :: route where
  "cr_new = \<lparr> cr_ingress = None, cr_generation = None, cr_close_revision = Some 0,
     cr_close_waker = None,
     cr_diagnostics = \<lparr> rd_entered = 0, rd_queued = 0, rd_dropped = 0, rd_closed_drops = 0,
       rd_allocation_drops = 0, rd_abandoned = 0, rd_in_flight = 0, rd_transmits_in_flight = 0 \<rparr>,
     cr_host_deliveries = hv_new, cr_initial = Uninitialized, cr_initial_open_result = None \<rparr>"

abbreviation cr_on_diag :: "(route_diag \<Rightarrow> route_diag) \<Rightarrow> route \<Rightarrow> route" where
  "cr_on_diag f r \<equiv> r\<lparr> cr_diagnostics := f (cr_diagnostics r) \<rparr>"

definition st_close_admission :: "route \<Rightarrow> route" where
  "st_close_admission r = r\<lparr> cr_generation := None,
     cr_close_revision := Option.bind (cr_close_revision r) checked_inc \<rparr>"

definition cr_claim :: "ingress \<Rightarrow> route \<Rightarrow> (route_error + unit) \<times> route" where
  "cr_claim ingress r =
     (if cr_ingress r \<noteq> None then (Inl AlreadyRegistered, r)
      else if rd_in_flight (cr_diagnostics r) \<noteq> 0 \<or> rd_transmits_in_flight (cr_diagnostics r) \<noteq> 0
      then (Inl CallbacksInFlight, r)
      else if cr_close_revision r = None then (Inl LifecycleExhausted, r)
      else (Inr (), r\<lparr> cr_ingress := Some ingress, cr_generation := None \<rparr>))"

definition cr_allocation_epoch :: "route \<Rightarrow> allocation_epoch" where
  "cr_allocation_epoch r = \<lparr> ae_revision =
     (if cr_ingress r \<noteq> None \<and> cr_generation r \<noteq> None then cr_close_revision r else None) \<rparr>"

definition cr_enter_with_allocation ::
  "allocation_epoch option \<Rightarrow> route \<Rightarrow> callback_ticket option \<times> route" where
  "cr_enter_with_allocation allocation r0 =
     (let r = cr_on_diag (\<lambda>d. d\<lparr> rd_entered := rd_entered d + 1 \<rparr>) r0
      in if (case allocation of None \<Rightarrow> False
             | Some epoch \<Rightarrow> ae_revision epoch = None \<or> ae_revision epoch \<noteq> cr_close_revision r)
         then (None, cr_on_diag (\<lambda>d. d\<lparr> rd_dropped := rd_dropped d + 1,
                       rd_allocation_drops := rd_allocation_drops d + 1 \<rparr>) r)
         else
           (case (cr_ingress r, cr_generation r) of
              (Some ingress, Some generation) \<Rightarrow>
                (Some \<lparr> ct_ingress = ingress, ct_generation = generation \<rparr>,
                 cr_on_diag (\<lambda>d. d\<lparr> rd_in_flight := rd_in_flight d + 1 \<rparr>) r)
            | _ \<Rightarrow>
                (None, cr_on_diag (\<lambda>d. d\<lparr> rd_dropped := rd_dropped d + 1,
                         rd_closed_drops := rd_closed_drops d + 1 \<rparr>) r)))"

definition cr_enter :: "route \<Rightarrow> callback_ticket option \<times> route" where
  "cr_enter r = cr_enter_with_allocation None r"

definition cr_enter_allocated :: "allocation_epoch \<Rightarrow> route \<Rightarrow> callback_ticket option \<times> route" where
  "cr_enter_allocated epoch r = cr_enter_with_allocation (Some epoch) r"

text \<open>The waker that is taken is returned; it is woken after the lock is released.\<close>

definition cr_close_admission :: "route \<Rightarrow> waker option \<times> route" where
  "cr_close_admission r =
     (let r1 = st_close_admission (r\<lparr> cr_initial := Rejected \<rparr>)
      in (cr_close_waker r1, r1\<lparr> cr_close_waker := None \<rparr>))"

section \<open>Registration\<close>

definition rg_close_revision :: "route \<Rightarrow> u64 option" where
  "rg_close_revision r = cr_close_revision r"

definition rg_subscribe_close :: "waker \<Rightarrow> route \<Rightarrow> u64 option \<times> route" where
  "rg_subscribe_close w r = (cr_close_revision r, r\<lparr> cr_close_waker := Some w \<rparr>)"

definition rg_close :: "route \<Rightarrow> waker option \<times> route" where
  "rg_close r = cr_close_admission r"

definition rg_enter_transmit :: "generation \<Rightarrow> route \<Rightarrow> bool \<times> route" where
  "rg_enter_transmit generation r =
     (if cr_generation r \<noteq> Some generation then (False, r)
      else
        (case checked_inc (rd_transmits_in_flight (cr_diagnostics r)) of
           None \<Rightarrow> (False, r)
         | Some n \<Rightarrow> (True, cr_on_diag (\<lambda>d. d\<lparr> rd_transmits_in_flight := n \<rparr>) r)))"

definition rg_prepare_open :: "route \<Rightarrow> route_error + open_intent" where
  "rg_prepare_open r =
     (if cr_generation r \<noteq> None then Inl AlreadyOpen
      else if hv_exhausted (cr_host_deliveries r) then Inl LifecycleExhausted
      else if rd_in_flight (cr_diagnostics r) \<noteq> 0
              \<or> rd_transmits_in_flight (cr_diagnostics r) \<noteq> 0
              \<or> hv_in_flight (cr_host_deliveries r) \<noteq> 0
      then Inl CallbacksInFlight
      else
        (case cr_close_revision r of
           None \<Rightarrow> Inl LifecycleExhausted
         | Some revision \<Rightarrow>
            Inr \<lparr> oi_close_revision = revision,
                  oi_host_delivery_revision = hv_entered (cr_host_deliveries r),
                  oi_initial_operation = None \<rparr>))"

definition rg_prepare_initial_open :: "operation_id \<Rightarrow> route \<Rightarrow> route_error + open_intent" where
  "rg_prepare_initial_open oid r =
     (case rg_prepare_open r of
        Inl e \<Rightarrow> Inl e
      | Inr intent \<Rightarrow>
         (case is_check oid (cr_initial r) of
            Inl e \<Rightarrow> Inl e
          | Inr _ \<Rightarrow> Inr (intent\<lparr> oi_initial_operation := Some oid \<rparr>)))"

definition rg_commit_open :: "open_intent \<Rightarrow> generation \<Rightarrow> route \<Rightarrow> (route_error + unit) \<times> route" where
  "rg_commit_open intent generation r =
     (case cr_close_revision r of
        None \<Rightarrow> (Inl LifecycleExhausted, r)
      | Some revision \<Rightarrow>
         (if hv_exhausted (cr_host_deliveries r) then (Inl LifecycleExhausted, r)
          else if revision \<noteq> oi_close_revision intent
                  \<or> hv_entered (cr_host_deliveries r) \<noteq> oi_host_delivery_revision intent
          then (Inl OpenInterrupted, r)
          else if cr_generation r \<noteq> None then (Inl AlreadyOpen, r)
          else if rd_in_flight (cr_diagnostics r) \<noteq> 0
                  \<or> rd_transmits_in_flight (cr_diagnostics r) \<noteq> 0
                  \<or> hv_in_flight (cr_host_deliveries r) \<noteq> 0
          then (Inl CallbacksInFlight, r)
          else
            (case oi_initial_operation intent of
               None \<Rightarrow> (Inr (), r\<lparr> cr_generation := Some generation \<rparr>)
             | Some oid \<Rightarrow>
                (case is_check oid (cr_initial r) of
                   Inl e \<Rightarrow> (Inl e, r)
                 | Inr _ \<Rightarrow> (Inr (), r\<lparr> cr_initial := Opened, cr_generation := Some generation \<rparr>)))))"

definition rg_open_after_native_quiescence ::
  "generation \<Rightarrow> route \<Rightarrow> (route_error + unit) \<times> route" where
  "rg_open_after_native_quiescence generation r =
     (case rg_prepare_open r of
        Inl e \<Rightarrow> (Inl e, r)
      | Inr intent \<Rightarrow> rg_commit_open intent generation r)"

definition rg_drop :: "route \<Rightarrow> waker option \<times> route" where
  "rg_drop r =
     (let r1 = (st_close_admission (r\<lparr> cr_initial := Rejected \<rparr>))\<lparr> cr_ingress := None \<rparr>
      in (cr_close_waker r1, r1\<lparr> cr_close_waker := None \<rparr>))"

definition tt_drop :: "route \<Rightarrow> route" where
  "tt_drop r = cr_on_diag (\<lambda>d. d\<lparr> rd_transmits_in_flight := rd_transmits_in_flight d - 1 \<rparr>) r"

section \<open>Callback tickets\<close>

definition ct_finish :: "bool \<Rightarrow> bool \<Rightarrow> route \<Rightarrow> route" where
  "ct_finish queued abandoned r = cr_on_diag (\<lambda>d0.
     let d = d0\<lparr> rd_in_flight := rd_in_flight d0 - 1 \<rparr>
     in if queued then d\<lparr> rd_queued := rd_queued d + 1 \<rparr>
        else d\<lparr> rd_dropped := rd_dropped d + 1,
               rd_abandoned := rd_abandoned d + (if abandoned then 1 else 0) \<rparr>) r"

text \<open>\<open>receive\<close>: the queue's \<open>receive\<close> is an argument; between the generation check and the
  final accounting other code may run, as \<open>between\<close>.\<close>

definition ct_receive ::
  "(ingress \<Rightarrow> generation \<Rightarrow> u8 list \<Rightarrow> queue_error + unit) \<Rightarrow> (route \<Rightarrow> route) \<Rightarrow> u8 list
    \<Rightarrow> callback_ticket \<Rightarrow> route \<Rightarrow> (queue_error + unit) \<times> route" where
  "ct_receive receive between frame ticket r =
     (let result = (if cr_generation r = Some (ct_generation ticket)
                    then receive (ct_ingress ticket) (ct_generation ticket) frame
                    else Inl StaleGeneration)
      in (result, ct_finish (case result of Inr _ \<Rightarrow> True | Inl _ \<Rightarrow> False) False (between r)))"

definition ct_drop :: "bool \<Rightarrow> route \<Rightarrow> route" where
  "ct_drop finished r = (if \<not> finished then ct_finish False True r else r)"

section \<open>Host deliveries\<close>

text \<open>\<open>increment(counter, exhausted)\<close>: the new counter and flag.\<close>

definition hv_increment :: "u64 \<Rightarrow> bool \<Rightarrow> u64 \<times> bool" where
  "hv_increment counter exhausted =
     (case checked_inc counter of Some n \<Rightarrow> (n, exhausted) | None \<Rightarrow> (counter, True))"

definition hv_enter :: "bool \<Rightarrow> host_delivery \<Rightarrow> host_delivery" where
  "hv_enter closed d0 =
     (let (e, x1) = hv_increment (hv_entered d0) (hv_exhausted d0);
          (f, x2) = hv_increment (hv_in_flight d0) x1;
          (w, x3) = (if closed then hv_increment (hv_entered_while_closed d0) x2
                     else (hv_entered_while_closed d0, x2))
      in d0\<lparr> hv_entered := e, hv_in_flight := f, hv_peak_in_flight := max (hv_peak_in_flight d0) f,
             hv_entered_while_closed := w, hv_exhausted := x3 \<rparr>)"

definition hv_leave :: "bool \<Rightarrow> u32 option \<Rightarrow> host_delivery \<Rightarrow> host_delivery" where
  "hv_leave crossed_close returned d0 =
     (let d1 = d0\<lparr> hv_in_flight := sat_sub (hv_in_flight d0) 1 \<rparr>;
          d2 = (case returned of
                  Some status \<Rightarrow>
                    let (n, x) = hv_increment (hv_returned d1) (hv_exhausted d1);
                        (z, y) = (if status \<noteq> 0 then hv_increment (hv_nonzero_returns d1) x
                                  else (hv_nonzero_returns d1, x))
                    in d1\<lparr> hv_returned := n, hv_nonzero_returns := z, hv_exhausted := y \<rparr>
                | None \<Rightarrow>
                    let (n, x) = hv_increment (hv_abandoned d1) (hv_exhausted d1)
                    in d1\<lparr> hv_abandoned := n, hv_exhausted := x \<rparr>);
          (c, x) = (if crossed_close then hv_increment (hv_crossed_close d2) (hv_exhausted d2)
                    else (hv_crossed_close d2, hv_exhausted d2))
      in d2\<lparr> hv_crossed_close := c, hv_exhausted := x \<rparr>)"

definition dt_enter :: "route \<Rightarrow> u64 option \<times> route" where
  "dt_enter r =
     (cr_close_revision r,
      r\<lparr> cr_host_deliveries := hv_enter (cr_generation r = None) (cr_host_deliveries r) \<rparr>)"

definition dt_drop :: "u64 option \<Rightarrow> u32 option \<Rightarrow> route \<Rightarrow> route" where
  "dt_drop revision returned r =
     r\<lparr> cr_host_deliveries :=
          hv_leave (cr_close_revision r \<noteq> revision) returned (cr_host_deliveries r) \<rparr>"

text \<open>\<open>forward\<close> is the vendor receiver; it runs outside the lock and may reach every other
  operation of the route.\<close>

definition cr_observe_host_delivery :: "(route \<Rightarrow> u32 \<times> route) \<Rightarrow> route \<Rightarrow> u32 \<times> route" where
  "cr_observe_host_delivery forward r =
     (case dt_enter r of
        (revision, r1) \<Rightarrow>
         (case forward r1 of
            (status, r2) \<Rightarrow> (status, dt_drop revision (Some status) r2)))"

definition installation_action :: "addr \<Rightarrow> addr \<Rightarrow> addr \<Rightarrow> unit + bool" where
  "installation_action current expected observer =
     (if expected = 0 \<or> observer = 0 \<or> expected = observer then Inl ()
      else if current = observer then Inr False
      else if current = expected then Inr True
      else Inl ())"

text \<open>The observer installation over the ROM callback table (slot 261); \<open>free_route\<close> is the
  check of the origin experiment, \<open>register\<close> the ROM's table store.\<close>

definition install_host_delivery_observer ::
  "(u32 + unit) \<Rightarrow> (addr \<Rightarrow> addr \<Rightarrow> addr) \<Rightarrow> addr \<Rightarrow> addr \<Rightarrow> addr \<Rightarrow> (u32 + unit) \<times> addr" where
  "install_host_delivery_observer free_route register expected observer slot =
     (case free_route of
        Inl e \<Rightarrow> (Inl e, slot)
      | Inr _ \<Rightarrow>
         (case installation_action slot expected observer of
            Inr False \<Rightarrow> (Inr (), slot)
          | Inl _ \<Rightarrow> (Inl 0x10000010, slot)
          | Inr True \<Rightarrow>
              let slot' = register slot observer
              in (if slot' \<noteq> observer then Inl 0x10000011 else Inr (), slot')))"

section \<open>Initial session on the route, queued receive mode\<close>

definition cr_record_initial_open_result :: "(link_error + unit) \<Rightarrow> route \<Rightarrow> route" where
  "cr_record_initial_open_result result r = r\<lparr> cr_initial_open_result := Some result \<rparr>"

definition cr_initial_bootstrap_complete :: "route \<Rightarrow> route" where
  "cr_initial_bootstrap_complete r = r\<lparr> cr_initial := is_bootstrap (cr_initial r) \<rparr>"

definition cr_initial_connect_started :: "operation_id \<Rightarrow> route \<Rightarrow> route" where
  "cr_initial_connect_started oid r = r\<lparr> cr_initial := is_connect oid (cr_initial r) \<rparr>"

definition cr_initial_association_started :: "route \<Rightarrow> route" where
  "cr_initial_association_started r = r\<lparr> cr_initial := is_associate (cr_initial r) \<rparr>"

definition cr_initial_association_result :: "bool \<Rightarrow> route \<Rightarrow> waker option \<times> route" where
  "cr_initial_association_result success r =
     (let r1 = st_close_admission (r\<lparr> cr_initial := is_result success (cr_initial r) \<rparr>)
      in (cr_close_waker r1, r1\<lparr> cr_close_waker := None \<rparr>))"

definition rx_mode_post :: "u16 \<Rightarrow> ('s \<Rightarrow> 's) \<Rightarrow> ('s \<Rightarrow> i32 \<times> 's) \<Rightarrow> 's \<Rightarrow> i32 \<times> 's" where
  "rx_mode_post message reject forward s =
     (if message = 595 then (103, reject s) else forward s)"

text \<open>The wrapper of \<open>frw_host_post_msg\<close>; the state is the sticky rejection flag and the route.\<close>

definition rx_mode_post_message ::
  "u16 \<Rightarrow> (bool \<times> route \<Rightarrow> i32 \<times> bool \<times> route) \<Rightarrow> bool \<times> route \<Rightarrow> i32 \<times> bool \<times> route" where
  "rx_mode_post_message message real_post s =
     rx_mode_post message (\<lambda>(_, r). (True, snd (cr_close_admission r))) real_post s"

section \<open>Runs\<close>

record rsys =
  rs_route :: route
  rs_callbacks :: "callback_ticket list"
  rs_transmits :: nat
  rs_deliveries :: "u64 option list"

definition rs_new :: rsys where
  "rs_new = \<lparr> rs_route = cr_new, rs_callbacks = [], rs_transmits = 0, rs_deliveries = [] \<rparr>"

abbreviation rs_on_route :: "(route \<Rightarrow> route) \<Rightarrow> rsys \<Rightarrow> rsys" where
  "rs_on_route f s \<equiv> s\<lparr> rs_route := f (rs_route s) \<rparr>"

datatype rop = RClaim ingress | REnter "allocation_epoch option" | RFinish nat bool bool
  | RTransmit generation | RTransmitDrop | RDeliver | RDelivered nat "u32 option"
  | RClose | RSubscribe waker | RCommit open_intent generation | RDropRegistration
  | RBootstrap | RConnect operation_id | RAssociate | RAssociated bool

definition drop_at :: "nat \<Rightarrow> 'a list \<Rightarrow> 'a list" where
  "drop_at i xs = take i xs @ drop (Suc i) xs"

fun rs_step :: "rop \<Rightarrow> rsys \<Rightarrow> rsys" where
  "rs_step (RClaim i) s = rs_on_route (snd \<circ> cr_claim i) s"
| "rs_step (REnter a) s =
     (case cr_enter_with_allocation a (rs_route s) of
        (None, r) \<Rightarrow> s\<lparr> rs_route := r \<rparr>
      | (Some t, r) \<Rightarrow> s\<lparr> rs_route := r, rs_callbacks := t # rs_callbacks s \<rparr>)"
| "rs_step (RFinish i queued abandoned) s =
     (if i < length (rs_callbacks s)
      then (rs_on_route (ct_finish queued abandoned) s)\<lparr> rs_callbacks := drop_at i (rs_callbacks s) \<rparr>
      else s)"
| "rs_step (RTransmit g) s =
     (case rg_enter_transmit g (rs_route s) of
        (False, r) \<Rightarrow> s\<lparr> rs_route := r \<rparr>
      | (True, r) \<Rightarrow> s\<lparr> rs_route := r, rs_transmits := Suc (rs_transmits s) \<rparr>)"
| "rs_step RTransmitDrop s =
     (if rs_transmits s = 0 then s
      else (rs_on_route tt_drop s)\<lparr> rs_transmits := rs_transmits s - 1 \<rparr>)"
| "rs_step RDeliver s =
     (case dt_enter (rs_route s) of
        (v, r) \<Rightarrow> s\<lparr> rs_route := r, rs_deliveries := v # rs_deliveries s \<rparr>)"
| "rs_step (RDelivered i returned) s =
     (if i < length (rs_deliveries s)
      then (rs_on_route (dt_drop (rs_deliveries s ! i) returned) s)
             \<lparr> rs_deliveries := drop_at i (rs_deliveries s) \<rparr>
      else s)"
| "rs_step RClose s = rs_on_route (snd \<circ> cr_close_admission) s"
| "rs_step (RSubscribe w) s = rs_on_route (snd \<circ> rg_subscribe_close w) s"
| "rs_step (RCommit intent g) s = rs_on_route (snd \<circ> rg_commit_open intent g) s"
| "rs_step RDropRegistration s = rs_on_route (snd \<circ> rg_drop) s"
| "rs_step RBootstrap s = rs_on_route cr_initial_bootstrap_complete s"
| "rs_step (RConnect oid) s = rs_on_route (cr_initial_connect_started oid) s"
| "rs_step RAssociate s = rs_on_route cr_initial_association_started s"
| "rs_step (RAssociated ok) s = rs_on_route (snd \<circ> cr_initial_association_result ok) s"

text \<open>The steps that close admission.\<close>

fun closes :: "rop \<Rightarrow> bool" where
  "closes RClose = True"
| "closes RDropRegistration = True"
| "closes (RAssociated _) = True"
| "closes _ = False"

section \<open>Conservation\<close>

definition hv_balanced :: "nat \<Rightarrow> host_delivery \<Rightarrow> bool" where
  "hv_balanced n d \<longleftrightarrow> hv_exhausted d \<or>
     unat (hv_entered d) = unat (hv_returned d) + unat (hv_abandoned d) + n \<and> unat (hv_in_flight d) = n"

definition rs_inv :: "rsys \<Rightarrow> bool" where
  "rs_inv s \<longleftrightarrow>
     (let d = cr_diagnostics (rs_route s) in
        rd_entered d = rd_queued d + rd_dropped d + of_nat (length (rs_callbacks s))
        \<and> rd_in_flight d = of_nat (length (rs_callbacks s))
        \<and> unat (rd_transmits_in_flight d) = rs_transmits s)
     \<and> hv_balanced (length (rs_deliveries s)) (cr_host_deliveries (rs_route s))
     \<and> (cr_generation (rs_route s) \<noteq> None \<longrightarrow> cr_close_revision (rs_route s) \<noteq> None)"

lemma length_drop_at: "i < length xs \<Longrightarrow> length (drop_at i xs) = length xs - 1"
  by (simp add: drop_at_def)

lemma hv_increment_ok:
  "hv_increment c x = (n, y) \<Longrightarrow> \<not> y \<Longrightarrow> \<not> x \<and> unat n = Suc (unat c)"
  by (auto simp: hv_increment_def checked_inc_def unat_inc split: if_splits)

lemma hv_increment_exhausted: "snd (hv_increment c x) = (x \<or> c = - 1)"
  by (simp add: hv_increment_def checked_inc_def)

lemma hv_enter_ok:
  assumes "\<not> hv_exhausted (hv_enter closed d)"
  shows "\<not> hv_exhausted d \<and> unat (hv_entered (hv_enter closed d)) = Suc (unat (hv_entered d))
    \<and> unat (hv_in_flight (hv_enter closed d)) = Suc (unat (hv_in_flight d))
    \<and> hv_returned (hv_enter closed d) = hv_returned d \<and> hv_abandoned (hv_enter closed d) = hv_abandoned d"
proof -
  obtain e x1 where e: "hv_increment (hv_entered d) (hv_exhausted d) = (e, x1)" by fastforce
  obtain f x2 where f: "hv_increment (hv_in_flight d) x1 = (f, x2)" by fastforce
  obtain w x3 where w: "(if closed then hv_increment (hv_entered_while_closed d) x2
      else (hv_entered_while_closed d, x2)) = (w, x3)" by fastforce
  have d': "hv_enter closed d = d\<lparr> hv_entered := e, hv_in_flight := f,
      hv_peak_in_flight := max (hv_peak_in_flight d) f, hv_entered_while_closed := w, hv_exhausted := x3 \<rparr>"
    unfolding hv_enter_def e f Let_def case_prod_conv w by simp
  then have "\<not> x3" using assms by simp
  then have "\<not> x2" using w hv_increment_ok by (auto split: if_splits)
  with f have "\<not> x1" "unat f = Suc (unat (hv_in_flight d))" using hv_increment_ok by blast+
  with e show ?thesis using hv_increment_ok [OF e] d' by simp
qed

lemma hv_leave_ok:
  assumes "\<not> hv_exhausted (hv_leave crossed returned d)"
  shows "\<not> hv_exhausted d \<and> hv_entered (hv_leave crossed returned d) = hv_entered d
    \<and> unat (hv_in_flight (hv_leave crossed returned d)) = unat (hv_in_flight d) - 1
    \<and> unat (hv_returned (hv_leave crossed returned d)) + unat (hv_abandoned (hv_leave crossed returned d))
        = Suc (unat (hv_returned d) + unat (hv_abandoned d))"
proof -
  let ?d1 = "d\<lparr> hv_in_flight := sat_sub (hv_in_flight d) 1 \<rparr>"
  define d2 where "d2 = (case returned of
                  Some status \<Rightarrow>
                    let (n, x) = hv_increment (hv_returned ?d1) (hv_exhausted ?d1);
                        (z, y) = (if status \<noteq> 0 then hv_increment (hv_nonzero_returns ?d1) x
                                  else (hv_nonzero_returns ?d1, x))
                    in ?d1\<lparr> hv_returned := n, hv_nonzero_returns := z, hv_exhausted := y \<rparr>
                | None \<Rightarrow>
                    let (n, x) = hv_increment (hv_abandoned ?d1) (hv_exhausted ?d1)
                    in ?d1\<lparr> hv_abandoned := n, hv_exhausted := x \<rparr>)"
  obtain c x where cx: "(if crossed then hv_increment (hv_crossed_close d2) (hv_exhausted d2)
      else (hv_crossed_close d2, hv_exhausted d2)) = (c, x)" by fastforce
  have l: "hv_leave crossed returned d = d2\<lparr> hv_crossed_close := c, hv_exhausted := x \<rparr>"
    unfolding hv_leave_def Let_def d2_def [symmetric, unfolded Let_def] cx by simp
  then have "\<not> x" using assms by simp
  then have nx: "\<not> hv_exhausted d2" using cx hv_increment_ok by (auto split: if_splits)
  have "\<not> hv_exhausted d \<and> hv_entered d2 = hv_entered d \<and> hv_in_flight d2 = sat_sub (hv_in_flight d) 1
    \<and> unat (hv_returned d2) + unat (hv_abandoned d2) = Suc (unat (hv_returned d) + unat (hv_abandoned d))"
  proof (cases returned)
    case None
    obtain n y where n: "hv_increment (hv_abandoned d) (hv_exhausted d) = (n, y)" by fastforce
    then have "d2 = ?d1\<lparr> hv_abandoned := n, hv_exhausted := y \<rparr>" using None by (simp add: d2_def)
    then show ?thesis using nx hv_increment_ok [OF n] by simp
  next
    case (Some st)
    obtain n y where n: "hv_increment (hv_returned d) (hv_exhausted d) = (n, y)" by fastforce
    obtain z y' where z: "(if st \<noteq> 0 then hv_increment (hv_nonzero_returns d) y
        else (hv_nonzero_returns d, y)) = (z, y')" by fastforce
    have e: "d2 = ?d1\<lparr> hv_returned := n, hv_nonzero_returns := z, hv_exhausted := y' \<rparr>"
      using Some n z by (cases "st = 0") (simp_all add: d2_def)
    have "\<not> y" using z hv_increment_ok e nx by (auto split: if_splits)
    then show ?thesis using hv_increment_ok [OF n] e by simp
  qed
  then show ?thesis using l by (simp add: unat_sat_sub)
qed

lemma hv_balanced_enter: "hv_balanced n d \<Longrightarrow> hv_balanced (Suc n) (hv_enter closed d)"
  using hv_enter_ok [of closed d] by (auto simp: hv_balanced_def)

lemma hv_balanced_leave: "\<lbrakk> hv_balanced n d; 0 < n \<rbrakk> \<Longrightarrow> hv_balanced (n - 1) (hv_leave crossed returned d)"
  using hv_leave_ok [of crossed returned d] by (auto simp: hv_balanced_def)

lemmas route_ops = cr_claim_def cr_enter_with_allocation_def ct_finish_def rg_enter_transmit_def
  tt_drop_def cr_close_admission_def st_close_admission_def rg_subscribe_close_def rg_commit_open_def
  rg_drop_def cr_initial_bootstrap_complete_def cr_initial_connect_started_def
  cr_initial_association_started_def cr_initial_association_result_def dt_enter_def dt_drop_def

lemma rs_inv_new: "rs_inv rs_new"
  by (simp add: rs_inv_def rs_new_def cr_new_def hv_balanced_def hv_new_def Let_def)

lemma of_nat_pred: "0 < n \<Longrightarrow> (of_nat (n - 1) :: 'w::len word) = of_nat n - 1"
  by (simp add: of_nat_diff)

lemma rs_inv_enter: "rs_inv s \<Longrightarrow> rs_inv (rs_step (REnter a) s)"
  by (auto simp: rs_inv_def cr_enter_with_allocation_def Let_def add_ac split: option.splits)

lemma rs_inv_finish: "rs_inv s \<Longrightarrow> rs_inv (rs_step (RFinish i q ab) s)"
  by (auto simp: rs_inv_def ct_finish_def Let_def length_drop_at of_nat_pred algebra_simps)

lemma rs_inv_transmit: "rs_inv s \<Longrightarrow> rs_inv (rs_step (RTransmit g) s)"
  by (auto simp: rs_inv_def rg_enter_transmit_def Let_def checked_inc_Some unat_inc
      split: option.splits if_splits)

lemma rs_inv_transmit_drop: "rs_inv s \<Longrightarrow> rs_inv (rs_step RTransmitDrop s)"
  by (auto simp: rs_inv_def tt_drop_def Let_def unat_dec)

lemma rs_inv_deliver: "rs_inv s \<Longrightarrow> rs_inv (rs_step RDeliver s)"
  by (auto simp: rs_inv_def dt_enter_def Let_def hv_balanced_enter)

lemma rs_inv_delivered: "rs_inv s \<Longrightarrow> rs_inv (rs_step (RDelivered i ret) s)"
proof (cases "i < length (rs_deliveries s)")
  case True
  assume I: "rs_inv s"
  have "hv_balanced (length (rs_deliveries s) - 1)
      (hv_leave (cr_close_revision (rs_route s) \<noteq> rs_deliveries s ! i) ret (cr_host_deliveries (rs_route s)))"
    using I True by (intro hv_balanced_leave) (auto simp: rs_inv_def)
  then show ?thesis using I True by (simp add: rs_inv_def dt_drop_def Let_def length_drop_at)
qed simp

text \<open>The other steps leave the counters alone.\<close>

lemma rs_inv_same:
  assumes "rs_inv s" "cr_diagnostics r = cr_diagnostics (rs_route s)"
    "cr_host_deliveries r = cr_host_deliveries (rs_route s)"
    "cr_generation r \<noteq> None \<longrightarrow> cr_close_revision r \<noteq> None"
  shows "rs_inv (s\<lparr> rs_route := r \<rparr>)"
  using assms by (simp add: rs_inv_def)

lemma rs_open_revision: "rs_inv s \<Longrightarrow> cr_generation (rs_route s) \<noteq> None \<longrightarrow> cr_close_revision (rs_route s) \<noteq> None"
  by (simp add: rs_inv_def)

lemma rs_inv_commit: "rs_inv s \<Longrightarrow> rs_inv (rs_step (RCommit intent g) s)"
  using rs_open_revision [of s]
  by (auto simp: rg_commit_open_def intro!: rs_inv_same split: option.splits sum.splits)

lemma rs_inv_step: "rs_inv s \<Longrightarrow> rs_inv (rs_step a s)"
proof -
  assume I: "rs_inv s"
  note g = rs_open_revision [OF I]
  show ?thesis
  proof (cases a)
    case (REnter x)
    then show ?thesis using rs_inv_enter [OF I] by blast
  next
    case (RFinish i q b)
    then show ?thesis using rs_inv_finish [OF I] by blast
  next
    case (RTransmit x)
    then show ?thesis using rs_inv_transmit [OF I] by blast
  next
    case RTransmitDrop
    then show ?thesis using rs_inv_transmit_drop [OF I] by blast
  next
    case RDeliver
    then show ?thesis using rs_inv_deliver [OF I] by blast
  next
    case (RDelivered i r)
    then show ?thesis using rs_inv_delivered [OF I] by blast
  next
    case (RCommit i h)
    then show ?thesis using rs_inv_commit [OF I] by blast
  qed (use I g in \<open>auto simp: route_ops Let_def intro!: rs_inv_same [OF I]\<close>)
qed

interpretation route_run: machine rs_step rs_inv
  by unfold_locales (rule rs_inv_step)

section \<open>Revisions are never reused\<close>

text \<open>\<open>rev_le v w\<close>: revision \<open>w\<close> is reached from \<open>v\<close> (exhaustion is last).\<close>

definition rev_le :: "u64 option \<Rightarrow> u64 option \<Rightarrow> bool" where
  "rev_le v w \<longleftrightarrow> (case (v, w) of (_, None) \<Rightarrow> True | (None, Some _) \<Rightarrow> False | (Some a, Some b) \<Rightarrow> a \<le> b)"

definition rev_lt :: "u64 option \<Rightarrow> u64 option \<Rightarrow> bool" where
  "rev_lt v w \<longleftrightarrow> (case (v, w) of (_, None) \<Rightarrow> True | (None, Some _) \<Rightarrow> False | (Some a, Some b) \<Rightarrow> a < b)"

lemma rev_le_refl [simp]: "rev_le v v"
  by (simp add: rev_le_def split: option.split)

lemma rev_le_trans: "rev_le u v \<Longrightarrow> rev_le v w \<Longrightarrow> rev_le u w"
  by (auto simp: rev_le_def split: option.splits)

lemma rev_lt_le_trans: "rev_lt u v \<Longrightarrow> rev_le v w \<Longrightarrow> rev_lt u w"
  by (auto simp: rev_le_def rev_lt_def split: option.splits)

lemma rev_le_lt_trans: "rev_le u v \<Longrightarrow> rev_lt v w \<Longrightarrow> rev_lt u w"
  by (auto simp: rev_le_def rev_lt_def split: option.splits)

lemma rev_lt_imp_le: "rev_lt u v \<Longrightarrow> rev_le u v"
  by (auto simp: rev_le_def rev_lt_def split: option.splits)

lemma rev_lt_neq: "rev_lt (Some n) v \<Longrightarrow> v \<noteq> Some n"
  by (auto simp: rev_lt_def)

lemma rev_lt_irrefl [simp]: "rev_lt v v \<longleftrightarrow> v = None"
  by (auto simp: rev_lt_def split: option.split)

lemma rev_lt_close: "rev_lt v (Option.bind v checked_inc)"
  by (cases v) (auto simp: rev_lt_def checked_inc_def word_less_nat_alt unat_inc split: option.split)

lemma rs_step_revision:
  "rev_le (cr_close_revision (rs_route s)) (cr_close_revision (rs_route (rs_step a s)))
   \<and> (closes a \<longrightarrow> rev_lt (cr_close_revision (rs_route s)) (cr_close_revision (rs_route (rs_step a s))))"
  using rev_lt_close [of "cr_close_revision (rs_route s)"] rev_lt_imp_le
  by (cases a) (auto simp: route_ops Let_def split: option.splits sum.splits prod.splits bool.splits)

lemma rs_run_revision:
  "rev_le (cr_close_revision (rs_route s)) (cr_close_revision (rs_route (fold rs_step ops s)))"
  by (induction ops arbitrary: s) (auto intro: rev_le_trans rs_step_revision [THEN conjunct1])

lemma rs_run_closed_revision:
  "\<exists>a \<in> set ops. closes a \<Longrightarrow>
    rev_lt (cr_close_revision (rs_route s)) (cr_close_revision (rs_route (fold rs_step ops s)))"
proof (induction ops arbitrary: s)
  case (Cons a ops)
  show ?case
  proof (cases "closes a")
    case True
    then show ?thesis using rs_step_revision [of s a] rs_run_revision [of "rs_step a s" ops]
      by (auto intro: rev_lt_le_trans)
  next
    case False
    then show ?thesis using Cons rs_step_revision [of s a] by (auto intro: rev_le_lt_trans)
  qed
qed simp

text \<open>Host deliveries only ever advance the entry counter, or exhaust it.\<close>

lemma hv_enter_advances:
  "hv_exhausted (hv_enter c d) \<or> unat (hv_entered d) < unat (hv_entered (hv_enter c d))"
  using hv_enter_ok [of c d] by (cases "hv_exhausted (hv_enter c d)") auto

lemma hv_enter_sticky: "hv_exhausted d \<Longrightarrow> hv_exhausted (hv_enter c d)"
  using hv_enter_ok [of c d] by blast

lemma hv_leave_keeps:
  "(hv_exhausted d \<longrightarrow> hv_exhausted (hv_leave c r d)) \<and> (hv_exhausted (hv_leave c r d) \<or> hv_entered (hv_leave c r d) = hv_entered d)"
  using hv_leave_ok [of c r d] by (cases "hv_exhausted (hv_leave c r d)") auto

definition hv_later :: "host_delivery \<Rightarrow> host_delivery \<Rightarrow> bool" where
  "hv_later d e \<longleftrightarrow> hv_exhausted e \<or> \<not> hv_exhausted d \<and> unat (hv_entered d) \<le> unat (hv_entered e)"

lemma rs_step_deliveries:
  "hv_later (cr_host_deliveries (rs_route s)) (cr_host_deliveries (rs_route (rs_step a s)))
   \<and> (a = RDeliver \<longrightarrow> hv_exhausted (cr_host_deliveries (rs_route (rs_step a s)))
        \<or> unat (hv_entered (cr_host_deliveries (rs_route s)))
            < unat (hv_entered (cr_host_deliveries (rs_route (rs_step a s)))))"
proof -
  have same: "hv_later d d" for d by (auto simp: hv_later_def)
  have e: "hv_later d (hv_enter c d)" for c d
    using hv_enter_advances [of c d] hv_enter_sticky [of d c] by (auto simp: hv_later_def)
  have l: "hv_later d (hv_leave c r d)" for c r d
    using hv_leave_keeps [of d c r] by (auto simp: hv_later_def)
  show ?thesis
    using same e l hv_enter_advances
    by (cases a) (auto simp: route_ops Let_def split: option.splits sum.splits prod.splits bool.splits)
qed

lemma hv_later_trans: "hv_later d e \<Longrightarrow> hv_later e f \<Longrightarrow> hv_later d f"
  by (auto simp: hv_later_def)

lemma rs_run_deliveries:
  "hv_later (cr_host_deliveries (rs_route s)) (cr_host_deliveries (rs_route (fold rs_step ops s)))"
proof (induction ops arbitrary: s)
  case Nil
  show ?case by (auto simp: hv_later_def)
next
  case (Cons a ops)
  show ?case using Cons [of "rs_step a s"] rs_step_deliveries [of s a] hv_later_trans by auto
qed

lemma rs_run_delivered:
  "RDeliver \<in> set ops \<Longrightarrow>
    hv_exhausted (cr_host_deliveries (rs_route (fold rs_step ops s)))
    \<or> unat (hv_entered (cr_host_deliveries (rs_route s)))
        < unat (hv_entered (cr_host_deliveries (rs_route (fold rs_step ops s))))"
proof (induction ops arbitrary: s)
  case (Cons a ops)
  show ?case
  proof (cases "a = RDeliver")
    case True
    then show ?thesis using rs_step_deliveries [of s a] rs_run_deliveries [of "rs_step a s" ops]
      by (auto simp: hv_later_def simp del: rs_step.simps)
  next
    case False
    then show ?thesis using Cons rs_step_deliveries [of s a] rs_run_deliveries [of "rs_step a s" ops]
      by (fastforce simp: hv_later_def simp del: rs_step.simps)
  qed
qed simp

section \<open>The initial session opens at most once\<close>

definition is_spent :: "initial_session \<Rightarrow> bool" where
  "is_spent s \<longleftrightarrow> s = Opened \<or> s = Rejected"

lemma is_spent_check: "is_spent s \<Longrightarrow> is_check oid s = Inl InitialSessionRejected"
  by (auto simp: is_spent_def is_check_def)

interpretation initial_spent: latch rs_step "\<lambda>s. is_spent (cr_initial (rs_route s))"
proof unfold_locales
  fix s :: rsys and a
  assume sp: "is_spent (cr_initial (rs_route s))"
  then show "is_spent (cr_initial (rs_route (rs_step a s)))"
    by (cases a) (auto simp: route_ops Let_def is_spent_check is_spent_def is_bootstrap_def
        is_connect_def is_associate_def is_result_def is_check_def
        split: option.splits sum.splits prod.splits bool.splits)
qed

lemma commit_initial_spent:
  "\<lbrakk> rg_commit_open intent g r = (Inr (), r'); oi_initial_operation intent = Some oid \<rbrakk>
    \<Longrightarrow> is_spent (cr_initial r')"
  by (auto simp: rg_commit_open_def is_spent_def split: option.splits sum.splits if_splits)

lemma commit_spent_fails:
  "\<lbrakk> is_spent (cr_initial r); oi_initial_operation intent = Some oid \<rbrakk>
    \<Longrightarrow> \<exists>e. rg_commit_open intent g r = (Inl e, r)"
  by (auto simp: rg_commit_open_def is_spent_check split: option.splits sum.splits if_splits)

section \<open>Properties\<close>

text \<open>C11: Callback entries are conserved: after any sequence of route operations every entered
  callback is queued, dropped or still in flight, the in-flight counters are the numbers of
  outstanding tickets, and host deliveries balance until their counters are exhausted.\<close>

theorem route_conservation:
  "let s = fold rs_step ops rs_new; d = cr_diagnostics (rs_route s); h = cr_host_deliveries (rs_route s) in
     rd_entered d = rd_queued d + rd_dropped d + of_nat (length (rs_callbacks s))
     \<and> rd_in_flight d = of_nat (length (rs_callbacks s))
     \<and> unat (rd_transmits_in_flight d) = rs_transmits s
     \<and> (hv_exhausted h
        \<or> unat (hv_entered h) = unat (hv_returned h) + unat (hv_abandoned h) + length (rs_deliveries s)
          \<and> unat (hv_in_flight h) = length (rs_deliveries s))"
  using route_run.run_inv [OF rs_inv_new, of ops] by (simp add: rs_inv_def hv_balanced_def Let_def)

lemma stale_epoch_rejected:
  assumes "\<exists>a \<in> set ops. closes a"
  shows "fst (cr_enter_allocated (cr_allocation_epoch (rs_route s)) (rs_route (fold rs_step ops s))) = None
    \<and> rd_allocation_drops (cr_diagnostics
        (snd (cr_enter_allocated (cr_allocation_epoch (rs_route s)) (rs_route (fold rs_step ops s)))))
      = rd_allocation_drops (cr_diagnostics (rs_route (fold rs_step ops s))) + 1"
proof -
  have "rev_lt (cr_close_revision (rs_route s)) (cr_close_revision (rs_route (fold rs_step ops s)))"
    by (rule rs_run_closed_revision [OF assms])
  then have "ae_revision (cr_allocation_epoch (rs_route s)) = None
      \<or> ae_revision (cr_allocation_epoch (rs_route s)) \<noteq> cr_close_revision (rs_route (fold rs_step ops s))"
    by (auto simp: cr_allocation_epoch_def)
  then show ?thesis
    by (auto simp: cr_enter_allocated_def cr_enter_with_allocation_def Let_def)
qed

text \<open>A buffer allocated in an earlier admission epoch never enters a later one: once
  admission has been closed after the epoch was captured, entering with that epoch is dropped and
  counted, whatever reopened the route in between.\<close>

theorem route_stale_allocation_dropped:
  assumes "\<exists>a \<in> set ops. closes a"
  shows "fst (cr_enter_allocated (cr_allocation_epoch (rs_route s)) (rs_route (fold rs_step ops s))) = None
    \<and> rd_allocation_drops (cr_diagnostics
        (snd (cr_enter_allocated (cr_allocation_epoch (rs_route s)) (rs_route (fold rs_step ops s)))))
      = rd_allocation_drops (cr_diagnostics (rs_route (fold rs_step ops s))) + 1"
  by (rule stale_epoch_rejected [OF assms])

text \<open>C9: A close or a host delivery between preparing and committing an open wins: the commit
  fails and leaves the route unchanged.\<close>

theorem route_open_interrupted:
  assumes p: "rg_prepare_open (rs_route s) = Inr intent"
    and i: "(\<exists>a \<in> set ops. closes a) \<or> RDeliver \<in> set ops"
  shows "\<exists>e. rg_commit_open intent g (rs_route (fold rs_step ops s)) = (Inl e, rs_route (fold rs_step ops s))"
proof -
  let ?r = "rs_route s" and ?r' = "rs_route (fold rs_step ops s)"
  have v: "cr_close_revision ?r = Some (oi_close_revision intent)"
    "oi_host_delivery_revision intent = hv_entered (cr_host_deliveries ?r)"
    using p by (auto simp: rg_prepare_open_def split: if_splits option.splits)
  have "cr_close_revision ?r' \<noteq> Some (oi_close_revision intent)
      \<or> hv_exhausted (cr_host_deliveries ?r')
      \<or> hv_entered (cr_host_deliveries ?r') \<noteq> hv_entered (cr_host_deliveries ?r)"
    using i rs_run_closed_revision [of ops s] rs_run_delivered [of ops s] v rev_lt_neq by auto
  then show ?thesis using v by (auto simp: rg_commit_open_def split: option.splits)
qed

theorem route_open_interrupted_witness:
  "\<exists>e. rg_commit_open \<lparr> oi_close_revision = 0, oi_host_delivery_revision = 0, oi_initial_operation = None \<rparr> 7
     (rs_route (fold rs_step [RDeliver] (fold rs_step [RClaim 1] rs_new)))
     = (Inl e, rs_route (fold rs_step [RDeliver] (fold rs_step [RClaim 1] rs_new)))"
proof (rule route_open_interrupted)
  show "rg_prepare_open (rs_route (fold rs_step [RClaim 1] rs_new)) =
      Inr \<lparr> oi_close_revision = 0, oi_host_delivery_revision = 0, oi_initial_operation = None \<rparr>"
    by code_simp
qed simp

text \<open>C10: Admission opens only from a drained route: a successful commit found admission
  closed, no transmit and no host delivery outstanding and (below the range of the 32-bit
  counter) no callback outstanding, and it publishes exactly the given generation.\<close>

theorem route_opens_drained:
  assumes "rg_commit_open intent g (rs_route (fold rs_step ops rs_new)) = (Inr (), r')"
    and "length (rs_callbacks (fold rs_step ops rs_new)) < 2 ^ 32"
  shows "rs_callbacks (fold rs_step ops rs_new) = [] \<and> rs_transmits (fold rs_step ops rs_new) = 0
    \<and> rs_deliveries (fold rs_step ops rs_new) = []
    \<and> cr_generation (rs_route (fold rs_step ops rs_new)) = None \<and> cr_generation r' = Some g"
proof -
  define s where "s = fold rs_step ops rs_new"
  have I: "rs_inv s" unfolding s_def by (rule route_run.run_inv [OF rs_inv_new])
  have z: "rd_in_flight (cr_diagnostics (rs_route s)) = 0"
    "rd_transmits_in_flight (cr_diagnostics (rs_route s)) = 0"
    "hv_in_flight (cr_host_deliveries (rs_route s)) = 0" "\<not> hv_exhausted (cr_host_deliveries (rs_route s))"
    "cr_generation (rs_route s) = None" "cr_generation r' = Some g"
    using assms(1) unfolding s_def [symmetric]
    by (auto simp: rg_commit_open_def split: option.splits sum.splits if_splits)
  have "(of_nat (length (rs_callbacks s)) :: u32) = of_nat 0" using I z by (simp add: rs_inv_def Let_def)
  then have "length (rs_callbacks s) = 0"
    using of_nat_unat_inj [where ?'w = 32, of "length (rs_callbacks s)" 0] assms(2) unfolding s_def by simp
  then show ?thesis
    using I z unfolding s_def [symmetric] by (auto simp: rs_inv_def Let_def hv_balanced_def)
qed

theorem route_opens_drained_witness:
  "rs_callbacks (fold rs_step [RClaim 1, RDeliver, RDelivered 0 (Some 0)] rs_new) = []"
proof -
  let ?ops = "[RClaim 1, RDeliver, RDelivered 0 (Some 0)]"
  let ?i = "\<lparr> oi_close_revision = 0, oi_host_delivery_revision = 1, oi_initial_operation = None \<rparr>"
  have "fst (rg_commit_open ?i 7 (rs_route (fold rs_step ?ops rs_new))) = Inr ()" by code_simp
  then obtain r' where "rg_commit_open ?i 7 (rs_route (fold rs_step ?ops rs_new)) = (Inr (), r')"
    by (metis prod.collapse)
  moreover have "length (rs_callbacks (fold rs_step ?ops rs_new)) < 2 ^ 32"
  proof -
    have "length (rs_callbacks (fold rs_step ?ops rs_new)) = 0" by code_simp
    then show ?thesis by (simp only: zero_less_power zero_less_numeral)
  qed
  ultimately show ?thesis using route_opens_drained by blast
qed

text \<open>The initial-session experiment opens the route at most once: after one successful
  commit for an initial operation, no later one succeeds, whatever happens in between.\<close>

theorem route_initial_open_once:
  assumes "rg_commit_open i1 g1 (rs_route s) = (Inr (), r1)"
    and "oi_initial_operation i1 = Some o1" and "oi_initial_operation i2 = Some o2"
  shows "\<exists>e. fst (rg_commit_open i2 g2 (rs_route (fold rs_step ops (s\<lparr> rs_route := r1 \<rparr>)))) = Inl e"
proof -
  have "is_spent (cr_initial (rs_route (s\<lparr> rs_route := r1 \<rparr>)))"
    using commit_initial_spent [OF assms(1,2)] by simp
  then have sp: "is_spent (cr_initial (rs_route (fold rs_step ops (s\<lparr> rs_route := r1 \<rparr>))))"
    by (rule initial_spent.latch_run.run_inv)
  obtain e where "rg_commit_open i2 g2 (rs_route (fold rs_step ops (s\<lparr> rs_route := r1 \<rparr>)))
      = (Inl e, rs_route (fold rs_step ops (s\<lparr> rs_route := r1 \<rparr>)))"
    using commit_spent_fails [OF sp assms(3), of g2] by (rule exE)
  then show ?thesis by simp
qed

end
