(* ===== verification/RxOrigin.thy ===== *)
theory RxOrigin
  imports Route
begin

text \<open>
  The receive-origin census (\<open>src/src/netif_l2/rx_origin.rs\<close>): which admission epoch each
  receive descriptor was bound in, observed without touching the native buffers.

  The four columns of \<open>Tracker<N>\<close> are lists of length \<open>N\<close>; a zero buffer address marks
  an unused row.  The loops over the rows are folds over the row numbers.  The wrappers
  around the ROM functions take them as arguments.
\<close>

section \<open>Data\<close>

record odiag =
  od_bindings :: u64
  od_failed_bindings :: u64
  od_replaced :: u64
  od_retired :: u64
  od_free_calls :: u64
  od_capacity_failures :: u64
  od_matched :: u64
  od_unmatched :: u64
  od_closed_origin :: u64
  od_current_origin :: u64
  od_stale_origin :: u64
  od_occupied :: nat
  od_peak :: nat
  od_exhausted :: bool

record ro =
  ro_descriptors :: "addr list"
  ro_netbufs :: "addr list"
  ro_revisions :: "u64 list"
  ro_open :: "bool list"
  ro_diag :: odiag

section \<open>Operations\<close>

text \<open>\<open>increment(&mut d.field, &mut d.exhausted)\<close> for the field given by its selector and update.\<close>

definition ro_increment :: "(odiag \<Rightarrow> u64) \<Rightarrow> ((u64 \<Rightarrow> u64) \<Rightarrow> odiag \<Rightarrow> odiag) \<Rightarrow> odiag \<Rightarrow> odiag" where
  "ro_increment get upd d =
     (case checked_inc (get d) of
        Some n \<Rightarrow> upd (\<lambda>_. n) d
      | None \<Rightarrow> d\<lparr> od_exhausted := True \<rparr>)"

definition free_route_valid :: "addr \<Rightarrow> addr \<Rightarrow> addr \<Rightarrow> bool" where
  "free_route_valid current expected pbuf \<longleftrightarrow> expected \<noteq> 0 \<and> current = expected \<and> pbuf = 0"

definition ro_new :: "nat \<Rightarrow> ro" where
  "ro_new N = \<lparr> ro_descriptors = replicate N 0, ro_netbufs = replicate N 0,
     ro_revisions = replicate N 0, ro_open = replicate N False,
     ro_diag = \<lparr> od_bindings = 0, od_failed_bindings = 0, od_replaced = 0, od_retired = 0,
       od_free_calls = 0, od_capacity_failures = 0, od_matched = 0, od_unmatched = 0,
       od_closed_origin = 0, od_current_origin = 0, od_stale_origin = 0, od_occupied = 0,
       od_peak = 0, od_exhausted = False \<rparr> \<rparr>"

abbreviation ro_on_diag :: "(odiag \<Rightarrow> odiag) \<Rightarrow> ro \<Rightarrow> ro" where
  "ro_on_diag f t \<equiv> t\<lparr> ro_diag := f (ro_diag t) \<rparr>"

text \<open>A row is vacated: the buffer address becomes 0 and the occupied count drops.\<close>

definition ro_vacate :: "nat \<Rightarrow> ro \<Rightarrow> ro" where
  "ro_vacate slot t = t\<lparr> ro_netbufs := (ro_netbufs t)[slot := 0],
     ro_diag := (ro_diag t)\<lparr> od_occupied := od_occupied (ro_diag t) - 1 \<rparr> \<rparr>"

definition ro_supersede :: "addr \<Rightarrow> addr \<Rightarrow> nat \<Rightarrow> ro \<Rightarrow> ro" where
  "ro_supersede descriptor netbuf slot t =
     (if ro_netbufs t ! slot \<noteq> 0
         \<and> (ro_netbufs t ! slot = netbuf \<or> ro_descriptors t ! slot = descriptor)
      then ro_on_diag (ro_increment od_replaced od_replaced_update) (ro_vacate slot t)
      else t)"

definition ro_bind :: "addr \<Rightarrow> addr \<Rightarrow> allocation_epoch \<Rightarrow> u32 \<Rightarrow> ro \<Rightarrow> ro" where
  "ro_bind descriptor netbuf epoch status t0 =
     (let t = fold (ro_supersede descriptor netbuf) [0 ..< length (ro_netbufs t0)] t0
      in if status \<noteq> 0 \<or> descriptor = 0 \<or> netbuf = 0
         then ro_on_diag (ro_increment od_failed_bindings od_failed_bindings_update) t
         else
           (case position (\<lambda>entry. entry = 0) (ro_netbufs t) of
              None \<Rightarrow> ro_on_diag (ro_increment od_capacity_failures od_capacity_failures_update) t
            | Some slot \<Rightarrow>
                t\<lparr> ro_descriptors := (ro_descriptors t)[slot := descriptor],
                   ro_netbufs := (ro_netbufs t)[slot := netbuf],
                   ro_open := (ro_open t)[slot := (ae_revision epoch \<noteq> None)],
                   ro_revisions := (ro_revisions t)[slot := (case ae_revision epoch of None \<Rightarrow> 0 | Some v \<Rightarrow> v)],
                   ro_diag :=
                     (let d = ro_increment od_bindings od_bindings_update (ro_diag t);
                          n = od_occupied d + 1
                      in d\<lparr> od_occupied := n, od_peak := max (od_peak d) n \<rparr>) \<rparr>))"

definition ro_delivered :: "addr \<Rightarrow> allocation_epoch \<Rightarrow> ro \<Rightarrow> ro" where
  "ro_delivered netbuf current t =
     (case position (\<lambda>entry. netbuf \<noteq> 0 \<and> entry = netbuf) (ro_netbufs t) of
        None \<Rightarrow> ro_on_diag (ro_increment od_unmatched od_unmatched_update) t
      | Some slot \<Rightarrow>
         let revision = (if ro_open t ! slot then Some (ro_revisions t ! slot) else None);
             t1 = ro_on_diag (ro_increment od_matched od_matched_update) (ro_vacate slot t)
         in ro_on_diag
              (case revision of
                 None \<Rightarrow> ro_increment od_closed_origin od_closed_origin_update
               | Some v \<Rightarrow>
                   if ae_revision current = Some v
                   then ro_increment od_current_origin od_current_origin_update
                   else ro_increment od_stale_origin od_stale_origin_update) t1)"

definition ro_retire :: "addr \<Rightarrow> nat \<Rightarrow> ro \<Rightarrow> ro" where
  "ro_retire netbuf slot t =
     (if netbuf \<noteq> 0 \<and> ro_netbufs t ! slot = netbuf
      then ro_on_diag (ro_increment od_retired od_retired_update) (ro_vacate slot t)
      else t)"

definition ro_before_free :: "addr \<Rightarrow> ro \<Rightarrow> ro" where
  "ro_before_free netbuf t =
     fold (ro_retire netbuf) [0 ..< length (ro_netbufs t)]
       (ro_on_diag (ro_increment od_free_calls od_free_calls_update) t)"

text \<open>\<open>observe_registration\<close> over the ROM callback table: the stored original free callback and
  the address the table receives (\<open>None\<close>: a null original).\<close>

definition observe_registration ::
  "addr \<Rightarrow> u32 \<Rightarrow> addr \<Rightarrow> addr option \<times> (u32 \<Rightarrow> addr) \<Rightarrow> addr option \<times> (u32 \<Rightarrow> addr)" where
  "observe_registration observer slot callback s =
     (case s of
        (original, table) \<Rightarrow>
          if slot \<noteq> 249 \<or> callback = observer then (original, table(slot := callback))
          else
            let original' = (if callback = 0 then None else Some callback)
            in (original', table(slot := (if original' \<noteq> None then observer else callback))))"

definition validate_free_route :: "addr \<Rightarrow> addr option \<times> (u32 \<Rightarrow> addr) \<Rightarrow> u32 + unit" where
  "validate_free_route observer s =
     (if \<not> free_route_valid (snd s 249) observer (snd s 250) \<or> fst s = None
      then Inl 0x10000012 else Inr ())"

text \<open>\<open>observe_free\<close>: the original vendor free is called once, or an error reported when none is
  published.\<close>

definition observe_free :: "addr option \<Rightarrow> (addr \<Rightarrow> addr \<Rightarrow> u32) \<Rightarrow> addr \<Rightarrow> ro \<Rightarrow> u32 \<times> ro" where
  "observe_free original call netbuf t =
     (case original of
        Some free \<Rightarrow> (call free netbuf, ro_before_free netbuf t)
      | None \<Rightarrow> (0x10000013, ro_before_free netbuf t))"

text \<open>The wrapper of \<open>hh503_rx_set_ctrl_dscr\<close> captures the epoch before the native call, which may
  close the route; \<open>set_ctrl\<close> is that call.\<close>

definition ro_native_bind :: "addr \<Rightarrow> addr \<Rightarrow> (route \<Rightarrow> u32 \<times> route) \<Rightarrow> route \<times> ro \<Rightarrow> u32 \<times> route \<times> ro" where
  "ro_native_bind descriptor netbuf set_ctrl s =
     (case s of
        (r, t) \<Rightarrow>
          let epoch = cr_allocation_epoch r
          in (case set_ctrl r of
                (status, r1) \<Rightarrow> (status, r1, ro_bind descriptor netbuf epoch status t)))"

definition ro_observe_delivery :: "addr \<Rightarrow> route \<times> ro \<Rightarrow> route \<times> ro" where
  "ro_observe_delivery netbuf s = (fst s, ro_delivered netbuf (cr_allocation_epoch (fst s)) (snd s))"

datatype oop = OBind addr addr allocation_epoch u32 | ODelivered addr allocation_epoch | OBeforeFree addr

fun ro_step :: "oop \<Rightarrow> ro \<Rightarrow> ro" where
  "ro_step (OBind d n e s) t = ro_bind d n e s t"
| "ro_step (ODelivered n e) t = ro_delivered n e t"
| "ro_step (OBeforeFree n) t = ro_before_free n t"

section \<open>Invariant\<close>

definition used_rows :: "addr list \<Rightarrow> nat" where
  "used_rows xs = length (filter (\<lambda>x. x \<noteq> 0) xs)"

definition od_balanced :: "odiag \<Rightarrow> bool" where
  "od_balanced d \<longleftrightarrow> od_exhausted d \<or>
     unat (od_bindings d)
       = unat (od_matched d) + unat (od_replaced d) + unat (od_retired d) + od_occupied d
     \<and> unat (od_matched d)
       = unat (od_closed_origin d) + unat (od_current_origin d) + unat (od_stale_origin d)"

definition ro_shape :: "ro \<Rightarrow> bool" where
  "ro_shape t \<longleftrightarrow>
     length (ro_descriptors t) = length (ro_netbufs t)
     \<and> length (ro_revisions t) = length (ro_netbufs t) \<and> length (ro_open t) = length (ro_netbufs t)
     \<and> od_occupied (ro_diag t) = used_rows (ro_netbufs t)
     \<and> od_occupied (ro_diag t) \<le> od_peak (ro_diag t) \<and> od_peak (ro_diag t) \<le> length (ro_netbufs t)"

definition ro_inv :: "ro \<Rightarrow> bool" where
  "ro_inv t \<longleftrightarrow> ro_shape t \<and> od_balanced (ro_diag t)"

lemma used_rows_le: "used_rows xs \<le> length xs"
  by (simp add: used_rows_def)

lemma used_rows_update:
  "i < length xs \<Longrightarrow>
    used_rows (xs[i := y]) + (if xs ! i = 0 then 0 else 1) = used_rows xs + (if y = 0 then 0 else 1)"
proof (induction xs arbitrary: i)
  case (Cons x xs)
  show ?case
  proof (cases i)
    case 0
    then show ?thesis by (simp add: used_rows_def)
  next
    case (Suc j)
    then show ?thesis using Cons.IH [of j] Cons.prems by (auto simp: used_rows_def split: if_splits)
  qed
qed simp

lemma ro_inv_new: "ro_inv (ro_new N)"
  by (simp add: ro_inv_def ro_shape_def ro_new_def used_rows_def od_balanced_def)

text \<open>Counting an event that is not part of the balance.\<close>

lemmas ro_inc_simps = ro_increment_def checked_inc_def

lemma ro_inv_vacate:
  assumes I: "ro_inv t" and i: "slot < length (ro_netbufs t)" "ro_netbufs t ! slot \<noteq> 0"
  shows "length (ro_netbufs (ro_vacate slot t)) = length (ro_netbufs t)
    \<and> od_occupied (ro_diag t) = Suc (od_occupied (ro_diag (ro_vacate slot t)))
    \<and> od_occupied (ro_diag (ro_vacate slot t)) = used_rows (ro_netbufs (ro_vacate slot t))"
  using I used_rows_update [OF i(1), of 0] i(2) by (auto simp: ro_inv_def ro_shape_def ro_vacate_def)

lemma ro_inv_vacate_count:
  assumes I: "ro_inv t" and i: "slot < length (ro_netbufs t)" "ro_netbufs t ! slot \<noteq> 0"
    and f: "(get, upd) = (od_replaced, od_replaced_update) \<or> (get, upd) = (od_retired, od_retired_update)"
  shows "ro_inv (ro_on_diag (ro_increment get upd) (ro_vacate slot t))
    \<and> length (ro_netbufs (ro_on_diag (ro_increment get upd) (ro_vacate slot t))) = length (ro_netbufs t)"
proof -
  have v: "od_occupied (ro_diag t) = Suc (used_rows ((ro_netbufs t)[slot := 0]))"
    using ro_inv_vacate [OF I i] by (simp add: ro_vacate_def)
  show ?thesis using I f v
    by (auto simp: ro_inv_def ro_shape_def od_balanced_def ro_vacate_def ro_inc_simps unat_inc)
qed

lemma ro_inv_supersede:
  "\<lbrakk> ro_inv t; slot < length (ro_netbufs t) \<rbrakk>
    \<Longrightarrow> ro_inv (ro_supersede d n slot t) \<and> length (ro_netbufs (ro_supersede d n slot t)) = length (ro_netbufs t)"
  using ro_inv_vacate_count [of t slot od_replaced od_replaced_update] by (simp add: ro_supersede_def)

lemma ro_inv_retire:
  "\<lbrakk> ro_inv t; slot < length (ro_netbufs t) \<rbrakk>
    \<Longrightarrow> ro_inv (ro_retire n slot t) \<and> length (ro_netbufs (ro_retire n slot t)) = length (ro_netbufs t)"
  using ro_inv_vacate_count [of t slot od_retired od_retired_update] by (simp add: ro_retire_def)

lemma ro_inv_fold:
  assumes f: "\<And>slot t. \<lbrakk> ro_inv t; slot < length (ro_netbufs t) \<rbrakk>
      \<Longrightarrow> ro_inv (f slot t) \<and> length (ro_netbufs (f slot t)) = length (ro_netbufs t)"
  shows "\<lbrakk> ro_inv t; \<forall>slot \<in> set slots. slot < length (ro_netbufs t) \<rbrakk> \<Longrightarrow> ro_inv (fold f slots t)"
  by (induction slots arbitrary: t) (auto simp: f)

lemma ro_inv_bind: "ro_inv t \<Longrightarrow> ro_inv (ro_bind d n e s t)"
proof -
  assume "ro_inv t"
  then have I: "ro_inv (fold (ro_supersede d n) [0 ..< length (ro_netbufs t)] t)"
    by (intro ro_inv_fold ro_inv_supersede) auto
  define u where "u = fold (ro_supersede d n) [0 ..< length (ro_netbufs t)] t"
  have other: "ro_inv (ro_on_diag (ro_increment get upd) u)"
    if "(get, upd) = (od_failed_bindings, od_failed_bindings_update)
      \<or> (get, upd) = (od_capacity_failures, od_capacity_failures_update)" for get upd
    using I that unfolding u_def [symmetric] by (auto simp: ro_inv_def ro_shape_def od_balanced_def ro_inc_simps)
  show ?thesis
  proof (cases "s \<noteq> 0 \<or> d = 0 \<or> n = 0")
    case True
    then show ?thesis using other unfolding ro_bind_def u_def [symmetric] Let_def by simp
  next
    case False
    show ?thesis
    proof (cases "position (\<lambda>entry. entry = 0) (ro_netbufs u)")
      case None
      then show ?thesis using other False unfolding ro_bind_def u_def [symmetric] Let_def by simp
    next
      case (Some slot)
      have p: "slot < length (ro_netbufs u)" "ro_netbufs u ! slot = 0" using position_Some [OF Some] by auto
      have occ: "used_rows ((ro_netbufs u)[slot := n]) = Suc (used_rows (ro_netbufs u))"
        using used_rows_update [OF p(1), of n] p(2) False by simp
      have le: "Suc (used_rows (ro_netbufs u)) \<le> length (ro_netbufs u)"
        using used_rows_le [of "(ro_netbufs u)[slot := n]"] occ by simp
      show ?thesis using I Some False occ le unfolding ro_bind_def u_def [symmetric] Let_def
        by (auto simp: ro_inv_def ro_shape_def od_balanced_def ro_inc_simps unat_inc)
    qed
  qed
qed

text \<open>Between counting a match and counting its origin.\<close>

definition ro_half :: "ro \<Rightarrow> bool" where
  "ro_half t \<longleftrightarrow> ro_shape t
     \<and> (od_exhausted (ro_diag t) \<or>
     unat (od_bindings (ro_diag t)) = unat (od_matched (ro_diag t)) + unat (od_replaced (ro_diag t))
       + unat (od_retired (ro_diag t)) + od_occupied (ro_diag t)
     \<and> unat (od_matched (ro_diag t)) = Suc (unat (od_closed_origin (ro_diag t))
       + unat (od_current_origin (ro_diag t)) + unat (od_stale_origin (ro_diag t))))"

lemma ro_half_origin:
  assumes "ro_half t"
  shows "ro_inv (ro_on_diag (ro_increment od_closed_origin od_closed_origin_update) t)"
    and "ro_inv (ro_on_diag (ro_increment od_current_origin od_current_origin_update) t)"
    and "ro_inv (ro_on_diag (ro_increment od_stale_origin od_stale_origin_update) t)"
  using assms by (auto simp: ro_half_def ro_inv_def ro_shape_def od_balanced_def ro_inc_simps unat_inc)

lemma ro_inv_delivered: "ro_inv t \<Longrightarrow> ro_inv (ro_delivered n e t)"
proof -
  assume I: "ro_inv t"
  show ?thesis
  proof (cases "position (\<lambda>entry. n \<noteq> 0 \<and> entry = n) (ro_netbufs t)")
    case None
    then show ?thesis using I by (auto simp: ro_delivered_def ro_inv_def ro_shape_def od_balanced_def ro_inc_simps)
  next
    case (Some slot)
    have p: "slot < length (ro_netbufs t)" "ro_netbufs t ! slot \<noteq> 0" using position_Some [OF Some] by auto
    have v: "od_occupied (ro_diag t) = Suc (used_rows ((ro_netbufs t)[slot := 0]))"
      using ro_inv_vacate [OF I p] by (simp add: ro_vacate_def)
    let ?t1 = "ro_on_diag (ro_increment od_matched od_matched_update) (ro_vacate slot t)"
    have h: "ro_half ?t1"
      using I v by (auto simp: ro_half_def ro_inv_def ro_shape_def od_balanced_def ro_vacate_def ro_inc_simps unat_inc)
    show ?thesis unfolding ro_delivered_def Some Let_def option.case
      using ro_half_origin [OF h] by (auto split: option.split)
  qed
qed

lemma ro_inv_before_free: "ro_inv t \<Longrightarrow> ro_inv (ro_before_free n t)"
proof -
  assume "ro_inv t"
  then have "ro_inv (ro_on_diag (ro_increment od_free_calls od_free_calls_update) t)"
    by (auto simp: ro_inv_def ro_shape_def od_balanced_def ro_inc_simps)
  then show ?thesis unfolding ro_before_free_def
    by (intro ro_inv_fold ro_inv_retire) auto
qed

interpretation rx_origin: machine ro_step ro_inv
proof unfold_locales
  fix t a
  assume "ro_inv t"
  then show "ro_inv (ro_step a t)"
    by (cases a) (simp_all add: ro_inv_bind ro_inv_delivered ro_inv_before_free)
qed

section \<open>Properties\<close>

text \<open>C12: The census never loses a binding: after every sequence of bindings, deliveries and
  frees, and until a counter is exhausted, every binding is matched, replaced, retired or still
  occupied, and every match has exactly one origin; the occupied count is the number of used rows and
  stays within the table.\<close>

theorem rx_origin_census:
  "let t = fold ro_step ops (ro_new N); d = ro_diag t in
     (od_exhausted d
      \<or> unat (od_bindings d)
          = unat (od_matched d) + unat (od_replaced d) + unat (od_retired d) + od_occupied d
        \<and> unat (od_matched d)
          = unat (od_closed_origin d) + unat (od_current_origin d) + unat (od_stale_origin d))
     \<and> od_occupied d = used_rows (ro_netbufs t) \<and> od_occupied d \<le> od_peak d
     \<and> od_peak d \<le> length (ro_netbufs t)"
  using rx_origin.run_inv [OF ro_inv_new, of ops N] unfolding ro_inv_def ro_shape_def od_balanced_def Let_def by blast

end
