(* ===== verification/RxStop.thy ===== *)
theory RxStop
  imports Prelude
begin

text \<open>
  The one-shot native receive stop (\<open>src/src/netif_l2/rx_stop.rs\<close>) and its descriptor
  round trip (\<open>src/src/netif_l2/rx_stop/rebuild.rs\<close>).

  \<open>rxs\<close> is the transaction shared by the waiter and the device worker; its methods are
  atomic.  The vendor functions are fields of \<open>stop_hw\<close> over an abstract hardware state, and
  the clock is the sequence of its readings.  The waiter's loop reads a list of turns, each
  with what the worker did in between.
\<close>

section \<open>Descriptor round trip\<close>

definition rb_PRECONDITION :: i32 where "rb_PRECONDITION = - 0x1025"
definition rb_INCOMPLETE :: i32 where "rb_INCOMPLETE = - 0x1026"
definition rb_CONFIG_CHANGED :: i32 where "rb_CONFIG_CHANGED = - 0x1027"
definition rb_CLEANUP :: i32 where "rb_CLEANUP = - 0x1028"

definition rx_CONTRACT :: i32 where "rx_CONTRACT = - 0x1020"
definition rx_TIMEOUT :: i32 where "rx_TIMEOUT = - 0x1021"
definition rx_MAC_ENABLED :: i32 where "rx_MAC_ENABLED = - 0x1022"
definition rx_DESCRIPTORS_REMAIN :: i32 where "rx_DESCRIPTORS_REMAIN = - 0x1023"
definition rx_QUEUED_RX :: i32 where "rx_QUEUED_RX = - 0x1024"
definition rx_DEADLINE_MS :: u64 where "rx_DEADLINE_MS = 1000"

lemmas rx_codes = rb_PRECONDITION_def rb_INCOMPLETE_def rb_CONFIG_CHANGED_def rb_CLEANUP_def
  rx_CONTRACT_def rx_TIMEOUT_def rx_MAC_ENABLED_def rx_DESCRIPTORS_REMAIN_def rx_QUEUED_RX_def

record rb_counts =
  rc_actual :: "u16 list"
  rc_expected :: "u16 list"

record rb_diag =
  rb_expected :: "u16 list"
  rb_actual :: "u16 list"
  rb_cleaned :: "u16 list"
  rb_mac_after_init :: u8
  rb_mac_after_cleanup :: u8
  rb_attempted :: bool
  rb_cleanup_attempted :: bool
  rb_init_status :: i32
  rb_cleanup_status :: i32
  rb_fault :: i32

definition rb_default :: rb_diag where
  "rb_default = \<lparr> rb_expected = [0, 0, 0], rb_actual = [0, 0, 0], rb_cleaned = [0, 0, 0],
     rb_mac_after_init = 0, rb_mac_after_cleanup = 0, rb_attempted = False,
     rb_cleanup_attempted = False, rb_init_status = 0, rb_cleanup_status = 0, rb_fault = 0 \<rparr>"

record 'h descriptor_ops =
  do_counts :: "'h \<Rightarrow> rb_counts"
  do_mac_enabled :: "'h \<Rightarrow> u8"
  do_initialize :: "'h \<Rightarrow> i32 \<times> 'h"
  do_disable :: "'h \<Rightarrow> 'h"
  do_destroy :: "'h \<Rightarrow> i32 \<times> 'h"

definition rb_probe :: "'h descriptor_ops \<Rightarrow> 'h \<Rightarrow> rb_diag \<times> 'h" where
  "rb_probe ops h0 =
     (let before = do_counts ops h0;
          r0 = rb_default\<lparr> rb_expected := rc_expected before, rb_mac_after_init := 0xff,
                           rb_mac_after_cleanup := 0xff \<rparr>
      in if rc_actual before \<noteq> [0, 0, 0] \<or> rc_expected before = [0, 0, 0] \<or> do_mac_enabled ops h0 \<noteq> 0
         then (r0\<lparr> rb_fault := rb_PRECONDITION \<rparr>, h0)
         else
           let (init_status, h1) = do_initialize ops h0;
               mac_after_init = do_mac_enabled ops h1;
               after = do_counts ops h1;
               fault1 = (if init_status \<noteq> 0 then init_status
                         else if mac_after_init \<noteq> 0 then rx_MAC_ENABLED
                         else if rc_expected after \<noteq> rc_expected before then rb_CONFIG_CHANGED
                         else if rc_actual after \<noteq> rc_expected before then rb_INCOMPLETE
                         else 0);
               h2 = do_disable ops h1;
               (cleanup_attempted, cleanup_status, h3) =
                 (if do_mac_enabled ops h2 = 0
                  then (case do_destroy ops h2 of (s, h) \<Rightarrow> (True, s, h))
                  else (False, rx_MAC_ENABLED, h2));
               mac_after_cleanup = do_mac_enabled ops h3;
               final_counts = do_counts ops h3;
               fault2 = (if fault1 = 0
                         then (if cleanup_status \<noteq> 0 then cleanup_status
                               else if mac_after_cleanup \<noteq> 0 \<or> rc_actual final_counts \<noteq> [0, 0, 0]
                               then rb_CLEANUP
                               else if rc_expected final_counts \<noteq> rc_expected before then rb_CONFIG_CHANGED
                               else 0)
                         else fault1)
           in (r0\<lparr> rb_attempted := True, rb_init_status := init_status,
                   rb_mac_after_init := mac_after_init, rb_actual := rc_actual after,
                   rb_cleanup_attempted := cleanup_attempted, rb_cleanup_status := cleanup_status,
                   rb_mac_after_cleanup := mac_after_cleanup, rb_cleaned := rc_actual final_counts,
                   rb_fault := fault2 \<rparr>, h3))"

section \<open>Transaction\<close>

datatype checkpoint = Entered | Disabled | Destroyed | Initialized | Cleaned | Finished | Posted | Observed

fun checkpoint_index :: "checkpoint \<Rightarrow> nat" where
  "checkpoint_index Entered = 0"
| "checkpoint_index Disabled = 1"
| "checkpoint_index Destroyed = 2"
| "checkpoint_index Initialized = 3"
| "checkpoint_index Cleaned = 4"
| "checkpoint_index Finished = 5"
| "checkpoint_index Posted = 6"
| "checkpoint_index Observed = 7"

definition same_worker :: "u32 \<Rightarrow> u32 option \<Rightarrow> bool" where
  "same_worker expected current \<longleftrightarrow> expected \<noteq> 0 \<and> expected \<noteq> - 1 \<and> current = Some expected"

datatype rx_phase = Idle | Requested | Executing | Returned

record rxs_diag =
  xd_installed :: bool
  xd_requested :: bool
  xd_entered :: bool
  xd_returned :: bool
  xd_post_returned :: bool
  xd_mac_before :: u8
  xd_mac_after :: u8
  xd_descriptors_empty :: u8
  xd_native_status :: i32
  xd_fault :: i32
  xd_expected_task :: u32
  xd_current_task :: u32
  xd_rebuild :: rb_diag
  xd_timings :: "u32 list"

record rxs =
  rxs_phase :: rx_phase
  rxs_diag :: rxs_diag
  rxs_started_ms :: u64

definition rxs_new :: rxs where
  "rxs_new = \<lparr> rxs_phase = Idle,
     rxs_diag = \<lparr> xd_installed = False, xd_requested = False, xd_entered = False, xd_returned = False,
       xd_post_returned = False, xd_mac_before = 0xff, xd_mac_after = 0xff, xd_descriptors_empty = 0xff,
       xd_native_status = 0, xd_fault = 0, xd_expected_task = 0, xd_current_task = 0,
       xd_rebuild = rb_default\<lparr> rb_mac_after_init := 0xff, rb_mac_after_cleanup := 0xff \<rparr>,
       xd_timings = replicate 8 (- 1) \<rparr>,
     rxs_started_ms = 0 \<rparr>"

abbreviation rxs_on_diag :: "(rxs_diag \<Rightarrow> rxs_diag) \<Rightarrow> rxs \<Rightarrow> rxs" where
  "rxs_on_diag f t \<equiv> t\<lparr> rxs_diag := f (rxs_diag t) \<rparr>"

definition rxs_fail :: "i32 \<Rightarrow> rxs \<Rightarrow> i32 \<times> rxs" where
  "rxs_fail status t =
     (let t1 = rxs_on_diag (\<lambda>d. d\<lparr> xd_fault := (if xd_fault d = 0 then status else xd_fault d) \<rparr>) t
      in (xd_fault (rxs_diag t1), t1))"

definition rxs_request :: "rxs \<Rightarrow> (i32 + unit) \<times> rxs" where
  "rxs_request t =
     (if \<not> xd_installed (rxs_diag t) \<or> rxs_phase t \<noteq> Idle \<or> xd_fault (rxs_diag t) \<noteq> 0
      then apfst Inl (rxs_fail rx_CONTRACT t)
      else (Inr (), rxs_on_diag (\<lambda>d. d\<lparr> xd_requested := True \<rparr>) (t\<lparr> rxs_phase := Requested \<rparr>)))"

definition rxs_request_at :: "u64 \<Rightarrow> rxs \<Rightarrow> (i32 + unit) \<times> rxs" where
  "rxs_request_at started_ms t =
     (case rxs_request t of
        (Inl e, t1) \<Rightarrow> (Inl e, t1)
      | (Inr u, t1) \<Rightarrow> (Inr u, t1\<lparr> rxs_started_ms := started_ms \<rparr>))"

definition rxs_check_deadline :: "u64 option \<Rightarrow> rxs \<Rightarrow> (i32 + unit) \<times> rxs" where
  "rxs_check_deadline now t =
     (if xd_fault (rxs_diag t) \<noteq> 0 then (Inl (xd_fault (rxs_diag t)), t)
      else if \<not> xd_requested (rxs_diag t) then apfst Inl (rxs_fail rx_CONTRACT t)
      else
        (case now of
           None \<Rightarrow> apfst Inl (rxs_fail rx_CONTRACT t)
         | Some n \<Rightarrow>
            (if rxs_started_ms t \<le> n \<and> n - rxs_started_ms t < rx_DEADLINE_MS then (Inr (), t)
             else apfst Inl (rxs_fail rx_TIMEOUT t))))"

definition rxs_elapsed :: "u64 option \<Rightarrow> rxs \<Rightarrow> u32" where
  "rxs_elapsed now t =
     (case now of
        None \<Rightarrow> - 1
      | Some n \<Rightarrow>
         (if rxs_started_ms t \<le> n
          then (let elapsed = n - rxs_started_ms t
                in if elapsed \<le> 0xffffffff then ucast elapsed else - 1)
          else - 1))"

definition rxs_observe :: "checkpoint \<Rightarrow> u64 option \<Rightarrow> rxs \<Rightarrow> rxs" where
  "rxs_observe c now t =
     (if xd_requested (rxs_diag t) \<and> xd_timings (rxs_diag t) ! checkpoint_index c = - 1
      then rxs_on_diag (\<lambda>d. d\<lparr> xd_timings := (xd_timings d)[checkpoint_index c := rxs_elapsed now t] \<rparr>) t
      else t)"

definition rxs_enter :: "rxs \<Rightarrow> (i32 + unit) \<times> rxs" where
  "rxs_enter t =
     (if rxs_phase t \<noteq> Requested \<or> xd_fault (rxs_diag t) \<noteq> 0
      then apfst Inl (rxs_fail rx_CONTRACT t)
      else (Inr (), rxs_on_diag (\<lambda>d. d\<lparr> xd_entered := True \<rparr>) (t\<lparr> rxs_phase := Executing \<rparr>)))"

definition rxs_enter_at :: "u64 option \<Rightarrow> rxs \<Rightarrow> (i32 + unit) \<times> rxs" where
  "rxs_enter_at now t =
     (case rxs_check_deadline now (rxs_observe Entered now t) of
        (Inl e, t1) \<Rightarrow> (Inl e, t1)
      | (Inr _, t1) \<Rightarrow> rxs_enter t1)"

definition rxs_may_rebuild :: "rxs \<Rightarrow> bool" where
  "rxs_may_rebuild t \<longleftrightarrow> rxs_phase t = Executing \<and> xd_fault (rxs_diag t) = 0"

definition rxs_may_rebuild_at :: "u64 option \<Rightarrow> rxs \<Rightarrow> bool \<times> rxs" where
  "rxs_may_rebuild_at now t =
     (case rxs_check_deadline now t of
        (Inl _, t1) \<Rightarrow> (False, t1)
      | (Inr _, t1) \<Rightarrow> (rxs_may_rebuild t1, t1))"

definition rxs_post_returned :: "i32 \<Rightarrow> rxs \<Rightarrow> rxs" where
  "rxs_post_returned status t =
     (let t1 = (if xd_post_returned (rxs_diag t) \<or> \<not> xd_requested (rxs_diag t)
                then snd (rxs_fail rx_CONTRACT t) else t);
          t2 = rxs_on_diag (\<lambda>d. d\<lparr> xd_post_returned := True \<rparr>) t1
      in if status \<noteq> 0 then snd (rxs_fail status t2) else t2)"

definition rxs_finish :: "u8 \<Rightarrow> u8 \<Rightarrow> u8 \<Rightarrow> i32 \<Rightarrow> rxs \<Rightarrow> rxs" where
  "rxs_finish before after emptied status t =
     (if rxs_phase t \<noteq> Executing then snd (rxs_fail rx_CONTRACT t)
      else
        let t1 = rxs_on_diag (\<lambda>d. d\<lparr> xd_returned := True, xd_mac_before := before,
                   xd_mac_after := after, xd_descriptors_empty := emptied, xd_native_status := status \<rparr>)
                   (t\<lparr> rxs_phase := Returned \<rparr>)
        in if status \<noteq> 0 then snd (rxs_fail status t1)
           else if after \<noteq> 0 then snd (rxs_fail rx_MAC_ENABLED t1)
           else if emptied \<noteq> 1 then snd (rxs_fail rx_DESCRIPTORS_REMAIN t1)
           else t1)"

definition rxs_finish_at :: "u64 option \<Rightarrow> u8 \<Rightarrow> u8 \<Rightarrow> u8 \<Rightarrow> i32 \<Rightarrow> rxs \<Rightarrow> rxs" where
  "rxs_finish_at now before after emptied status t =
     rxs_finish before after emptied status (snd (rxs_check_deadline now (rxs_observe Finished now t)))"

definition rxs_result :: "rxs \<Rightarrow> i32 + bool" where
  "rxs_result t =
     (if xd_fault (rxs_diag t) \<noteq> 0 then Inl (xd_fault (rxs_diag t))
      else Inr (rxs_phase t = Returned \<and> xd_post_returned (rxs_diag t)))"

definition rxs_result_at :: "u64 option \<Rightarrow> rxs \<Rightarrow> (i32 + bool) \<times> rxs" where
  "rxs_result_at now t =
     (case rxs_check_deadline now t of
        (r, t1) \<Rightarrow>
          let result = (case r of Inl e \<Rightarrow> Inl e | Inr _ \<Rightarrow> rxs_result t1)
          in (result, if result \<noteq> Inr False then rxs_observe Observed now t1 else t1))"

section \<open>Native side\<close>

text \<open>Installation: the message table of the device framework is read through its control prefix
  (\<open>control\<close>, absent for a null pointer); \<open>register\<close> returns its status.\<close>

definition rx_MESSAGE :: u16 where "rx_MESSAGE = 91"

record control_prefix =
  cp_minimum :: u16
  cp_maximum :: u16
  cp_table :: "(nat \<Rightarrow> addr) option"

definition installed_handler :: "control_prefix option \<Rightarrow> i32 + addr" where
  "installed_handler control =
     (case control of
        None \<Rightarrow> Inl rx_CONTRACT
      | Some c \<Rightarrow>
         (if rx_MESSAGE < cp_minimum c \<or> rx_MESSAGE \<ge> cp_maximum c then Inl rx_CONTRACT
          else (case cp_table c of
                  None \<Rightarrow> Inl rx_CONTRACT
                | Some table \<Rightarrow> Inr (table (unat (rx_MESSAGE - cp_minimum c))))))"

definition rxs_install ::
  "('f \<Rightarrow> control_prefix option) \<Rightarrow> ('f \<Rightarrow> 'f) \<Rightarrow> ('f \<Rightarrow> u32 \<times> 'f) \<Rightarrow> addr \<Rightarrow> addr \<Rightarrow> 'f \<times> rxs
    \<Rightarrow> (u32 + unit) \<times> 'f \<times> rxs" where
  "rxs_install control unregister register original replacement s =
     (case s of
        (f, t) \<Rightarrow>
         (case installed_handler (control f) of
            Inl e \<Rightarrow> (Inl (word_of_int e), f, t)
          | Inr h \<Rightarrow>
             (if h \<noteq> original then (Inl (word_of_int rx_CONTRACT), f, t)
              else
                (case register (unregister f) of
                   (status, f1) \<Rightarrow>
                     (if status \<noteq> 0 then (Inl (word_of_int rx_CONTRACT), f1, t)
                      else
                        (case installed_handler (control f1) of
                           Inl e \<Rightarrow> (Inl (word_of_int e), f1, t)
                         | Inr h1 \<Rightarrow>
                             if h1 \<noteq> replacement then (Inl (word_of_int rx_CONTRACT), f1, t)
                             else (Inr (), f1, rxs_on_diag (\<lambda>d. d\<lparr> xd_installed := True \<rparr>) t)))))))"

text \<open>What the handler reads of the vendor's device structure, and the vendor functions.\<close>

record device_prefix =
  dp_rx_counts :: "u16 list"
  dp_normal :: u16
  dp_small :: u16
  dp_high :: u16

definition native_counts :: "device_prefix \<Rightarrow> rb_counts" where
  "native_counts d = \<lparr> rc_actual = [dp_rx_counts d ! 0, dp_rx_counts d ! 1, dp_rx_counts d ! 2],
                       rc_expected = [dp_normal d, dp_high d, dp_small d] \<rparr>"

record 'h stop_hw =
  sh_prefix :: "'h \<Rightarrow> device_prefix"
  sh_mac_enabled :: "'h \<Rightarrow> u8"
  sh_disable :: "'h \<Rightarrow> 'h"
  sh_destroy :: "'h \<Rightarrow> i32 \<times> 'h"
  sh_init :: "'h \<Rightarrow> i32 \<times> 'h"
  sh_device_present :: "'h \<Rightarrow> bool"
  sh_queue_empty :: "'h \<Rightarrow> u8"
  sh_thruput :: "'h \<Rightarrow> u8"
  sh_device_task :: "'h \<Rightarrow> u32"

text \<open>A critical section of the handler: \<open>other k\<close> is what the waiter did to the shared
  transaction before the handler's k-th one, \<open>clock k\<close> the time read for it.\<close>

definition native_observe ::
  "(nat \<Rightarrow> u64 option) \<Rightarrow> (nat \<Rightarrow> rxs \<Rightarrow> rxs) \<Rightarrow> nat \<Rightarrow> checkpoint \<Rightarrow> rxs \<Rightarrow> rxs" where
  "native_observe clock other k c t = rxs_observe c (clock k) (other k t)"

definition native_descriptors ::
  "'h stop_hw \<Rightarrow> (nat \<Rightarrow> u64 option) \<Rightarrow> (nat \<Rightarrow> rxs \<Rightarrow> rxs) \<Rightarrow> (rxs \<times> 'h) descriptor_ops" where
  "native_descriptors hw clock other =
     \<lparr> do_counts = (\<lambda>s. native_counts (sh_prefix hw (snd s))),
       do_mac_enabled = (\<lambda>s. sh_mac_enabled hw (snd s)),
       do_initialize = (\<lambda>s. case sh_init hw (snd s) of
          (st, h) \<Rightarrow> (st, native_observe clock other 6 Initialized (fst s), h)),
       do_disable = (\<lambda>s. (fst s, sh_disable hw (snd s))),
       do_destroy = (\<lambda>s. case sh_destroy hw (snd s) of
          (st, h) \<Rightarrow> (st, native_observe clock other 7 Cleaned (fst s), h)) \<rparr>"

text \<open>The message: its length field and, unless the data pointer is null, the two words there.\<close>

definition rx_COMMAND :: "u32 \<times> u32" where "rx_COMMAND = (0x3058524e, 1)"

definition rxs_matches :: "(u16 \<times> (u32 \<times> u32) option) option \<Rightarrow> bool" where
  "rxs_matches msg =
     (case msg of None \<Rightarrow> False | Some (data_len, data) \<Rightarrow> data_len = 8 \<and> data = Some rx_COMMAND)"

text \<open>The end of the handler: the optional report and \<open>finish_at\<close> in one critical section.\<close>

definition rxs_handler_finish ::
  "u64 option \<Rightarrow> rb_diag option \<Rightarrow> u8 \<Rightarrow> u8 \<Rightarrow> u8 \<Rightarrow> i32 \<Rightarrow> rxs \<Rightarrow> rxs" where
  "rxs_handler_finish now rebuild before after emptied status t =
     rxs_finish_at now before after emptied status
       (case rebuild of
          None \<Rightarrow> t
        | Some report \<Rightarrow>
            let t1 = rxs_on_diag (\<lambda>d. d\<lparr> xd_rebuild := report \<rparr>) t
            in if rb_fault report \<noteq> 0 then snd (rxs_fail (rb_fault report) t1) else t1)"

text \<open>The destructive part, after the guards have passed, from its end: the round trip if the
  transaction allows it, the inspection of the stopped device, the stop itself.\<close>

definition rxs_handler_rebuild ::
  "'h stop_hw \<Rightarrow> (nat \<Rightarrow> u64 option) \<Rightarrow> (nat \<Rightarrow> rxs \<Rightarrow> rxs) \<Rightarrow> u8 \<Rightarrow> u8 \<Rightarrow> u8 \<Rightarrow> i32
    \<Rightarrow> bool \<times> rxs \<Rightarrow> 'h \<Rightarrow> i32 \<times> rxs \<times> 'h" where
  "rxs_handler_rebuild hw clock other before after emptied status m h2 =
     (case (if fst m
            then (case rb_probe (native_descriptors hw clock other) (snd m, h2) of
                    (report, s3) \<Rightarrow> (Some report, s3))
            else (None, snd m, h2)) of
        (rebuild, t4, h3) \<Rightarrow>
          (case rxs_handler_finish (clock 8) rebuild before after emptied status (other 8 t4) of
             t5 \<Rightarrow> (xd_fault (rxs_diag t5), t5, h3)))"

definition rxs_handler_inspect ::
  "'h stop_hw \<Rightarrow> (nat \<Rightarrow> u64 option) \<Rightarrow> (nat \<Rightarrow> rxs \<Rightarrow> rxs) \<Rightarrow> u8 \<Rightarrow> rxs \<Rightarrow> i32 \<times> 'h \<Rightarrow> i32 \<times> rxs \<times> 'h" where
  "rxs_handler_inspect hw clock other before t2 r =
     (case r of
        (status, h2) \<Rightarrow>
          if \<not> sh_device_present hw h2
          then (case rxs_fail rx_CONTRACT (other 5 t2) of (e, t3) \<Rightarrow> (e, t3, h2))
          else rxs_handler_rebuild hw clock other before (sh_mac_enabled hw h2) (sh_queue_empty hw h2) status
                 (if status = 0 \<and> sh_mac_enabled hw h2 = 0 \<and> sh_queue_empty hw h2 = 1
                  then rxs_may_rebuild_at (clock 5) (other 5 t2) else (False, t2)) h2)"

definition rxs_handler_stop ::
  "'h stop_hw \<Rightarrow> (nat \<Rightarrow> u64 option) \<Rightarrow> (nat \<Rightarrow> rxs \<Rightarrow> rxs) \<Rightarrow> rxs \<times> 'h \<Rightarrow> i32 \<times> rxs \<times> 'h" where
  "rxs_handler_stop hw clock other s =
     (let h1 = sh_disable hw (snd s);
          t1 = native_observe clock other 3 Disabled (fst s)
      in rxs_handler_inspect hw clock other (sh_mac_enabled hw (snd s))
           (native_observe clock other 4 Destroyed t1)
           (if sh_mac_enabled hw h1 = 0 then sh_destroy hw h1 else (rx_MAC_ENABLED, h1)))"

text \<open>The message handler; \<open>rejected\<close>: a queued receive was refused before.\<close>

definition rxs_handler ::
  "'h stop_hw \<Rightarrow> (nat \<Rightarrow> u64 option) \<Rightarrow> (nat \<Rightarrow> rxs \<Rightarrow> rxs) \<Rightarrow> bool \<Rightarrow> u32 option
    \<Rightarrow> (u16 \<times> (u32 \<times> u32) option) option \<Rightarrow> rxs \<times> 'h \<Rightarrow> i32 \<times> rxs \<times> 'h" where
  "rxs_handler hw clock other rejected current msg s =
     (if \<not> rxs_matches msg then (case sh_destroy hw (snd s) of (st, h) \<Rightarrow> (st, fst s, h))
      else
       (case rxs_enter_at (clock 0) (other 0 (fst s)) of
          (Inl e, t1) \<Rightarrow> (e, t1, snd s)
        | (Inr _, t1) \<Rightarrow>
           let device_task = sh_device_task hw (snd s);
               t2 = rxs_on_diag (\<lambda>d. d\<lparr> xd_expected_task := device_task,
                      xd_current_task := (case current of None \<Rightarrow> - 1 | Some c \<Rightarrow> c) \<rparr>) (other 1 t1)
           in if \<not> same_worker device_task current
              then (case rxs_fail rx_CONTRACT (other 2 t2) of (e, t3) \<Rightarrow> (e, t3, snd s))
              else if rejected \<or> sh_thruput hw (snd s) \<noteq> 0
              then (case rxs_fail rx_QUEUED_RX (other 2 t2) of (e, t3) \<Rightarrow> (e, t3, snd s))
              else
               (case rxs_check_deadline (clock 2) (other 2 t2) of
                  (Inl e, t3) \<Rightarrow> (e, t3, snd s)
                | (Inr _, t3) \<Rightarrow> rxs_handler_stop hw clock other (t3, snd s))))"

text \<open>The waiter: \<open>queued\<close> is the mode check before the request, \<open>send\<close> the message post (the worker
  may already run in it), each turn of the loop starts with what the worker did since the last one.\<close>

fun rxs_wait_loop :: "((rxs \<Rightarrow> rxs) \<times> u64 option \<times> bool) list \<Rightarrow> rxs \<Rightarrow> ((i32 + unit) \<times> rxs) option" where
  "rxs_wait_loop [] t = None"
| "rxs_wait_loop ((between, now, slept) # rest) t =
     (case rxs_result_at now (between t) of
        (Inl e, t1) \<Rightarrow> Some (Inl e, t1)
      | (Inr True, t1) \<Rightarrow> Some (Inr (), t1)
      | (Inr False, t1) \<Rightarrow> (if slept then rxs_wait_loop rest t1 else Some (Inl rx_CONTRACT, t1)))"

definition rxs_stop_and_wait ::
  "bool \<Rightarrow> u64 option \<Rightarrow> (rxs \<Rightarrow> i32 \<times> rxs) \<Rightarrow> u64 option \<Rightarrow> ((rxs \<Rightarrow> rxs) \<times> u64 option \<times> bool) list
    \<Rightarrow> rxs \<Rightarrow> ((i32 + unit) \<times> rxs) option" where
  "rxs_stop_and_wait queued clock send posted turns t =
     (if queued then Some (Inl rx_QUEUED_RX, t)
      else
        (case clock of
           None \<Rightarrow> Some (Inl rx_CONTRACT, t)
         | Some started \<Rightarrow>
            (case rxs_request_at started t of
               (Inl e, t1) \<Rightarrow> Some (Inl e, t1)
             | (Inr _, t1) \<Rightarrow>
                (case send t1 of
                   (status, t2) \<Rightarrow>
                     rxs_wait_loop turns (rxs_post_returned status (rxs_observe Posted posted t2))))))"

text \<open>\<open>late\<close>: what the worker does before the error is recorded.\<close>

definition rxs_stop_once ::
  "bool \<Rightarrow> u64 option \<Rightarrow> (rxs \<Rightarrow> i32 \<times> rxs) \<Rightarrow> u64 option \<Rightarrow> ((rxs \<Rightarrow> rxs) \<times> u64 option \<times> bool) list
    \<Rightarrow> (rxs \<Rightarrow> rxs) \<Rightarrow> rxs \<Rightarrow> ((i32 + unit) \<times> rxs) option" where
  "rxs_stop_once queued clock send posted turns late t =
     (case rxs_stop_and_wait queued clock send posted turns t of
        None \<Rightarrow> None
      | Some (Inl status, t1) \<Rightarrow> Some (Inl status, snd (rxs_fail status (late t1)))
      | Some (Inr u, t1) \<Rightarrow> Some (Inr u, t1))"

text \<open>The atomic steps of the transaction.\<close>

datatype xop = XInstall | XRequest u64 | XEnter "u64 option" | XMayRebuild "u64 option"
  | XFinish "u64 option" u8 u8 u8 i32 | XPostReturned i32 | XResult "u64 option"
  | XMark checkpoint "u64 option" | XFail i32 | XReport rb_diag

fun rxs_step :: "xop \<Rightarrow> rxs \<Rightarrow> rxs" where
  "rxs_step XInstall t = rxs_on_diag (\<lambda>d. d\<lparr> xd_installed := True \<rparr>) t"
| "rxs_step (XRequest s) t = snd (rxs_request_at s t)"
| "rxs_step (XEnter now) t = snd (rxs_enter_at now t)"
| "rxs_step (XMayRebuild now) t = snd (rxs_may_rebuild_at now t)"
| "rxs_step (XFinish now b a e s) t = rxs_finish_at now b a e s t"
| "rxs_step (XPostReturned s) t = rxs_post_returned s t"
| "rxs_step (XResult now) t = snd (rxs_result_at now t)"
| "rxs_step (XMark c now) t = (if c \<in> {Entered, Finished, Observed} then t else rxs_observe c now t)"
| "rxs_step (XFail s) t = snd (rxs_fail s t)"
| "rxs_step (XReport r) t = rxs_on_diag (\<lambda>d. d\<lparr> xd_rebuild := r \<rparr>) t"

section \<open>Invariant of the transaction\<close>

text \<open>A transaction without fault has gone through its phases in order and within the deadline.\<close>

abbreviation rx_intime :: "u32 \<Rightarrow> bool" where "rx_intime w \<equiv> w < 1000"

definition rxs_clean :: "rx_phase \<Rightarrow> rxs_diag \<Rightarrow> bool" where
  "rxs_clean p d \<longleftrightarrow>
     (p \<in> {Idle, Requested} \<longrightarrow> xd_timings d ! 0 = - 1) \<and>
     (p \<in> {Executing, Returned} \<longrightarrow> rx_intime (xd_timings d ! 0)) \<and>
     (p \<noteq> Returned \<longrightarrow> xd_timings d ! 5 = - 1) \<and>
     (p = Returned \<longrightarrow> rx_intime (xd_timings d ! 5) \<and>
        xd_mac_after d = 0 \<and> xd_descriptors_empty d = 1 \<and> xd_native_status d = 0)"

definition rxs_shape :: "rx_phase \<Rightarrow> rxs_diag \<Rightarrow> bool" where
  "rxs_shape p d \<longleftrightarrow>
     length (xd_timings d) = 8 \<and> (xd_requested d \<longleftrightarrow> p \<noteq> Idle) \<and> (xd_requested d \<longrightarrow> xd_installed d) \<and>
     (xd_entered d \<longleftrightarrow> p \<in> {Executing, Returned}) \<and> (xd_returned d \<longleftrightarrow> p = Returned)"

definition rxs_inv :: "rxs \<Rightarrow> bool" where
  "rxs_inv t \<longleftrightarrow> rxs_shape (rxs_phase t) (rxs_diag t) \<and>
     (xd_fault (rxs_diag t) = 0 \<longrightarrow> rxs_clean (rxs_phase t) (rxs_diag t))"

lemma rxs_inv_new: "rxs_inv rxs_new"
  by (simp add: rxs_inv_def rxs_new_def rxs_shape_def rxs_clean_def)

text \<open>Failing: the error is the latched one, and everything else is kept.\<close>

lemma rxs_fail_fst: "fst (rxs_fail s t) = xd_fault (rxs_diag (snd (rxs_fail s t)))"
  by (simp add: rxs_fail_def Let_def)

lemma rxs_fail_fault: "s \<noteq> 0 \<Longrightarrow> xd_fault (rxs_diag (snd (rxs_fail s t))) \<noteq> 0"
  by (simp add: rxs_fail_def Let_def)

lemma rxs_fail_inv: "rxs_inv t \<Longrightarrow> rxs_inv (snd (rxs_fail s t))"
  by (simp add: rxs_inv_def rxs_fail_def rxs_shape_def rxs_clean_def Let_def)

lemma rxs_fail_shape:
  "\<lbrakk> rxs_shape (rxs_phase t) (rxs_diag t); s \<noteq> 0 \<rbrakk> \<Longrightarrow> rxs_inv (snd (rxs_fail s t))"
  by (simp add: rxs_inv_def rxs_fail_def rxs_shape_def Let_def)

lemma rxs_fail_phase [simp]: "rxs_phase (snd (rxs_fail s t)) = rxs_phase t"
  by (simp add: rxs_fail_def Let_def)

lemma rxs_fail_keeps:
  assumes "xd_fault (rxs_diag t) \<noteq> 0"
  shows "snd (rxs_fail s t) = t"
proof -
  have d: "d\<lparr> xd_fault := xd_fault d \<rparr> = d" for d :: rxs_diag
    by (cases d) (simp only: rxs_diag.simps)
  have r: "r\<lparr> rxs_diag := rxs_diag r \<rparr> = r" for r :: rxs
    by (cases r) (simp only: rxs.simps)
  show ?thesis
    unfolding rxs_fail_def Let_def snd_conv if_not_P [OF assms] d by (rule r)
qed

text \<open>The deadline check changes nothing but a fault, and its success bounds the elapsed time.\<close>

lemma rxs_check_deadline_cases:
  obtains (ok) n where "rxs_check_deadline now t = (Inr (), t)" "xd_fault (rxs_diag t) = 0"
      "xd_requested (rxs_diag t)" "now = Some n" "rxs_started_ms t \<le> n" "n - rxs_started_ms t < 1000"
  | (err) e s where "rxs_check_deadline now t = (Inl e, snd (rxs_fail s t))" "s \<noteq> 0"
      "e = xd_fault (rxs_diag (snd (rxs_fail s t)))" "e \<noteq> 0"
proof (cases "xd_fault (rxs_diag t) = 0")
  case False
  then show ?thesis
    by (intro err [of "xd_fault (rxs_diag t)" 1]) (simp_all add: rxs_check_deadline_def rxs_fail_keeps)
next
  case True
  have f: "apfst Inl (rxs_fail s t) = (Inl (xd_fault (rxs_diag (snd (rxs_fail s t)))), snd (rxs_fail s t))" for s
    by (simp add: rxs_fail_def Let_def)
  show ?thesis
  proof (cases "xd_requested (rxs_diag t) \<and> (\<exists>n. now = Some n \<and> rxs_started_ms t \<le> n \<and> n - rxs_started_ms t < 1000)")
    case ok': True
    then obtain n where "xd_requested (rxs_diag t)" "now = Some n" "rxs_started_ms t \<le> n"
      "n - rxs_started_ms t < 1000"
      by blast
    with True show ?thesis
      by (intro ok [of n]) (simp_all add: rxs_check_deadline_def rx_DEADLINE_MS_def)
  next
    case no: False
    define s where "s = (if xd_requested (rxs_diag t) \<and> now \<noteq> None then rx_TIMEOUT else rx_CONTRACT)"
    have "rxs_check_deadline now t = apfst Inl (rxs_fail s t)"
      using True no by (auto simp: rxs_check_deadline_def rx_DEADLINE_MS_def s_def split: option.split)
    moreover have "s \<noteq> 0"
      by (simp add: s_def rx_codes)
    ultimately show ?thesis
      using rxs_fail_fault [of s t] by (intro err [OF _ _ refl, of s]) (simp_all add: f)
  qed
qed

lemma rxs_check_deadline_inv: "rxs_inv t \<Longrightarrow> rxs_inv (snd (rxs_check_deadline now t))"
  by (cases rule: rxs_check_deadline_cases [of now t]) (auto simp: rxs_fail_inv)

lemma rx_elapsed_intime:
  assumes "rxs_started_ms t \<le> n" "n - rxs_started_ms t < 1000"
  shows "rx_intime (rxs_elapsed (Some n) t)"
proof -
  let ?e = "n - rxs_started_ms t"
  have u: "unat ?e < 1000"
    using assms(2) by (simp add: word_less_nat_alt)
  then have "unat (ucast ?e :: u32) = unat ?e"
    by (simp add: unsigned_ucast_eq take_bit_nat_eq_self)
  moreover have "?e \<le> 0xffffffff"
    using u by (simp add: word_le_nat_alt)
  ultimately show ?thesis
    using assms u by (simp add: rxs_elapsed_def Let_def word_less_nat_alt)
qed

text \<open>An observation changes one time mark.\<close>

lemma rxs_observe_shape:
  "rxs_shape p (rxs_diag t) \<Longrightarrow> rxs_shape p (rxs_diag (rxs_observe c now t))"
  by (simp add: rxs_shape_def rxs_observe_def)

lemma rxs_observe_inv:
  assumes "rxs_inv t" "c \<notin> {Entered, Finished}"
  shows "rxs_inv (rxs_observe c now t)"
proof -
  have "rxs_clean p (rxs_diag (rxs_observe c now t)) = rxs_clean p (rxs_diag t)" for p
    using assms(2) by (cases c) (simp_all add: rxs_clean_def rxs_observe_def)
  then show ?thesis
    using assms(1) rxs_observe_shape unfolding rxs_inv_def by (auto simp: rxs_observe_def)
qed

lemma rxs_observe_frame [simp]:
  "rxs_phase (rxs_observe c now t) = rxs_phase t"
  "rxs_started_ms (rxs_observe c now t) = rxs_started_ms t"
  "xd_fault (rxs_diag (rxs_observe c now t)) = xd_fault (rxs_diag t)"
  "xd_requested (rxs_diag (rxs_observe c now t)) = xd_requested (rxs_diag t)"
  "xd_rebuild (rxs_diag (rxs_observe c now t)) = xd_rebuild (rxs_diag t)"
  by (simp_all add: rxs_observe_def)

text \<open>Each method keeps the invariant.\<close>

lemma rxs_request_at_inv:
  assumes "rxs_inv t"
  shows "rxs_inv (snd (rxs_request_at n t))"
proof (cases "\<not> xd_installed (rxs_diag t) \<or> rxs_phase t \<noteq> Idle \<or> xd_fault (rxs_diag t) \<noteq> 0")
  case True
  then have "snd (rxs_request_at n t) = snd (rxs_fail rx_CONTRACT t)"
    by (auto simp: rxs_request_at_def rxs_request_def rxs_fail_def Let_def)
  then show ?thesis
    using assms by (simp add: rxs_fail_inv)
next
  case False
  then show ?thesis
    using assms
    by (simp add: rxs_request_at_def rxs_request_def rxs_inv_def rxs_shape_def rxs_clean_def)
qed

text \<open>A mark taken when the deadline check passes is in time.\<close>

lemma rxs_mark_intime:
  assumes "xd_requested (rxs_diag t)" "xd_timings (rxs_diag t) ! checkpoint_index c = - 1"
    "length (xd_timings (rxs_diag t)) = 8"
    "now = Some n" "rxs_started_ms t \<le> n" "n - rxs_started_ms t < 1000"
  shows "rx_intime (xd_timings (rxs_diag (rxs_observe c now t)) ! checkpoint_index c)"
    and "j \<noteq> checkpoint_index c \<Longrightarrow>
      xd_timings (rxs_diag (rxs_observe c now t)) ! j = xd_timings (rxs_diag t) ! j"
proof -
  have "checkpoint_index c < 8"
    by (cases c) simp_all
  then show "rx_intime (xd_timings (rxs_diag (rxs_observe c now t)) ! checkpoint_index c)"
    using assms rx_elapsed_intime [of t n] by (simp add: rxs_observe_def)
  show "j \<noteq> checkpoint_index c \<Longrightarrow>
      xd_timings (rxs_diag (rxs_observe c now t)) ! j = xd_timings (rxs_diag t) ! j"
    by (simp add: rxs_observe_def)
qed

lemma rxs_enter_at_inv:
  assumes inv: "rxs_inv t"
  shows "rxs_inv (snd (rxs_enter_at now t))"
proof -
  let ?t = "rxs_observe Entered now t"
  have sh: "rxs_shape (rxs_phase ?t) (rxs_diag ?t)"
    using inv rxs_observe_shape by (simp add: rxs_inv_def)
  show ?thesis
  proof (cases rule: rxs_check_deadline_cases [of now ?t])
    case (err e s)
    then show ?thesis
      using rxs_fail_shape [OF sh] by (simp add: rxs_enter_at_def)
  next
    case (ok n)
    have e: "snd (rxs_enter_at now t) = snd (rxs_enter ?t)"
      using ok(1) by (simp add: rxs_enter_at_def)
    show ?thesis
    proof (cases "rxs_phase t = Requested")
      case False
      then have "snd (rxs_enter ?t) = snd (rxs_fail rx_CONTRACT ?t)"
        by (simp add: rxs_enter_def)
      then show ?thesis
        using e rxs_fail_shape [OF sh, of rx_CONTRACT] by (simp add: rx_codes)
    next
      case True
      have c: "rxs_clean Requested (rxs_diag t)" "rxs_shape Requested (rxs_diag t)"
        using inv ok(2) True by (simp_all add: rxs_inv_def)
      have m: "rx_intime (xd_timings (rxs_diag ?t) ! 0)" "xd_timings (rxs_diag ?t) ! 5 = - 1"
        using rxs_mark_intime [of t Entered now n] c ok
        by (simp_all add: rxs_clean_def rxs_shape_def)
      show ?thesis
        using True ok(2) m sh by (simp add: e rxs_enter_def rxs_inv_def rxs_shape_def rxs_clean_def)
    qed
  qed
qed

text \<open>\<open>finish\<close> keeps the shape in every case, and the certificate when nothing failed.\<close>

lemma rxs_finish_inv:
  assumes sh: "rxs_shape (rxs_phase t) (rxs_diag t)"
    and tm: "xd_fault (rxs_diag t) = 0 \<and> rxs_phase t = Executing \<longrightarrow>
      rx_intime (xd_timings (rxs_diag t) ! 0) \<and> rx_intime (xd_timings (rxs_diag t) ! 5)"
  shows "rxs_inv (rxs_finish b a e s t)"
proof (cases "rxs_phase t = Executing")
  case False
  then show ?thesis
    using rxs_fail_shape [OF sh, of rx_CONTRACT] by (simp add: rxs_finish_def rx_codes)
next
  case True
  define u where "u = rxs_on_diag (\<lambda>d. d\<lparr> xd_returned := True, xd_mac_before := b, xd_mac_after := a,
              xd_descriptors_empty := e, xd_native_status := s \<rparr>) (t\<lparr> rxs_phase := Returned \<rparr>)"
  have sh': "rxs_shape (rxs_phase u) (rxs_diag u)"
    using sh True by (simp add: u_def rxs_shape_def)
  have u0: "s = 0 \<Longrightarrow> a = 0 \<Longrightarrow> e = 1 \<Longrightarrow> rxs_inv u"
    using sh' tm True by (simp add: u_def rxs_inv_def rxs_clean_def)
  have "rxs_finish b a e s t = (if s \<noteq> 0 then snd (rxs_fail s u)
      else if a \<noteq> 0 then snd (rxs_fail rx_MAC_ENABLED u)
      else if e \<noteq> 1 then snd (rxs_fail rx_DESCRIPTORS_REMAIN u) else u)"
    using True unfolding rxs_finish_def u_def Let_def by simp
  moreover have "rx_MAC_ENABLED \<noteq> 0" "rx_DESCRIPTORS_REMAIN \<noteq> 0"
    by (simp_all add: rx_codes)
  ultimately show ?thesis
    using rxs_fail_shape [OF sh'] u0 by presburger
qed

lemma rxs_finish_at_inv:
  assumes inv: "rxs_inv t"
  shows "rxs_inv (rxs_finish_at now b a e s t)"
proof -
  let ?t = "rxs_observe Finished now t"
  have sh: "rxs_shape (rxs_phase ?t) (rxs_diag ?t)"
    using inv rxs_observe_shape by (simp add: rxs_inv_def)
  show ?thesis
  proof (cases rule: rxs_check_deadline_cases [of now ?t])
    case (err er st)
    have "rxs_shape (rxs_phase (snd (rxs_fail st ?t))) (rxs_diag (snd (rxs_fail st ?t)))"
      using rxs_fail_shape [OF sh err(2)] by (simp add: rxs_inv_def)
    moreover have "xd_fault (rxs_diag (snd (rxs_fail st ?t))) \<noteq> 0"
      using err by simp
    ultimately have "rxs_inv (rxs_finish b a e s (snd (rxs_fail st ?t)))"
      using rxs_finish_inv by blast
    then show ?thesis
      by (simp add: rxs_finish_at_def err(1))
  next
    case (ok n)
    have "rx_intime (xd_timings (rxs_diag ?t) ! 0) \<and> rx_intime (xd_timings (rxs_diag ?t) ! 5)"
      if p: "rxs_phase t = Executing"
    proof -
      have c: "rxs_clean Executing (rxs_diag t)" "rxs_shape Executing (rxs_diag t)"
        using inv ok(2) p by (simp_all add: rxs_inv_def)
      then show ?thesis
        using rxs_mark_intime [of t Finished now n] ok by (simp add: rxs_clean_def rxs_shape_def)
    qed
    then show ?thesis
      using rxs_finish_inv [OF sh] ok(1) by (simp add: rxs_finish_at_def)
  qed
qed

lemma rxs_post_returned_inv: "rxs_inv t \<Longrightarrow> rxs_inv (rxs_post_returned s t)"
proof -
  assume inv: "rxs_inv t"
  have p: "rxs_inv (rxs_on_diag (\<lambda>d. d\<lparr> xd_post_returned := True \<rparr>) u)" if "rxs_inv u" for u
    using that by (simp add: rxs_inv_def rxs_shape_def rxs_clean_def)
  show ?thesis
    unfolding rxs_post_returned_def Let_def using inv by (simp add: p rxs_fail_inv)
qed

lemma rxs_result_at_snd:
  "snd (rxs_result_at now t) =
     (let t1 = snd (rxs_check_deadline now t)
      in if fst (rxs_result_at now t) = Inr False then t1 else rxs_observe Observed now t1)"
  by (simp add: rxs_result_at_def Let_def split: prod.splits)

lemma rxs_step_inv: "rxs_inv t \<Longrightarrow> rxs_inv (rxs_step op t)"
proof (cases op)
  case XInstall
  then show "rxs_inv t \<Longrightarrow> ?thesis"
    by (simp add: rxs_inv_def rxs_shape_def rxs_clean_def)
next
  case (XReport r)
  then show "rxs_inv t \<Longrightarrow> ?thesis"
    by (simp add: rxs_inv_def rxs_shape_def rxs_clean_def)
next
  case (XMayRebuild now)
  have "snd (rxs_may_rebuild_at now t) = snd (rxs_check_deadline now t)"
    by (simp add: rxs_may_rebuild_at_def split: prod.split sum.split)
  then show "rxs_inv t \<Longrightarrow> ?thesis"
    by (simp add: XMayRebuild rxs_check_deadline_inv)
qed (auto simp: rxs_request_at_inv rxs_enter_at_inv rxs_finish_at_inv rxs_post_returned_inv
      rxs_result_at_snd Let_def rxs_check_deadline_inv rxs_observe_inv rxs_fail_inv)

interpretation rx_stop: machine rxs_step rxs_inv
  by unfold_locales (rule rxs_step_inv)

text \<open>The first fault stays, and the request is one-shot.\<close>

lemma rxs_fail_first: "xd_fault (rxs_diag t) \<noteq> 0 \<Longrightarrow> rxs_fail s t = (xd_fault (rxs_diag t), t)"
  using rxs_fail_keeps [of t s] rxs_fail_fst [of s t] by (metis prod.collapse)

lemma rxs_check_first: "xd_fault (rxs_diag t) \<noteq> 0 \<Longrightarrow> rxs_check_deadline now t = (Inl (xd_fault (rxs_diag t)), t)"
  by (simp add: rxs_check_deadline_def)

lemma rxs_fault_kept:
  "xd_fault (rxs_diag t) \<noteq> 0 \<Longrightarrow> xd_fault (rxs_diag (rxs_step op t)) = xd_fault (rxs_diag t)"
  by (cases op)
    (auto simp: rxs_request_at_def rxs_request_def rxs_enter_at_def rxs_enter_def rxs_may_rebuild_at_def
      rxs_finish_at_def rxs_finish_def rxs_post_returned_def rxs_result_at_snd rxs_check_first
      rxs_fail_first Let_def)

interpretation rx_stop_fault: sticky rxs_step
  "\<lambda>t. if xd_fault (rxs_diag t) = 0 then None else Some (xd_fault (rxs_diag t))"
  by unfold_locales (auto simp: rxs_fault_kept split: if_splits)

lemma rxs_check_phase [simp]: "rxs_phase (snd (rxs_check_deadline now t)) = rxs_phase t"
  by (cases rule: rxs_check_deadline_cases [of now t]) simp_all

definition rxs_spent :: "rxs \<Rightarrow> bool" where
  "rxs_spent t \<longleftrightarrow> rxs_phase t \<noteq> Idle \<or> xd_fault (rxs_diag t) \<noteq> 0"

lemma rxs_spent_request:
  "rxs_spent t \<Longrightarrow> rxs_request_at n t = apfst Inl (rxs_fail rx_CONTRACT t)"
  by (cases "rxs_fail rx_CONTRACT t") (auto simp: rxs_spent_def rxs_request_at_def rxs_request_def)

lemma rxs_phase_back:
  "rxs_phase t \<noteq> Idle \<Longrightarrow> rxs_phase (rxs_step op t) \<noteq> Idle"
proof (cases op)
  case (XRequest n)
  assume "rxs_phase t \<noteq> Idle"
  then show ?thesis
    using XRequest rxs_spent_request [of t n] by (simp add: rxs_spent_def)
next
  case (XEnter now)
  assume "rxs_phase t \<noteq> Idle"
  then show ?thesis
    by (cases rule: rxs_check_deadline_cases [of now "rxs_observe Entered now t"])
      (simp_all add: XEnter rxs_enter_at_def rxs_enter_def)
next
  case (XMayRebuild now)
  assume "rxs_phase t \<noteq> Idle"
  then show ?thesis
    by (cases rule: rxs_check_deadline_cases [of now t]) (simp_all add: XMayRebuild rxs_may_rebuild_at_def)
next
  case (XFinish now b a e s)
  assume p: "rxs_phase t \<noteq> Idle"
  have "rxs_phase (rxs_finish b a e s u) \<noteq> Idle" if "rxs_phase u \<noteq> Idle" for u
    using that by (simp add: rxs_finish_def Let_def)
  then show ?thesis
    using p by (simp add: XFinish rxs_finish_at_def)
qed (simp_all add: rxs_result_at_snd Let_def rxs_post_returned_def)

interpretation rx_stop_spent: latch rxs_step rxs_spent
  by unfold_locales (metis rxs_spent_def rxs_phase_back rxs_fault_kept)

text \<open>What the waiter may do to the transaction while the handler runs.\<close>

fun waiter_op :: "xop \<Rightarrow> bool" where
  "waiter_op (XPostReturned s) = True"
| "waiter_op (XResult now) = True"
| "waiter_op (XMark c now) = (c = Posted)"
| "waiter_op (XFail s) = True"
| "waiter_op _ = False"

definition rxs_quiet :: "rxs \<Rightarrow> rxs \<Rightarrow> bool" where
  "rxs_quiet t t' \<longleftrightarrow> rxs_phase t' = rxs_phase t \<and> xd_rebuild (rxs_diag t') = xd_rebuild (rxs_diag t) \<and>
     (xd_fault (rxs_diag t) \<noteq> 0 \<longrightarrow> xd_fault (rxs_diag t') = xd_fault (rxs_diag t))"

lemma rxs_quiet_refl [simp]: "rxs_quiet t t"
  by (simp add: rxs_quiet_def)

lemma rxs_quiet_trans: "rxs_quiet t u \<Longrightarrow> rxs_quiet u v \<Longrightarrow> rxs_quiet t v"
  by (simp add: rxs_quiet_def)

lemma rxs_quiet_observe [simp]: "rxs_quiet t (rxs_observe c now t)"
  by (simp add: rxs_quiet_def)

lemma rxs_quiet_fail [simp]: "rxs_quiet t (snd (rxs_fail s t))"
  by (simp add: rxs_quiet_def rxs_fail_def Let_def)

lemma rxs_quiet_check [simp]: "rxs_quiet t (snd (rxs_check_deadline now t))"
  by (cases rule: rxs_check_deadline_cases [of now t]) simp_all

lemma rxs_quiet_waiter: "waiter_op op \<Longrightarrow> rxs_quiet t (rxs_step op t)"
proof (cases op)
  case (XPostReturned s)
  have m: "rxs_quiet t (rxs_on_diag (\<lambda>d. d\<lparr> xd_post_returned := True \<rparr>) u)" if "rxs_quiet t u" for u
    using that by (simp add: rxs_quiet_def)
  have f: "rxs_quiet t (snd (rxs_fail s u))" if "rxs_quiet t u" for u
    by (rule rxs_quiet_trans [OF that rxs_quiet_fail])
  show ?thesis
    unfolding XPostReturned rxs_step.simps rxs_post_returned_def Let_def by (simp add: m f)
next
  case (XResult now)
  then show ?thesis
    using rxs_quiet_trans [OF rxs_quiet_check rxs_quiet_observe] by (simp add: rxs_result_at_snd Let_def)
qed auto

lemma rxs_quiet_waiters: "\<forall>op \<in> set ops. waiter_op op \<Longrightarrow> rxs_quiet t (fold rxs_step ops t)"
proof (induction ops arbitrary: t)
  case (Cons op ops)
  then show ?case
    using rxs_quiet_trans [OF rxs_quiet_waiter [of op t]] by simp
qed simp

text \<open>No fault after the end of the handler: nothing failed before, and every reading was good.\<close>

lemma rxs_finish_zero:
  assumes "xd_fault (rxs_diag (rxs_finish_at now b a e s t)) = 0"
  shows "xd_fault (rxs_diag t) = 0" "rxs_phase t = Executing" "s = 0" "a = 0" "e = 1"
    "rxs_phase (rxs_finish_at now b a e s t) = Returned"
    "xd_rebuild (rxs_diag (rxs_finish_at now b a e s t)) = xd_rebuild (rxs_diag t)"
proof -
  define u where "u = snd (rxs_check_deadline now (rxs_observe Finished now t))"
  have u: "rxs_quiet t u"
    unfolding u_def by (rule rxs_quiet_trans [OF rxs_quiet_observe rxs_quiet_check])
  have f: "xd_fault (rxs_diag (rxs_finish b a e s u)) = 0"
    using assms by (simp add: rxs_finish_at_def u_def)
  have ex: "rxs_phase u = Executing"
    using f rxs_fail_fault [of rx_CONTRACT u] by (auto simp: rxs_finish_def rx_codes split: if_splits)
  have v: "s = 0 \<and> a = 0 \<and> e = 1"
    using f rxs_fail_fault by (auto simp: rxs_finish_def Let_def ex rx_codes split: if_splits)
  have fin: "rxs_finish b a e s u = rxs_on_diag (\<lambda>d. d\<lparr> xd_returned := True, xd_mac_before := b,
      xd_mac_after := a, xd_descriptors_empty := e, xd_native_status := s \<rparr>) (u\<lparr> rxs_phase := Returned \<rparr>)"
    using v ex unfolding rxs_finish_def Let_def by simp
  have fu: "xd_fault (rxs_diag u) = 0"
    using f by (simp add: fin)
  show "xd_fault (rxs_diag t) = 0" "rxs_phase t = Executing"
    using u fu ex by (auto simp: rxs_quiet_def)
  show "s = 0" "a = 0" "e = 1"
    using v by simp_all
  have at: "rxs_finish_at now b a e s t = rxs_finish b a e s u"
    by (simp add: rxs_finish_at_def u_def)
  show "rxs_phase (rxs_finish_at now b a e s t) = Returned"
    "xd_rebuild (rxs_diag (rxs_finish_at now b a e s t)) = xd_rebuild (rxs_diag t)"
    using u by (simp_all add: at fin rxs_quiet_def)
qed

text \<open>The descriptor round trip without fault is exact.\<close>

definition rb_exact :: "rb_diag \<Rightarrow> bool" where
  "rb_exact r \<longleftrightarrow> rb_attempted r \<and> rb_cleanup_attempted r \<and> rb_fault r = 0 \<and>
     rb_expected r \<noteq> [0, 0, 0] \<and> rb_actual r = rb_expected r \<and> rb_cleaned r = [0, 0, 0] \<and>
     rb_init_status r = 0 \<and> rb_cleanup_status r = 0 \<and>
     rb_mac_after_init r = 0 \<and> rb_mac_after_cleanup r = 0"

lemma rb_probe_exact: "rb_fault (fst (rb_probe ops h)) = 0 \<Longrightarrow> rb_exact (fst (rb_probe ops h))"
  by (cases "do_initialize ops h"; cases "do_destroy ops (do_disable ops (snd (do_initialize ops h)))")
    (auto simp: rb_probe_def rb_exact_def Let_def rx_codes split: if_splits)

text \<open>The world between the operations of the round trip: the transaction is only marked.\<close>

lemma native_observe_quiet:
  "(\<And>k t. rxs_quiet t (other k t)) \<Longrightarrow> rxs_quiet t (native_observe clock other k c t)"
  unfolding native_observe_def by (rule rxs_quiet_trans [OF _ rxs_quiet_observe]) blast

lemma rb_probe_quiet:
  assumes q: "\<And>k t. rxs_quiet t (other k t)"
  shows "rxs_quiet (fst s) (fst (snd (rb_probe (native_descriptors hw clock other) s)))"
proof -
  note n = native_observe_quiet [of other, OF q]
  have "rxs_quiet t (native_observe clock other 7 Cleaned (native_observe clock other 6 Initialized t))" for t
    by (rule rxs_quiet_trans [OF n n])
  then show ?thesis
    using n by (auto simp: rb_probe_def native_descriptors_def Let_def split: prod.splits if_splits)
qed

lemma rxs_handler_finish_zero:
  assumes "xd_fault (rxs_diag (rxs_handler_finish now rb b a e s t)) = 0"
  shows "s = 0" "a = 0" "e = 1" "xd_fault (rxs_diag t) = 0" "rxs_phase t = Executing"
    "rxs_phase (rxs_handler_finish now rb b a e s t) = Returned"
    "\<And>r. rb = Some r \<Longrightarrow> xd_rebuild (rxs_diag (rxs_handler_finish now rb b a e s t)) = r \<and> rb_fault r = 0"
proof -
  define u where "u = (case rb of None \<Rightarrow> t | Some report \<Rightarrow>
            let t1 = rxs_on_diag (\<lambda>d. d\<lparr> xd_rebuild := report \<rparr>) t
            in if rb_fault report \<noteq> 0 then snd (rxs_fail (rb_fault report) t1) else t1)"
  have fin: "rxs_handler_finish now rb b a e s t = rxs_finish_at now b a e s u"
    by (simp add: rxs_handler_finish_def u_def)
  note z = rxs_finish_zero [OF assms [unfolded fin]]
  show "s = 0" "a = 0" "e = 1"
    by (rule z)+
  have r0: "rb_fault r = 0" if "rb = Some r" for r
    using z(1) that rxs_fail_fault [of "rb_fault r"] by (auto simp: u_def Let_def split: if_splits)
  then have u: "u = (case rb of None \<Rightarrow> t | Some r \<Rightarrow> rxs_on_diag (\<lambda>d. d\<lparr> xd_rebuild := r \<rparr>) t)"
    by (simp add: u_def Let_def split: option.split)
  show "xd_fault (rxs_diag t) = 0" "rxs_phase t = Executing"
    using z(1,2) unfolding u by (simp_all split: option.splits)
  show "rxs_phase (rxs_handler_finish now rb b a e s t) = Returned"
    unfolding fin by (rule z)
  show "\<And>r. rb = Some r \<Longrightarrow> xd_rebuild (rxs_diag (rxs_handler_finish now rb b a e s t)) = r \<and> rb_fault r = 0"
    using r0 z(7) unfolding fin u by simp
qed

lemma rxs_may_rebuild_true:
  assumes "rxs_may_rebuild_at now t = (m, t')"
  shows "rxs_quiet t t'" "\<not> m \<Longrightarrow> rxs_phase t = Executing \<Longrightarrow> xd_fault (rxs_diag t') \<noteq> 0"
  using assms
  by (cases rule: rxs_check_deadline_cases [of now t];
      auto simp: rxs_may_rebuild_at_def rxs_may_rebuild_def)+

lemma rxs_handler_stop_zero:
  assumes q: "\<And>k t. rxs_quiet t (other k t)"
    and z: "rxs_handler_stop hw clock other s = (0, t', h')"
    and ex: "rxs_phase (fst s) = Executing"
  shows "rxs_phase t' = Returned \<and> xd_fault (rxs_diag t') = 0 \<and> rb_exact (xd_rebuild (rxs_diag t'))"
proof -
  define t2 where "t2 = native_observe clock other 4 Destroyed (native_observe clock other 3 Disabled (fst s))"
  define h1 where "h1 = sh_disable hw (snd s)"
  obtain status h2 where d: "(if sh_mac_enabled hw h1 = 0 then sh_destroy hw h1 else (rx_MAC_ENABLED, h1)) = (status, h2)"
    by (cases "if sh_mac_enabled hw h1 = 0 then sh_destroy hw h1 else (rx_MAC_ENABLED, h1)") blast
  define good where "good \<longleftrightarrow> status = 0 \<and> sh_mac_enabled hw h2 = 0 \<and> sh_queue_empty hw h2 = 1"
  obtain m t3 where m: "(if good then rxs_may_rebuild_at (clock 5) (other 5 t2) else (False, t2)) = (m, t3)"
    by (cases "if good then rxs_may_rebuild_at (clock 5) (other 5 t2) else (False, t2)") blast
  define pr where "pr = rb_probe (native_descriptors hw clock other) (t3, h2)"
  define rb where "rb = (if m then Some (fst pr) else None)"
  define t4 where "t4 = other 8 (if m then fst (snd pr) else t3)"
  define t5 where "t5 = rxs_handler_finish (clock 8) rb (sh_mac_enabled hw (snd s))
    (sh_mac_enabled hw h2) (sh_queue_empty hw h2) status t4"
  have dev: "sh_device_present hw h2"
    using z d rxs_fail_fault [of rx_CONTRACT "other 5 t2"] rxs_fail_fst [of rx_CONTRACT "other 5 t2"]
    by (auto simp: rxs_handler_stop_def rxs_handler_inspect_def Let_def h1_def t2_def rx_codes
        split: prod.splits if_splits)
  have "rxs_handler_stop hw clock other s = (xd_fault (rxs_diag t5), t5, if m then snd (snd pr) else h2)"
    using d m dev unfolding rxs_handler_stop_def Let_def h1_def [symmetric] t2_def [symmetric]
    by (simp add: t5_def t4_def rb_def pr_def good_def rxs_handler_inspect_def rxs_handler_rebuild_def
        split: prod.split)
  then have t5: "t' = t5" "xd_fault (rxs_diag t5) = 0"
    using z by simp_all
  note f = rxs_handler_finish_zero [OF t5(2) [unfolded t5_def]]
  have "rxs_quiet (fst s) t2"
    unfolding t2_def by (meson q native_observe_quiet rxs_quiet_trans)
  then have x2: "rxs_phase (other 5 t2) = Executing"
    using ex q [of t2 5] by (simp add: rxs_quiet_def)
  have "good"
    using f(1,2,3) by (simp add: good_def)
  then have mm: "rxs_may_rebuild_at (clock 5) (other 5 t2) = (m, t3)"
    using m by simp
  have m: m
  proof (rule ccontr)
    assume "\<not> m"
    then have "xd_fault (rxs_diag t3) \<noteq> 0"
      using rxs_may_rebuild_true(2) [OF mm _ x2] by blast
    then show False
      using f(4) q [of t3 8] \<open>\<not> m\<close> by (simp add: t4_def rxs_quiet_def)
  qed
  have "xd_rebuild (rxs_diag t5) = fst pr" "rb_fault (fst pr) = 0"
    using f(7) [of "fst pr"] m by (simp_all add: rb_def t5_def)
  then show ?thesis
    using rb_probe_exact [of "native_descriptors hw clock other" "(t3, h2)"] f(6) t5
    by (simp add: pr_def t5_def)
qed

text \<open>Entering puts the transaction into execution; the guards leave the hardware alone.\<close>

lemma rxs_enter_at_ok: "rxs_enter_at now t = (Inr u, t') \<Longrightarrow> rxs_phase t = Requested \<and> rxs_phase t' = Executing"
  by (cases rule: rxs_check_deadline_cases [of now "rxs_observe Entered now t"])
    (auto simp: rxs_enter_at_def rxs_enter_def rxs_fail_def Let_def split: if_splits)

lemma rxs_enter_at_err: "rxs_enter_at now t = (Inl e, t') \<Longrightarrow> e \<noteq> 0"
  by (cases rule: rxs_check_deadline_cases [of now "rxs_observe Entered now t"])
    (auto simp: rxs_enter_at_def rxs_enter_def rxs_fail_def Let_def rx_codes split: if_splits)

lemma rxs_fail_nonzero: "s \<noteq> 0 \<Longrightarrow> fst (rxs_fail s t) \<noteq> 0"
  using rxs_fail_fault rxs_fail_fst by metis

text \<open>The guards of the handler, as a condition on the message, the worker and the mode.\<close>

definition rxs_admitted :: "'h stop_hw \<Rightarrow> bool \<Rightarrow> u32 option \<Rightarrow> 'h \<Rightarrow> rxs \<Rightarrow> bool" where
  "rxs_admitted hw rejected current h t \<longleftrightarrow>
     rxs_phase t = Requested \<and> same_worker (sh_device_task hw h) current \<and> \<not> rejected \<and> sh_thruput hw h = 0"

lemma rxs_handler_cases:
  assumes q: "\<And>k t. rxs_quiet t (other k t)" and m: "rxs_matches msg"
  obtains (refused) e t' where "rxs_handler hw clock other rejected current msg (t, h) = (e, t', h)" "e \<noteq> 0"
  | (admitted) t3 where "rxs_admitted hw rejected current h t" "rxs_phase t3 = Executing"
      "rxs_handler hw clock other rejected current msg (t, h) = rxs_handler_stop hw clock other (t3, h)"
proof (cases "rxs_enter_at (clock 0) (other 0 t)")
  case (Pair r t1)
  show ?thesis
  proof (cases r)
    case (Inl e)
    then show ?thesis
      using m Pair rxs_enter_at_err by (intro refused [of e t1]) (auto simp: rxs_handler_def)
  next
    case (Inr u)
    have en: "rxs_phase (other 0 t) = Requested" "rxs_phase t1 = Executing"
      using rxs_enter_at_ok Pair Inr by blast+
    define t2 where "t2 = rxs_on_diag (\<lambda>d. d\<lparr> xd_expected_task := sh_device_task hw h,
        xd_current_task := (case current of None \<Rightarrow> - 1 | Some c \<Rightarrow> c) \<rparr>) (other 1 t1)"
    have p2: "rxs_phase (other 2 t2) = Executing"
      using en(2) q [of t1 1] q [of t2 2] by (simp add: t2_def rxs_quiet_def)
    have H: "rxs_handler hw clock other rejected current msg (t, h) =
        (if \<not> same_worker (sh_device_task hw h) current
         then (case rxs_fail rx_CONTRACT (other 2 t2) of (e, t3) \<Rightarrow> (e, t3, h))
         else if rejected \<or> sh_thruput hw h \<noteq> 0
         then (case rxs_fail rx_QUEUED_RX (other 2 t2) of (e, t3) \<Rightarrow> (e, t3, h))
         else (case rxs_check_deadline (clock 2) (other 2 t2) of
                 (Inl e, t3) \<Rightarrow> (e, t3, h)
               | (Inr _, t3) \<Rightarrow> rxs_handler_stop hw clock other (t3, h)))"
      using m unfolding rxs_handler_def fst_conv snd_conv Pair Inr t2_def Let_def by simp
    show ?thesis
    proof (cases "same_worker (sh_device_task hw h) current \<and> \<not> rejected \<and> sh_thruput hw h = 0")
      case False
      define s where "s = (if \<not> same_worker (sh_device_task hw h) current then rx_CONTRACT else rx_QUEUED_RX)"
      have "rxs_handler hw clock other rejected current msg (t, h) =
          (fst (rxs_fail s (other 2 t2)), snd (rxs_fail s (other 2 t2)), h)"
        using False unfolding H s_def by (auto simp: split_beta)
      then show ?thesis
        by (rule refused) (rule rxs_fail_nonzero, simp add: s_def rx_codes)
    next
      case True
      show ?thesis
      proof (cases rule: rxs_check_deadline_cases [of "clock 2" "other 2 t2"])
        case (ok n)
        have "rxs_phase t = Requested"
          using en(1) q [of t 0] by (simp add: rxs_quiet_def)
        moreover have "rxs_handler hw clock other rejected current msg (t, h) =
            rxs_handler_stop hw clock other (other 2 t2, h)"
          unfolding H using True ok(1) by simp
        ultimately show ?thesis
          using True p2 by (intro admitted [of "other 2 t2"]) (simp_all add: rxs_admitted_def)
      next
        case (err e s)
        have "rxs_handler hw clock other rejected current msg (t, h) = (e, snd (rxs_fail s (other 2 t2)), h)"
          unfolding H using True err(1) by simp
        then show ?thesis
          using err(4) by (rule refused)
      qed
    qed
  qed
qed

section \<open>Properties\<close>

text \<open>When the waiter is told that the stop is done, the transaction was installed, requested,
  entered and returned, the post returned, nothing failed, the MAC was read as disabled, the
  descriptor queue as empty and the native status as zero; the entry, the end and the observation
  itself all lie within the deadline of one second.\<close>

theorem rx_stop_certificate:
  assumes "rxs_result_at now (fold rxs_step ops rxs_new) = (Inr True, t)"
  shows "rxs_phase t = Returned \<and> xd_installed (rxs_diag t) \<and> xd_requested (rxs_diag t) \<and>
    xd_entered (rxs_diag t) \<and> xd_returned (rxs_diag t) \<and> xd_post_returned (rxs_diag t) \<and>
    xd_fault (rxs_diag t) = 0 \<and> xd_mac_after (rxs_diag t) = 0 \<and> xd_descriptors_empty (rxs_diag t) = 1 \<and>
    xd_native_status (rxs_diag t) = 0 \<and> xd_timings (rxs_diag t) ! checkpoint_index Entered < 1000 \<and>
    xd_timings (rxs_diag t) ! checkpoint_index Finished < 1000 \<and>
    (\<exists>n. now = Some n \<and> rxs_started_ms t \<le> n \<and> n - rxs_started_ms t < 1000)"
proof -
  let ?s = "fold rxs_step ops rxs_new"
  have "rxs_inv (rxs_step (XResult now) ?s)"
    by (intro rxs_step_inv rx_stop.run_inv rxs_inv_new)
  then have inv: "rxs_inv t"
    by (simp add: assms)
  show ?thesis
  proof (cases rule: rxs_check_deadline_cases [of now ?s])
    case (err e s)
    then show ?thesis
      using assms by (simp add: rxs_result_at_def Let_def)
  next
    case (ok n)
    have t: "t = rxs_observe Observed now ?s" and p: "rxs_phase ?s = Returned" "xd_post_returned (rxs_diag ?s)"
      using assms ok(1,2) by (auto simp: rxs_result_at_def Let_def rxs_result_def)
    have "xd_post_returned (rxs_diag t)"
      using p(2) by (simp add: t rxs_observe_def)
    then show ?thesis
      using inv ok p(1) by (simp add: t rxs_inv_def rxs_shape_def rxs_clean_def)
  qed
qed

text \<open>C13: Whatever the waiter does meanwhile: for the message of a stop transaction, the handler
  changes the hardware only when the transaction was requested, on the device worker and without
  queued receive; and it reports success only after a descriptor round trip that allocated exactly
  the configured counts and freed them all, with the MAC disabled throughout.  Every other message
  goes to the vendor's own destroy routine unguarded, with its status, and leaves the transaction as
  it is.\<close>

theorem rx_stop_handler_exact:
  assumes "\<forall>k. list_all waiter_op (w k)"
    and "rxs_handler hw clock (\<lambda>k. fold rxs_step (w k)) rejected current msg (t, h) = (status, t', h')"
  shows "if rxs_matches msg
    then (h' \<noteq> h \<longrightarrow> rxs_admitted hw rejected current h t) \<and>
      (status = 0 \<longrightarrow> rxs_admitted hw rejected current h t \<and> rxs_phase t' = Returned \<and>
         xd_fault (rxs_diag t') = 0 \<and> rb_exact (xd_rebuild (rxs_diag t')))
    else sh_destroy hw h = (status, h') \<and> t' = t"
proof (cases "rxs_matches msg")
  case False
  then show ?thesis
    using assms(2) by (auto simp: rxs_handler_def split: prod.splits)
next
  case True
  have q: "rxs_quiet u (fold rxs_step (w k) u)" for k u
    using assms(1) by (intro rxs_quiet_waiters) (simp add: list_all_iff)
  note cases = rxs_handler_cases [where hw = hw and clock = clock and rejected = rejected
      and current = current and t = t and h = h, OF q True]
  show ?thesis
  proof (rule cases)
    fix e u
    assume "rxs_handler hw clock (\<lambda>k. fold rxs_step (w k)) rejected current msg (t, h) = (e, u, h)" "e \<noteq> 0"
    then show ?thesis
      using assms(2) True by simp
  next
    fix t3
    assume a: "rxs_admitted hw rejected current h t" "rxs_phase t3 = Executing"
      "rxs_handler hw clock (\<lambda>k. fold rxs_step (w k)) rejected current msg (t, h) =
       rxs_handler_stop hw clock (\<lambda>k. fold rxs_step (w k)) (t3, h)"
    have "status = 0 \<Longrightarrow> rxs_phase t' = Returned \<and> xd_fault (rxs_diag t') = 0 \<and> rb_exact (xd_rebuild (rxs_diag t'))"
      using rxs_handler_stop_zero [of "\<lambda>k. fold rxs_step (w k)" hw clock "(t3, h)" t' h', OF q] a assms(2)
      by simp
    then show ?thesis
      using a(1) True by simp
  qed
qed

text \<open>A second stop in the same boot fails whatever happens in between.\<close>

lemma rxs_wait_loop_err: "rxs_wait_loop turns t = Some (Inl e, t') \<Longrightarrow> e \<noteq> 0"
proof (induction turns t rule: rxs_wait_loop.induct)
  case (2 between now slept rest t)
  have "fst (rxs_result_at now (between t)) = Inl e \<Longrightarrow> e \<noteq> 0" for e
    by (cases rule: rxs_check_deadline_cases [of now "between t"])
      (auto simp: rxs_result_at_def rxs_result_def Let_def split: if_splits)
  then show ?case
    using 2 by (auto simp: rx_codes split: prod.splits sum.splits bool.splits if_splits)
qed simp

lemma rxs_wait_loop_done: "rxs_wait_loop turns t = Some (Inr u, t') \<Longrightarrow> rxs_phase t' = Returned"
proof (induction turns t rule: rxs_wait_loop.induct)
  case (2 between now slept rest t)
  have "rxs_result_at now (between t) = (Inr True, t1) \<Longrightarrow> rxs_phase t1 = Returned" for t1
    by (cases rule: rxs_check_deadline_cases [of now "between t"])
      (auto simp: rxs_result_at_def rxs_result_def Let_def split: if_splits)
  then show ?case
    using 2 by (auto split: prod.splits sum.splits bool.splits if_splits)
qed simp

lemma rxs_request_at_err: "rxs_request_at n t = (Inl e, u) \<Longrightarrow> e \<noteq> 0"
  using rxs_fail_nonzero [of rx_CONTRACT t]
  by (cases "rxs_fail rx_CONTRACT t") (auto simp: rxs_request_at_def rxs_request_def rx_codes split: if_splits)

lemma rxs_stop_and_wait_cases:
  "rxs_stop_and_wait queued clock send posted turns t = Some (r, t') \<Longrightarrow>
     (\<exists>e. r = Inl e \<and> e \<noteq> 0) \<or> (r = Inr () \<and> rxs_phase t' = Returned)"
  unfolding rxs_stop_and_wait_def
  by (cases r)
    (auto simp: rx_codes dest: rxs_request_at_err rxs_wait_loop_err rxs_wait_loop_done
      split: if_splits option.splits prod.splits sum.splits)

lemma rxs_stop_once_spent:
  assumes "rxs_stop_once queued clock send posted turns late t = Some (r, t')"
  shows "rxs_spent t'"
  using assms rxs_stop_and_wait_cases [of queued clock send posted turns t] rxs_fail_fault
  unfolding rxs_stop_once_def rxs_spent_def
  by (auto split: option.splits prod.splits sum.splits)

text \<open>The stop is one-shot: once a call has returned, with success or with an error, every later
  call returns an error at once, whatever steps the transaction has taken in between.\<close>

theorem rx_stop_one_shot:
  assumes "rxs_stop_once queued clock send posted turns late t = Some (r, t')"
  shows "\<exists>e t''. rxs_stop_once queued2 clock2 send2 posted2 turns2 late2 (fold rxs_step ops t') = Some (Inl e, t'')"
proof -
  let ?s = "fold rxs_step ops t'"
  have "rxs_spent ?s"
    using rx_stop_spent.latch_run.run_inv rxs_stop_once_spent [OF assms] by blast
  then show ?thesis
    using rxs_spent_request [of ?s]
    by (cases "rxs_fail rx_CONTRACT ?s"; cases clock2)
      (auto simp: rxs_stop_once_def rxs_stop_and_wait_def)
qed

text \<open>A run on a small device: one descriptor queue of each kind.\<close>

definition demo_hw :: "(bool \<times> bool) stop_hw" where
  "demo_hw = \<lparr>
     sh_prefix = (\<lambda>(mac, full). \<lparr> dp_rx_counts = (if full then [8, 4, 2] else [0, 0, 0]),
        dp_normal = 8, dp_small = 2, dp_high = 4 \<rparr>),
     sh_mac_enabled = (\<lambda>(mac, full). if mac then 1 else 0),
     sh_disable = (\<lambda>(mac, full). (False, full)),
     sh_destroy = (\<lambda>(mac, full). (0, mac, False)),
     sh_init = (\<lambda>(mac, full). (0, mac, True)),
     sh_device_present = (\<lambda>s. True), sh_queue_empty = (\<lambda>(mac, full). if full then 0 else 1),
     sh_thruput = (\<lambda>s. 0), sh_device_task = (\<lambda>s. 7) \<rparr>"

definition demo_ops :: "xop list" where
  "demo_ops = [XInstall, XRequest 100, XPostReturned 0, XEnter (Some 101), XMark Disabled (Some 102),
     XMayRebuild (Some 103), XReport rb_default, XFinish (Some 104) 1 0 1 0]"

definition demo_clock :: "nat \<Rightarrow> u64 option" where
  "demo_clock k = Some (101 + of_nat k)"

definition demo_waiter :: "nat \<Rightarrow> xop list" where
  "demo_waiter k = (if k = 1 then [XPostReturned 0] else [])"

definition demo_other :: "nat \<Rightarrow> rxs \<Rightarrow> rxs" where
  "demo_other k = fold rxs_step (demo_waiter k)"

lemma demo_other_code [code]: "demo_other k t = fold rxs_step (demo_waiter k) t"
  by (simp add: demo_other_def)

definition demo_start :: rxs where
  "demo_start = fold rxs_step [XInstall, XRequest 100] rxs_new"

definition demo_run :: "i32 \<times> rxs \<times> bool \<times> bool" where
  "demo_run = rxs_handler demo_hw demo_clock demo_other False (Some 7)
     (Some (8, Some rx_COMMAND)) (demo_start, (True, True))"

theorem rx_stop_handler_exact_witness:
  "rb_exact (xd_rebuild (rxs_diag (fst (snd demo_run)))) \<and> snd (snd demo_run) = (False, False)"
proof -
  have m: "rxs_matches (Some (8, Some rx_COMMAND))" "fst demo_run = 0" "snd (snd demo_run) = (False, False)"
    by code_simp+
  have w: "\<forall>k. list_all waiter_op (demo_waiter k)"
    by (simp add: demo_waiter_def)
  have "rxs_handler demo_hw demo_clock (\<lambda>k. fold rxs_step (demo_waiter k)) False (Some 7)
      (Some (8, Some rx_COMMAND)) (demo_start, (True, True)) = demo_run"
    by (simp add: demo_run_def demo_other_def [abs_def])
  also have "demo_run = (0, fst (snd demo_run), snd (snd demo_run))"
    using m(2) by (metis prod.collapse)
  finally have "rxs_handler demo_hw demo_clock (\<lambda>k. fold rxs_step (demo_waiter k)) False (Some 7)
      (Some (8, Some rx_COMMAND)) (demo_start, (True, True)) = (0, fst (snd demo_run), snd (snd demo_run))" .
  from rx_stop_handler_exact [OF w this] m(1,3) show ?thesis
    by simp
qed

definition demo_send :: "rxs \<Rightarrow> i32 \<times> rxs" where
  "demo_send t = (0, fold rxs_step [XEnter (Some 101), XFinish (Some 102) 1 0 1 0] t)"

definition demo_t1 :: rxs where
  "demo_t1 = snd (rxs_request_at 100 (fold rxs_step [XInstall] rxs_new))"

definition demo_t3 :: rxs where
  "demo_t3 = rxs_post_returned 0 (rxs_observe Posted (Some 103) (snd (demo_send demo_t1)))"

definition demo_t4 :: rxs where
  "demo_t4 = snd (rxs_result_at (Some 104) demo_t3)"

lemma demo_stop:
  "rxs_stop_once False (Some 100) demo_send (Some 103) [(\<lambda>t. t, Some 104, True)] (\<lambda>t. t)
     (fold rxs_step [XInstall] rxs_new) = Some (Inr (), demo_t4)"
proof -
  have "fst (rxs_request_at 100 (fold rxs_step [XInstall] rxs_new)) = Inr ()"
    by code_simp
  then have 1: "rxs_request_at 100 (fold rxs_step [XInstall] rxs_new) = (Inr (), demo_t1)"
    unfolding demo_t1_def by (metis prod.collapse)
  have "fst (demo_send demo_t1) = 0"
    by (simp add: demo_send_def)
  then have 2: "demo_send demo_t1 = (0, snd (demo_send demo_t1))"
    by (metis prod.collapse)
  have "fst (rxs_result_at (Some 104) demo_t3) = Inr True"
    by code_simp
  then have 3: "rxs_result_at (Some 104) demo_t3 = (Inr True, demo_t4)"
    unfolding demo_t4_def by (metis prod.collapse)
  have "rxs_stop_and_wait False (Some 100) demo_send (Some 103) [(\<lambda>t. t, Some 104, True)]
     (fold rxs_step [XInstall] rxs_new) = rxs_wait_loop [(\<lambda>t. t, Some 104, True)] demo_t3"
    unfolding rxs_stop_and_wait_def 1 option.case sum.case prod.case if_False
    by (subst 2) (simp only: prod.case demo_t3_def)
  also have "\<dots> = Some (Inr (), demo_t4)"
    by (simp only: rxs_wait_loop.simps 3 prod.case sum.case bool.case)
  finally show ?thesis
    by (simp add: rxs_stop_once_def)
qed

end
