(* ===== verification/Link.thy ===== *)
theory Link
  imports Route
begin

text \<open>
  The session and transmit owner of the native worker (\<open>src/src/netif_l2/link.rs\<close>) and the
  one-shot claim of its storage (\<open>src/src/netif_l2/storage.rs\<close>).

  The L2 port is code of another crate: its operations are the fields of \<open>l2_port\<close> over an abstract
  port state.  A link is the port state with the last observed close revision; its registration is
  the shared route.  \<open>window\<close> is what other contexts do to the route while the port runs its network
  wake-ups outside the lock.
\<close>

section \<open>Storage\<close>

datatype storage_error = AlreadyClaimed

record storage_report =
  sr_rx_slots :: nat
  sr_tx_slots :: nat
  sr_mtu :: nat
  sr_payload_bytes :: nat
  sr_metadata_bytes :: nat
  sr_total_bytes :: nat
  sr_native_pbuf_prefix_bytes :: nat

record 'q native_storage =
  ns_queues :: 'q
  ns_claimed :: bool

definition ns_new :: "'q \<Rightarrow> 'q native_storage" where
  "ns_new queues = \<lparr> ns_queues = queues, ns_claimed = False \<rparr>"

definition ns_claim :: "('q \<Rightarrow> 'a \<Rightarrow> 'p) \<Rightarrow> 'a \<Rightarrow> 'q native_storage \<Rightarrow> (storage_error + 'p) \<times> 'q native_storage" where
  "ns_claim split_queues address s =
     (if ns_claimed s then (Inl AlreadyClaimed, s)
      else (Inr (split_queues (ns_queues s) address), s\<lparr> ns_claimed := True \<rparr>))"

definition NATIVE_RX_SLOTS :: nat where "NATIVE_RX_SLOTS = 4"
definition NATIVE_TX_SLOTS :: nat where "NATIVE_TX_SLOTS = 4"
definition NATIVE_MTU :: nat where "NATIVE_MTU = 1514"

definition ns_report :: "nat \<Rightarrow> nat \<Rightarrow> storage_report" where
  "ns_report self_bytes pbuf_prefix =
     (let payload_bytes = (NATIVE_RX_SLOTS + NATIVE_TX_SLOTS) * NATIVE_MTU
      in \<lparr> sr_rx_slots = NATIVE_RX_SLOTS, sr_tx_slots = NATIVE_TX_SLOTS, sr_mtu = NATIVE_MTU,
           sr_payload_bytes = payload_bytes, sr_metadata_bytes = self_bytes - payload_bytes,
           sr_total_bytes = self_bytes, sr_native_pbuf_prefix_bytes = pbuf_prefix \<rparr>)"

section \<open>Link\<close>

record ('p, 'k) l2_port =
  lp_ingress :: "'p \<Rightarrow> ingress"
  lp_link_down :: "'p \<Rightarrow> (queue_error + unit) \<times> 'p"
  lp_begin_session :: "'p \<Rightarrow> (queue_error + generation) \<times> 'p"
  lp_transmit :: "waker \<Rightarrow> 'p \<Rightarrow> 'k option \<times> 'p"
  lp_is_current :: "'k \<Rightarrow> 'p \<Rightarrow> bool"
  lp_generation :: "'k \<Rightarrow> generation"
  lp_frame :: "'k \<Rightarrow> u8 list"
  lp_complete :: "'k \<Rightarrow> 'p \<Rightarrow> (queue_error + unit) \<times> 'p"
  lp_drop :: "'k \<Rightarrow> 'p \<Rightarrow> 'p"

datatype 'e submit_error = NativeSubmit 'e | StaleSubmit | AdmissionClosed

record 'p native_link =
  nl_port :: 'p
  nl_observed_close :: "u64 option"

text \<open>A failed \<open>link_down\<close> drops the registration that was just claimed.\<close>

definition nl_bind ::
  "('p, 'k) l2_port \<Rightarrow> 'p \<Rightarrow> route \<Rightarrow> (link_error + 'p native_link) \<times> route" where
  "nl_bind P port r =
     (case cr_claim (lp_ingress P port) r of
        (Inl e, r1) \<Rightarrow> (Inl (RouteErr e), r1)
      | (Inr _, r1) \<Rightarrow>
         (case lp_link_down P port of
            (Inl e, port1) \<Rightarrow> (Inl (QueueErr e), snd (rg_drop r1))
          | (Inr _, port1) \<Rightarrow>
              (Inr \<lparr> nl_port = port1, nl_observed_close = rg_close_revision r1 \<rparr>, r1)))"

definition nl_begin ::
  "('p, 'k) l2_port \<Rightarrow> (route \<Rightarrow> route) \<Rightarrow> open_intent \<Rightarrow> 'p native_link \<times> route
    \<Rightarrow> (link_error + unit) \<times> 'p native_link \<times> route" where
  "nl_begin P window intent s =
     (case s of
        (l, r) \<Rightarrow>
         (case lp_begin_session P (nl_port l) of
            (Inl e, port1) \<Rightarrow> (Inl (QueueErr e), l\<lparr> nl_port := port1 \<rparr>, window r)
          | (Inr generation, port1) \<Rightarrow>
             (case rg_commit_open intent generation (window r) of
                (Inl e, r1) \<Rightarrow>
                  (case lp_link_down P port1 of
                     (Inl q, port2) \<Rightarrow> (Inl (QueueErr q), l\<lparr> nl_port := port2 \<rparr>, r1)
                   | (Inr _, port2) \<Rightarrow> (Inl (RouteErr e), l\<lparr> nl_port := port2 \<rparr>, r1))
              | (Inr _, r1) \<Rightarrow>
                  (Inr (), \<lparr> nl_port = port1, nl_observed_close = Some (oi_close_revision intent) \<rparr>, r1))))"

definition nl_begin_after_native_quiescence ::
  "('p, 'k) l2_port \<Rightarrow> (route \<Rightarrow> route) \<Rightarrow> 'p native_link \<times> route
    \<Rightarrow> (link_error + unit) \<times> 'p native_link \<times> route" where
  "nl_begin_after_native_quiescence P window s =
     (case rg_prepare_open (snd s) of
        Inl e \<Rightarrow> (Inl (RouteErr e), s)
      | Inr intent \<Rightarrow> nl_begin P window intent s)"

definition nl_close ::
  "('p, 'k) l2_port \<Rightarrow> 'p native_link \<times> route \<Rightarrow> (queue_error + unit) \<times> 'p native_link \<times> route" where
  "nl_close P s =
     (case s of
        (l, r) \<Rightarrow>
          let r1 = snd (rg_close r)
          in (case lp_link_down P (nl_port l) of
                (res, port1) \<Rightarrow>
                  (res, \<lparr> nl_port = port1, nl_observed_close = rg_close_revision r1 \<rparr>, r1)))"

definition nl_begin_initial_session_experiment ::
  "('p, 'k) l2_port \<Rightarrow> (route \<Rightarrow> route) \<Rightarrow> operation_id \<Rightarrow> 'p native_link \<times> route
    \<Rightarrow> (link_error + unit) \<times> 'p native_link \<times> route" where
  "nl_begin_initial_session_experiment P window oid s =
     (case (case rg_prepare_initial_open oid (snd s) of
              Inl e \<Rightarrow> (Inl (RouteErr e), s)
            | Inr intent \<Rightarrow> nl_begin P window intent s) of
        (Inl e, s1) \<Rightarrow> (Inl e, snd (nl_close P s1))
      | (Inr u, s1) \<Rightarrow> (Inr u, s1))"

definition nl_poll_native_close ::
  "('p, 'k) l2_port \<Rightarrow> waker \<Rightarrow> 'p native_link \<times> route
    \<Rightarrow> (queue_error + bool) \<times> 'p native_link \<times> route" where
  "nl_poll_native_close P w s =
     (case s of
        (l, r) \<Rightarrow>
         (case rg_subscribe_close w r of
            (revision, r1) \<Rightarrow>
              (if revision = nl_observed_close l then (Inr False, l, r1)
               else
                 (case lp_link_down P (nl_port l) of
                    (res, port1) \<Rightarrow>
                      (case res of Inl e \<Rightarrow> Inl e | Inr _ \<Rightarrow> Inr True,
                       \<lparr> nl_port = port1, nl_observed_close = revision \<rparr>, r1)))))"

text \<open>One transmit turn; \<open>submit\<close> is the native send, which returns with its effect on a log of the
  frames it was given, and \<open>during\<close> what happens to the route meanwhile.\<close>

definition nl_poll_transmit ::
  "('p, 'k) l2_port \<Rightarrow> waker \<Rightarrow> (u8 list \<Rightarrow> 'e + unit) \<Rightarrow> (route \<Rightarrow> route) \<Rightarrow> 'p native_link \<times> route
    \<Rightarrow> ('e submit_error + unit) poll \<times> u8 list list \<times> 'p native_link \<times> route" where
  "nl_poll_transmit P w submit during s =
     (case s of
        (l, r) \<Rightarrow>
         (case lp_transmit P w (nl_port l) of
            (None, port1) \<Rightarrow> (Pending, [], l\<lparr> nl_port := port1 \<rparr>, r)
          | (Some packet, port1) \<Rightarrow>
             (if \<not> lp_is_current P packet port1
              then (Ready (Inl StaleSubmit), [], l\<lparr> nl_port := lp_drop P packet port1 \<rparr>, r)
              else
                (case rg_enter_transmit (lp_generation P packet) r of
                   (False, r1) \<Rightarrow>
                     (Ready (Inl AdmissionClosed), [], l\<lparr> nl_port := lp_drop P packet port1 \<rparr>, r1)
                 | (True, r1) \<Rightarrow>
                    (case submit (lp_frame P packet) of
                       Inl e \<Rightarrow>
                         (Ready (Inl (NativeSubmit e)), [lp_frame P packet],
                          l\<lparr> nl_port := lp_drop P packet port1 \<rparr>, tt_drop (during r1))
                     | Inr _ \<Rightarrow>
                         (case lp_complete P packet port1 of
                            (res, port2) \<Rightarrow>
                              (Ready (case res of Inl _ \<Rightarrow> Inl StaleSubmit | Inr _ \<Rightarrow> Inr ()),
                               [lp_frame P packet], l\<lparr> nl_port := port2 \<rparr>, tt_drop (during r1))))))))"

text \<open>Dropping the link closes it, then drops its registration.\<close>

definition nl_drop :: "('p, 'k) l2_port \<Rightarrow> 'p native_link \<times> route \<Rightarrow> 'p \<times> route" where
  "nl_drop P s = (case snd (nl_close P s) of (l, r) \<Rightarrow> (nl_port l, snd (rg_drop r)))"

section \<open>Properties\<close>

lemma ns_claim_once: "\<exists>s'. ns_claim f b (snd (ns_claim f a s)) = (Inl AlreadyClaimed, s')"
  by (simp add: ns_claim_def)

lemma ns_report_sum:
  "12112 \<le> n \<Longrightarrow> sr_payload_bytes (ns_report n p) + sr_metadata_bytes (ns_report n p) = sr_total_bytes (ns_report n p)"
  by (simp add: ns_report_def NATIVE_RX_SLOTS_def NATIVE_TX_SLOTS_def NATIVE_MTU_def Let_def)

text \<open>What a successful open leaves: the route open at the intent's revision.\<close>

lemma rg_commit_open_ok:
  "rg_commit_open intent g r = (Inr u, r') \<Longrightarrow>
     cr_close_revision r = Some (oi_close_revision intent) \<and> cr_close_revision r' = cr_close_revision r \<and>
     cr_generation r = None \<and> cr_generation r' = Some g"
  by (auto simp: rg_commit_open_def split: option.splits sum.splits if_splits)

lemma rg_commit_open_err: "rg_commit_open intent g r = (Inl e, r') \<Longrightarrow> r' = r"
  by (auto simp: rg_commit_open_def split: option.splits sum.splits if_splits)

lemma rg_prepare_open_ok:
  "rg_prepare_open r = Inr intent \<Longrightarrow> cr_close_revision r = Some (oi_close_revision intent)"
  by (auto simp: rg_prepare_open_def split: option.splits if_splits)

lemma nl_begin_ok:
  assumes "nl_begin P window intent (l, r) = (Inr u, l', r')"
  shows "cr_close_revision (window r) = Some (oi_close_revision intent)"
    and "nl_observed_close l' = cr_close_revision r'" and "cr_generation r' \<noteq> None"
    and "\<exists>v. nl_observed_close l' = Some v"
  using assms rg_commit_open_ok
  by (auto simp: nl_begin_def split: prod.splits sum.splits)

lemma nl_begin_err:
  "nl_begin P window intent (l, r) = (Inl e, l', r') \<Longrightarrow> r' = window r \<and> nl_observed_close l' = nl_observed_close l"
  using rg_commit_open_err by (auto simp: nl_begin_def split: prod.splits sum.splits)

text \<open>A native close wins over a concurrent open: when admission is closed while the port runs the
  new session's network wake-ups, the open fails, the route keeps exactly the state the closing
  contexts left, and a session that the port had begun is taken down again.\<close>

theorem link_close_wins:
  assumes "\<exists>a \<in> set ops. closes a"
    and "nl_begin_after_native_quiescence P (\<lambda>_. rs_route (fold rs_step ops s)) (l, rs_route s) = (res, l', r')"
    and "rg_prepare_open (rs_route s) = Inr intent"
  shows "(\<exists>e. res = Inl e) \<and> r' = rs_route (fold rs_step ops s) \<and>
    (\<forall>g p. lp_begin_session P (nl_port l) = (Inr g, p) \<longrightarrow> nl_port l' = snd (lp_link_down P p))"
proof -
  let ?w = "rs_route (fold rs_step ops s)"
  have b: "nl_begin P (\<lambda>_. ?w) intent (l, rs_route s) = (res, l', r')"
    using assms(2,3) by (simp add: nl_begin_after_native_quiescence_def)
  have "rev_lt (Some (oi_close_revision intent)) (cr_close_revision ?w)"
    using rs_run_closed_revision [OF assms(1), of s] rg_prepare_open_ok [OF assms(3)] by simp
  then have ne: "cr_close_revision ?w \<noteq> Some (oi_close_revision intent)"
    by (rule rev_lt_neq)
  then obtain e where e: "res = Inl e"
    using nl_begin_ok(1) [of P "\<lambda>_. ?w" intent l "rs_route s" _ l' r'] b by (cases res) simp_all
  have down: "nl_port l' = snd (lp_link_down P p)" if "lp_begin_session P (nl_port l) = (Inr g, p)" for g p
  proof -
    obtain x y where xy: "rg_commit_open intent g ?w = (x, y)"
      by (cases "rg_commit_open intent g ?w") blast
    obtain c where c: "x = Inl c"
      using rg_commit_open_ok [of intent g ?w _ y] xy ne by (cases x) auto
    obtain d p2 where d: "lp_link_down P p = (d, p2)"
      by (cases "lp_link_down P p") blast
    show ?thesis
      using b that unfolding nl_begin_def prod.case that sum.case xy c d by (cases d) auto
  qed
  show ?thesis
    using e nl_begin_err b down by blast
qed

text \<open>No native close is missed: after a successful open, and whatever other contexts do to the
  route, the next poll takes the link down exactly when the close revision has moved, which every
  closing operation does; and it is then quiet until the next close.\<close>

theorem link_close_observed:
  assumes "nl_begin P window intent (l0, r0) = (Inr (), l, rs_route s)"
    and "nl_poll_native_close P w (l, rs_route (fold rs_step ops s)) = (res, l', r')"
  shows "((\<exists>a \<in> set ops. closes a) \<longrightarrow> res \<noteq> Inr False \<and> nl_port l' = snd (lp_link_down P (nl_port l)))
    \<and> fst (nl_poll_native_close P w' (l', r')) = Inr False"
proof -
  let ?r = "rs_route (fold rs_step ops s)"
  have o: "nl_observed_close l = cr_close_revision (rs_route s)" "nl_observed_close l \<noteq> None"
    using nl_begin_ok(2,4) [OF assms(1)] by auto
  have "(\<exists>a \<in> set ops. closes a) \<Longrightarrow> cr_close_revision ?r \<noteq> nl_observed_close l"
    using rs_run_closed_revision [of ops s] o rev_lt_neq by fastforce
  then show ?thesis
    using assms(2)
    by (auto simp: nl_poll_native_close_def rg_subscribe_close_def split: prod.splits sum.splits if_splits)
qed

lemma rg_enter_transmit_cases:
  "rg_enter_transmit g r = (b, r1) \<Longrightarrow>
     (if b then cr_generation r = Some g \<and>
         rd_transmits_in_flight (cr_diagnostics r1) = rd_transmits_in_flight (cr_diagnostics r) + 1
      else r1 = r)"
  by (auto simp: rg_enter_transmit_def checked_inc_Some split: if_splits option.splits)

text \<open>C14: A frame reaches the native send at most once per turn, and only when its packet is still
  current and admission is open for the packet's generation; the transmit ticket is returned on
  every path.\<close>

theorem link_transmit_guarded:
  assumes "nl_poll_transmit P w submit during (l, r) = (res, sent, l', r')"
    and "\<And>x. rd_transmits_in_flight (cr_diagnostics (during x)) = rd_transmits_in_flight (cr_diagnostics x)"
  shows "length sent \<le> 1 \<and> (res = Ready (Inr ()) \<longrightarrow> length sent = 1) \<and>
    (sent \<noteq> [] \<longrightarrow> (\<exists>k p. lp_transmit P w (nl_port l) = (Some k, p) \<and> sent = [lp_frame P k] \<and>
        lp_is_current P k p \<and> cr_generation r = Some (lp_generation P k))) \<and>
    rd_transmits_in_flight (cr_diagnostics r') = rd_transmits_in_flight (cr_diagnostics r)"
proof -
  obtain ko p where t: "lp_transmit P w (nl_port l) = (ko, p)"
    by (cases "lp_transmit P w (nl_port l)") blast
  show ?thesis
  proof (cases "\<exists>k. ko = Some k \<and> lp_is_current P k p")
    case False
    then have "sent = [] \<and> r' = r \<and> res \<noteq> Ready (Inr ())"
      using assms(1) t by (auto simp: nl_poll_transmit_def split: option.splits)
    then show ?thesis
      by simp
  next
    case True
    then obtain k where k: "ko = Some k" "lp_is_current P k p"
      by blast
    obtain b r1 where e: "rg_enter_transmit (lp_generation P k) r = (b, r1)"
      by (cases "rg_enter_transmit (lp_generation P k) r") blast
    show ?thesis
    proof (cases b)
      case False
      then have "sent = [] \<and> r' = r1 \<and> res \<noteq> Ready (Inr ())"
        using assms(1) t k e by (auto simp: nl_poll_transmit_def)
      then show ?thesis
        using rg_enter_transmit_cases [OF e] False by simp
    next
      case True
      then have s: "sent = [lp_frame P k]" "r' = tt_drop (during r1)"
        using assms(1) t k e by (auto simp: nl_poll_transmit_def split: sum.splits prod.splits)
      have "rd_transmits_in_flight (cr_diagnostics r') = rd_transmits_in_flight (cr_diagnostics r)"
        using rg_enter_transmit_cases [OF e] True by (simp add: s(2) tt_drop_def assms(2))
      then show ?thesis
        using s(1) t k rg_enter_transmit_cases [OF e] True by simp
    qed
  qed
qed

text \<open>A port with one packet waiting, for concrete runs: its state is the session and whether the packet
  is still there.\<close>

definition demo_port :: "(generation option \<times> bool, generation) l2_port" where
  "demo_port = \<lparr> lp_ingress = (\<lambda>p. 1), lp_link_down = (\<lambda>p. (Inr (), None, snd p)),
     lp_begin_session = (\<lambda>p. (Inr 5, Some 5, snd p)),
     lp_transmit = (\<lambda>w p. (if snd p then fst p else None, fst p, False)),
     lp_is_current = (\<lambda>k p. fst p = Some k), lp_generation = (\<lambda>k. k), lp_frame = (\<lambda>k. [1, 2, 3]),
     lp_complete = (\<lambda>k p. (Inr (), p)), lp_drop = (\<lambda>k p. p) \<rparr>"

definition demo_link :: "(generation option \<times> bool) native_link" where
  "demo_link = \<lparr> nl_port = (None, True), nl_observed_close = Some 0 \<rparr>"

theorem link_transmit_guarded_witness:
  "fst (snd (nl_poll_transmit demo_port 9 (\<lambda>f. Inr () :: unit + unit) (\<lambda>r. r)
     (\<lparr> nl_port = (Some 5, True), nl_observed_close = Some 0 \<rparr>, cr_new\<lparr> cr_generation := Some 5 \<rparr>)))
   = [[1, 2, 3]] \<and>
   rd_transmits_in_flight (cr_diagnostics (snd (snd (snd (nl_poll_transmit demo_port 9
     (\<lambda>f. Inr () :: unit + unit) (\<lambda>r. r)
     (\<lparr> nl_port = (Some 5, True), nl_observed_close = Some 0 \<rparr>, cr_new\<lparr> cr_generation := Some 5 \<rparr>)))))) = 0"
proof -
  let ?q = "nl_poll_transmit demo_port 9 (\<lambda>f. Inr () :: unit + unit) (\<lambda>r. r)
     (\<lparr> nl_port = (Some 5, True), nl_observed_close = Some 0 \<rparr>, cr_new\<lparr> cr_generation := Some 5 \<rparr>)"
  have q: "?q = (fst ?q, fst (snd ?q), fst (snd (snd ?q)), snd (snd (snd ?q)))"
    by simp
  have "fst (snd ?q) = [[1, 2, 3]]"
    by (simp add: nl_poll_transmit_def demo_port_def rg_enter_transmit_def cr_new_def checked_inc_def)
  moreover have "rd_transmits_in_flight (cr_diagnostics (cr_new\<lparr> cr_generation := Some 5 \<rparr>)) = 0"
    by (simp add: cr_new_def)
  ultimately show ?thesis
    using link_transmit_guarded [OF q] by simp
qed

end
