(* ===== verification/Disconnect.thy ===== *)
theory Disconnect
  imports Deauth HostTx UserCleanup Route RxStop
begin

text \<open>
  Tearing a session down: the parts of \<open>src/src/upstream_supplicant.rs\<close> that drive the receipt
  queue, the host transmit tracker, the user tracker, the callback route and the receive stop
  together, and the wrapper of the vendor's user delete (\<open>src/src/netif_l2/user_cleanup.rs\<close>).

  \<open>dsys\<close> holds the components as the statics of the crate do.  The vendor's ioctl, the C supplicant's
  disconnect and the semaphore are functions that return the state they leave, so that callbacks
  from inside a native call are covered; the drain's readings are those of theory \<open>HostTx\<close>.  The
  ring used without the \<open>standard-l2\<close> feature is \<open>lq\<close>.
\<close>

section \<open>Legacy request ring\<close>

definition DEAUTH_QUEUE_CAPACITY :: nat where
  [simp]: "DEAUTH_QUEUE_CAPACITY = 4"

record lq =
  lq_requests :: "u16 list"
  lq_head :: nat
  lq_len :: nat

definition lq_new :: lq where
  "lq_new = \<lparr> lq_requests = replicate DEAUTH_QUEUE_CAPACITY 0, lq_head = 0, lq_len = 0 \<rparr>"

definition lq_push :: "u16 \<Rightarrow> lq \<Rightarrow> bool \<times> lq" where
  "lq_push request q =
     (if lq_len q = DEAUTH_QUEUE_CAPACITY then (False, q)
      else
        let tail = (lq_head q + lq_len q) mod DEAUTH_QUEUE_CAPACITY
        in (True, q\<lparr> lq_requests := (lq_requests q)[tail := request], lq_len := lq_len q + 1 \<rparr>))"

definition lq_pop :: "lq \<Rightarrow> u16 option \<times> lq" where
  "lq_pop q =
     (if lq_len q = 0 then (None, q)
      else (Some (lq_requests q ! lq_head q),
            q\<lparr> lq_head := (lq_head q + 1) mod DEAUTH_QUEUE_CAPACITY, lq_len := lq_len q - 1 \<rparr>))"

section \<open>State\<close>

definition DEAUTH_WORKER_FREE :: u8 where "DEAUTH_WORKER_FREE = 0"
definition DEAUTH_WORKER_STARTING :: u8 where "DEAUTH_WORKER_STARTING = 1"
definition DEAUTH_WORKER_READY :: u8 where "DEAUTH_WORKER_READY = 2"
definition DEAUTH_WORKER_POISONED :: u8 where "DEAUTH_WORKER_POISONED = 3"

record dsys =
  ds_queue :: dq
  ds_tx :: ht
  ds_users :: uc
  ds_route :: route
  ds_rx :: rxs
  ds_worker :: u8
  ds_queued :: u32
  ds_completed :: u32
  ds_failed :: u32
  ds_dropped :: u32

text \<open>The environment of a native call: the clock and the readings of the drain, what other contexts
  do to the system while it waits, and the vendor's ioctl (status, reason as left, state).\<close>

record denv =
  de_clock :: "u64 option"
  de_readings :: "ht \<Rightarrow> (ht \<times> u64 option \<times> bool) list"
  de_final :: "ht \<Rightarrow> ht"
  de_meanwhile :: "dsys \<Rightarrow> dsys"
  de_ioctl :: "u16 \<Rightarrow> dsys \<Rightarrow> i32 \<times> u16 \<times> dsys"

section \<open>Worker\<close>

definition ds_close_route :: "dsys \<Rightarrow> dsys" where
  "ds_close_route s = s\<lparr> ds_route := snd (cr_close_admission (ds_route s)) \<rparr>"

definition uc_native_checked_status :: "i32 \<Rightarrow> uc \<Rightarrow> i32" where
  "uc_native_checked_status status t = sint (uc_checked_status (word_of_int status) t)"

definition uc_native_handshake_status :: "uc \<Rightarrow> i32" where
  "uc_native_handshake_status t = sint (uc_handshake_status t)"

definition disconnect_after_host_tx_drain :: "denv \<Rightarrow> u16 \<Rightarrow> dsys \<Rightarrow> (i32 \<times> u16 \<times> dsys) option" where
  "disconnect_after_host_tx_drain env reason s =
     (case ht_close_and_drain (de_clock env) (de_readings env) (de_final env) (ds_tx s) of
        None \<Rightarrow> None
      | Some (Inl status, t) \<Rightarrow> Some (status, reason, de_meanwhile env (s\<lparr> ds_tx := t \<rparr>))
      | Some (Inr _, t) \<Rightarrow> Some (de_ioctl env reason (de_meanwhile env (s\<lparr> ds_tx := t \<rparr>))))"

text \<open>\<open>start_deauth_worker\<close>: \<open>init\<close> and \<open>spawn\<close> are the results of the semaphore and task creation
  (\<open>Inl\<close>: the driver's error).\<close>

definition start_deauth_worker :: "'e \<Rightarrow> ('e + unit) \<Rightarrow> ('e + unit) \<Rightarrow> dsys \<Rightarrow> ('e + unit) \<times> dsys" where
  "start_deauth_worker already_installed init spawn s =
     (if ds_worker s \<noteq> DEAUTH_WORKER_FREE
      then (if ds_worker s = DEAUTH_WORKER_READY then Inr () else Inl already_installed, s)
      else
        (case init of
           Inl e \<Rightarrow> (Inl e, s\<lparr> ds_worker := DEAUTH_WORKER_POISONED \<rparr>)
         | Inr _ \<Rightarrow>
            (case spawn of
               Inl e \<Rightarrow> (Inl e, s\<lparr> ds_worker := DEAUTH_WORKER_POISONED \<rparr>)
             | Inr _ \<Rightarrow> (Inr (), s\<lparr> ds_worker := DEAUTH_WORKER_READY \<rparr>))))"

text \<open>One turn of the worker's inner loop; \<open>None\<close>: the native call has not returned, \<open>Some (False, _)\<close>:
  nothing to do, the worker goes back to its semaphore.\<close>

definition deauth_worker_turn :: "denv \<Rightarrow> dsys \<Rightarrow> (bool \<times> dsys) option" where
  "deauth_worker_turn env s =
     (case dq_pop (ds_queue s) of
        (None, q) \<Rightarrow> Some (False, s\<lparr> ds_queue := q \<rparr>)
      | (Some request, q) \<Rightarrow>
         (case disconnect_after_host_tx_drain env (drq_reason request) (s\<lparr> ds_queue := q \<rparr>) of
            None \<Rightarrow> None
          | Some (status0, _, s1) \<Rightarrow>
             let status = uc_native_checked_status status0 (ds_users s1)
             in (case dq_complete (drq_ticket request) status (ds_queue s1) of
                   (result, q2) \<Rightarrow>
                     let s2 = s1\<lparr> ds_queue := q2,
                          ds_worker := (case result of Inl _ \<Rightarrow> DEAUTH_WORKER_POISONED | Inr _ \<Rightarrow> ds_worker s1) \<rparr>
                     in Some (True, if status = 0 then s2\<lparr> ds_completed := ds_completed s2 + 1 \<rparr>
                                    else s2\<lparr> ds_failed := ds_failed s2 + 1 \<rparr>))))"

text \<open>The synchronous recovery call: \<open>deauth::run_inline\<close> with the whole system as the state its two
  closures run on.\<close>

definition run_inline_sys ::
  "u16 \<Rightarrow> (u16 \<Rightarrow> dsys \<Rightarrow> (i32 \<times> u16 \<times> dsys) option) \<Rightarrow> (dsys \<Rightarrow> bool \<times> dsys) \<Rightarrow> dsys
    \<Rightarrow> ((derror + i32) \<times> u16 \<times> dsys) option" where
  "run_inline_sys reason native wake s =
     (case dq_begin_inline reason (ds_queue s) of
        (Inl e, q1) \<Rightarrow> Some (Inl e, reason, s\<lparr> ds_queue := q1 \<rparr>)
      | (Inr request, q1) \<Rightarrow>
         (case native reason (s\<lparr> ds_queue := q1 \<rparr>) of
            None \<Rightarrow> None
          | Some (status, reason', s2) \<Rightarrow>
             (case dq_complete (drq_ticket request) status (ds_queue s2) of
                (completed, q3) \<Rightarrow>
                 (case wake (s2\<lparr> ds_queue := q3 \<rparr>) of
                    (woken, s4) \<Rightarrow>
                      let s5 = (if woken then s4 else s4\<lparr> ds_queue := dq_wake_failed (ds_queue s4) \<rparr>)
                      in Some (case completed of
                                 Inl e \<Rightarrow> Inl e
                               | Inr _ \<Rightarrow> (case dq_health (ds_queue s5) of Inl e \<Rightarrow> Inl e | Inr _ \<Rightarrow> Inr status),
                               reason', s5)))))"

definition disconnect_inline :: "denv \<Rightarrow> (dsys \<Rightarrow> bool \<times> dsys) \<Rightarrow> u16 \<Rightarrow> dsys \<Rightarrow> (i32 \<times> u16 \<times> dsys) option" where
  "disconnect_inline env wake reason s0 =
     (let s = ds_close_route s0
      in if ds_worker s \<noteq> DEAUTH_WORKER_READY
         then Some (derror_status WorkerUnavailable, reason,
                    s\<lparr> ds_queue := dq_worker_unavailable (ds_queue s) \<rparr>)
         else
           (case run_inline_sys reason
                   (\<lambda>r s. case disconnect_after_host_tx_drain env r s of
                            None \<Rightarrow> None
                          | Some (status, r', s1) \<Rightarrow>
                              Some (uc_native_checked_status status (ds_users s1), r', s1))
                   wake s of
              None \<Rightarrow> None
            | Some (Inl e, r', s1) \<Rightarrow> Some (derror_status e, r', s1)
            | Some (Inr status, r', s1) \<Rightarrow> Some (status, r', s1)))"

definition queue_deauthentication :: "(dsys \<Rightarrow> bool \<times> dsys) \<Rightarrow> u16 \<Rightarrow> dsys \<Rightarrow> i32 \<times> dsys" where
  "queue_deauthentication wake reason s0 =
     (let s = ds_close_route s0;
          s1 = s\<lparr> ds_tx := ht_close (ds_tx s) \<rparr>
      in if ds_worker s \<noteq> DEAUTH_WORKER_READY
         then (- 1, s1\<lparr> ds_queue := dq_worker_unavailable (ds_queue s1) \<rparr>)
         else
           (case dq_push reason (ds_queue s1) of
              (Inl _, q) \<Rightarrow> (- 1, s1\<lparr> ds_queue := q, ds_dropped := ds_dropped s1 + 1 \<rparr>)
            | (Inr _, q) \<Rightarrow>
               (case wake (s1\<lparr> ds_queue := q, ds_queued := ds_queued s1 + 1 \<rparr>) of
                  (True, s2) \<Rightarrow> (0, s2)
                | (False, s2) \<Rightarrow>
                    (- 1, s2\<lparr> ds_queue := dq_wake_failed (ds_queue s2),
                             ds_worker := DEAUTH_WORKER_POISONED \<rparr>))))"

text \<open>The wrapper of the vendor's user delete.\<close>

definition user_delete :: "addr \<Rightarrow> (dsys \<Rightarrow> u32 \<times> dsys) \<Rightarrow> dsys \<Rightarrow> u32 \<times> dsys" where
  "user_delete user real_delete s0 =
     (let s = ds_close_route s0
      in (case uc_begin user (ds_users s) of
            (ticket, u) \<Rightarrow>
              (case real_delete (s\<lparr> ds_tx := ht_close (ds_tx s), ds_users := u \<rparr>) of
                 (status, s1) \<Rightarrow>
                   (case uc_finish ticket status (ds_users s1) of
                      (result, u1) \<Rightarrow> (result, s1\<lparr> ds_users := u1 \<rparr>)))))"

section \<open>Supplicant\<close>

text \<open>The disconnect receipt of the supplicant owner: an error status, or the receipt of a call that
  may still run.\<close>

type_synonym dreceipt_state = "i32 + dreceipt option"

definition disconnect_ioctls_returned :: "dreceipt_state \<Rightarrow> dq \<Rightarrow> (i32 + bool) \<times> dreceipt_state" where
  "disconnect_ioctls_returned rc q =
     (case rc of
        Inl e \<Rightarrow> (Inl e, rc)
      | Inr receipt \<Rightarrow>
         (case (case dq_poll_idle q of
                  Inl e \<Rightarrow> Inl e
                | Inr p \<Rightarrow>
                   (case receipt of
                      None \<Rightarrow> Inr (\<not> is_pending p)
                    | Some r \<Rightarrow>
                       (case dq_poll r q of
                          Inl e \<Rightarrow> Inl e
                        | Inr p' \<Rightarrow> Inr (\<not> is_pending p' \<and> \<not> is_pending p)))) of
            Inr False \<Rightarrow> (Inr False, rc)
          | Inr True \<Rightarrow> (Inr True, Inr None)
          | Inl e \<Rightarrow> (Inl (derror_status e), Inl (derror_status e))))"

definition require_disconnect_returned :: "dreceipt_state \<Rightarrow> dq \<Rightarrow> (i32 + unit) \<times> dreceipt_state" where
  "require_disconnect_returned rc q =
     (case disconnect_ioctls_returned rc q of
        (Inl e, rc1) \<Rightarrow> (Inl e, rc1)
      | (Inr True, rc1) \<Rightarrow> (Inr (), rc1)
      | (Inr False, rc1) \<Rightarrow> (Inl (- 0x6307), rc1))"

text \<open>\<open>wpa_disconnect\<close> is the C supplicant's call, which queues any number of requests.\<close>

definition supplicant_disconnect ::
  "(dsys \<Rightarrow> i32 \<times> dsys) \<Rightarrow> dreceipt_state \<times> dsys \<Rightarrow> (i32 + unit) \<times> dreceipt_state \<times> dsys" where
  "supplicant_disconnect wpa_disconnect s =
     (case s of
        (rc, d) \<Rightarrow>
         (case require_disconnect_returned rc (ds_queue d) of
            (Inl e, rc1) \<Rightarrow> (Inl e, rc1, d)
          | (Inr _, rc1) \<Rightarrow>
             let before = dq_checkpoint (ds_queue d)
             in (case wpa_disconnect d of
                   (status, d1) \<Rightarrow>
                     (case dq_receipt_since before (ds_queue d1) of
                        Inl e \<Rightarrow> (Inl (derror_status e), Inl (derror_status e), d1)
                      | Inr r \<Rightarrow> (if status = 0 then Inr () else Inl status, Inr (Some r), d1)))))"

text \<open>The terminal stop; \<open>stop\<close> is \<open>rx_stop::stop_once\<close> with what its worker does to the transaction
  while it waits, \<open>stopping\<close> what other contexts do to the rest of the system in that time.\<close>

definition finish_disconnect ::
  "denv \<Rightarrow> (rxs \<Rightarrow> ((i32 + unit) \<times> rxs) option) \<Rightarrow> (dsys \<Rightarrow> dsys) \<Rightarrow> dreceipt_state \<times> dsys
    \<Rightarrow> ((i32 + unit) \<times> dreceipt_state \<times> dsys) option" where
  "finish_disconnect env stop stopping s =
     (case s of
        (rc, d) \<Rightarrow>
         (case require_disconnect_returned rc (ds_queue d) of
            (Inl e, rc1) \<Rightarrow> Some (Inl e, rc1, d)
          | (Inr _, rc1) \<Rightarrow>
             (case ht_seal_and_drain (de_clock env) (de_readings env) (de_final env) (ds_tx d) of
                None \<Rightarrow> None
              | Some (Inl e, t) \<Rightarrow> Some (Inl e, rc1, de_meanwhile env (d\<lparr> ds_tx := t \<rparr>))
              | Some (Inr _, t) \<Rightarrow>
                 let d1 = de_meanwhile env (d\<lparr> ds_tx := t \<rparr>);
                     status = uc_native_checked_status 0 (ds_users d1)
                 in if status \<noteq> 0 then Some (Inl status, rc1, d1)
                    else (case stop (ds_rx d1) of
                            None \<Rightarrow> None
                          | Some (res, x) \<Rightarrow> Some (res, rc1, (stopping d1)\<lparr> ds_rx := x \<rparr>)))))"

section \<open>The legacy ring is a queue\<close>

definition lq_contents :: "lq \<Rightarrow> u16 list" where
  "lq_contents q = take (lq_len q) (rotate (lq_head q) (lq_requests q))"

definition lq_ok :: "lq \<Rightarrow> bool" where
  "lq_ok q \<longleftrightarrow> length (lq_requests q) = 4 \<and> lq_head q < 4 \<and> lq_len q \<le> 4"

definition lq_accept :: "u16 \<Rightarrow> lq \<Rightarrow> lq option" where
  "lq_accept r q = (case lq_push r q of (ok, q1) \<Rightarrow> if ok then Some q1 else None)"

definition lq_serve :: "lq \<Rightarrow> (u16 \<times> lq) option" where
  "lq_serve q = (case lq_pop q of (None, _) \<Rightarrow> None | (Some r, q1) \<Rightarrow> Some (r, q1))"

interpretation legacy_fifo: fifo lq_accept lq_serve lq_contents lq_ok
proof unfold_locales
  fix q q' x
  assume "lq_ok q" "lq_accept x q = Some q'"
  then show "lq_ok q' \<and> lq_contents q' = lq_contents q @ [x]"
    using ring_append [of "lq_len q" "lq_requests q" "lq_head q" x]
    by (auto simp: lq_ok_def lq_accept_def lq_push_def lq_contents_def Let_def split: if_splits)
next
  fix q q' x
  assume "lq_ok q" "lq_serve q = Some (x, q')"
  then show "lq_ok q' \<and> lq_contents q = x # lq_contents q'"
    using ring_remove [of "lq_head q" "lq_requests q" "lq_len q"]
    by (auto simp: lq_ok_def lq_serve_def lq_pop_def lq_contents_def split: if_splits)
qed

lemma lq_served_in_order:
  "qrun lq_accept lq_serve ops lq_new = (accepted, served, q) \<Longrightarrow> accepted = served @ lq_contents q"
  by (rule legacy_fifo.run_prefix [of lq_new]) (simp_all add: lq_ok_def lq_new_def lq_contents_def)

section \<open>Composition\<close>

text \<open>On the queue alone, the recovery call over the whole system is the one of theory \<open>Deauth\<close>.\<close>

lemma run_inline_sys_refines:
  assumes "\<And>r s. \<exists>n. native r s = Some n \<and> (fst n, fst (snd n), ds_queue (snd (snd n))) = native_q r (ds_queue s)"
    and "\<And>s. (fst (wake s), ds_queue (snd (wake s))) = wake_q (ds_queue s)"
  shows "\<exists>n. run_inline_sys reason native wake s = Some n \<and>
    (fst n, fst (snd n), ds_queue (snd (snd n))) = dq_run_inline reason native_q wake_q (ds_queue s)"
proof (cases "dq_begin_inline reason (ds_queue s)")
  case (Pair r q1)
  show ?thesis
  proof (cases r)
    case (Inl e)
    then show ?thesis
      using Pair by (simp add: run_inline_sys_def dq_run_inline_def)
  next
    case (Inr request)
    obtain st r' s2 where n: "native reason (s\<lparr> ds_queue := q1 \<rparr>) = Some (st, r', s2)"
      "native_q reason q1 = (st, r', ds_queue s2)"
      using assms(1) [of reason "s\<lparr> ds_queue := q1 \<rparr>"] by auto
    obtain c q3 where c: "dq_complete (drq_ticket request) st (ds_queue s2) = (c, q3)"
      by (cases "dq_complete (drq_ticket request) st (ds_queue s2)") blast
    obtain w s4 where w: "wake (s2\<lparr> ds_queue := q3 \<rparr>) = (w, s4)" "wake_q q3 = (w, ds_queue s4)"
      using assms(2) [of "s2\<lparr> ds_queue := q3 \<rparr>"]
      by (cases "wake (s2\<lparr> ds_queue := q3 \<rparr>)") auto
    show ?thesis
      using Pair Inr n c w
      by (auto simp: run_inline_sys_def dq_run_inline_def Let_def split: sum.split)
  qed
qed

text \<open>The receipt is settled only by an idle queue.\<close>

lemma require_disconnect_returned_idle:
  assumes "require_disconnect_returned rc q = (Inr u, rc')"
  shows "dq_poll_idle q = Inr (Ready ())"
proof -
  have p: "\<not> is_pending p \<Longrightarrow> p = Ready ()" for p :: "unit poll"
    by (cases p) simp_all
  show ?thesis
    using assms p
    by (auto simp: require_disconnect_returned_def disconnect_ioctls_returned_def
        split: sum.splits option.splits bool.splits prod.splits)
qed

lemma ht_seal_and_drain_ok:
  assumes "ht_seal_and_drain clock readings (fold ht_step hops) t = Some (Inr u, t')"
  shows "ht_terminal t' \<and> hd_closed (ht_diag t') \<and>
    (\<exists>x \<in> set (readings (ht_close (ht_seal t))). ht_drained (fst x) = Inr True)"
proof -
  have "ht_terminal (ht_close (ht_seal t)) \<and> hd_closed (ht_diag (ht_close (ht_seal t)))"
    by (simp add: ht_seal_def ht_close_def)
  from host_tx_seal.latch_run.run_inv [OF this, of hops] assms show ?thesis
    by (auto simp: ht_seal_and_drain_def ht_close_and_drain_def ht_wait_for_drain_def Let_def
        dest: ht_wait_loop_Inr split: option.splits sum.splits)
qed

lemma uc_native_checked_status_zero:
  "uc_native_checked_status 0 t = 0 \<longleftrightarrow> ud_fault (uc_diag t) = 0"
proof -
  have "sint w = 0 \<longleftrightarrow> w = 0" for w :: u32
    by (rule signed_eq_0_iff)
  then show ?thesis
    by (simp add: uc_native_checked_status_def uc_checked_status_def)
qed

text \<open>The state a deauthentication request works on, with both admissions closed.\<close>

lemma queue_deauthentication_closes:
  obtains c where "cr_generation (ds_route c) = None" "hd_closed (ht_diag (ds_tx c))" "ds_queue c = ds_queue s"
    "ds_dropped c = ds_dropped s"
    "queue_deauthentication wake reason s =
      (if ds_worker s \<noteq> DEAUTH_WORKER_READY then (- 1, c\<lparr> ds_queue := dq_worker_unavailable (ds_queue c) \<rparr>)
       else (case dq_push reason (ds_queue c) of
              (Inl _, q) \<Rightarrow> (- 1, c\<lparr> ds_queue := q, ds_dropped := ds_dropped c + 1 \<rparr>)
            | (Inr _, q) \<Rightarrow>
               (case wake (c\<lparr> ds_queue := q, ds_queued := ds_queued c + 1 \<rparr>) of
                  (True, s2) \<Rightarrow> (0, s2)
                | (False, s2) \<Rightarrow> (- 1, s2\<lparr> ds_queue := dq_wake_failed (ds_queue s2),
                             ds_worker := DEAUTH_WORKER_POISONED \<rparr>))))"
proof -
  define c where "c = (ds_close_route s)\<lparr> ds_tx := ht_close (ds_tx (ds_close_route s)) \<rparr>"
  have "cr_generation (ds_route c) = None" "hd_closed (ht_diag (ds_tx c))" "ds_queue c = ds_queue s"
    "ds_dropped c = ds_dropped s" "ds_worker (ds_close_route s) = ds_worker s"
    by (simp_all add: c_def ds_close_route_def cr_close_admission_def st_close_admission_def ht_close_def Let_def)
  note c = this
  show ?thesis
  proof (rule that [of c])
    show "queue_deauthentication wake reason s =
      (if ds_worker s \<noteq> DEAUTH_WORKER_READY then (- 1, c\<lparr> ds_queue := dq_worker_unavailable (ds_queue c) \<rparr>)
       else (case dq_push reason (ds_queue c) of
              (Inl _, q) \<Rightarrow> (- 1, c\<lparr> ds_queue := q, ds_dropped := ds_dropped c + 1 \<rparr>)
            | (Inr _, q) \<Rightarrow>
               (case wake (c\<lparr> ds_queue := q, ds_queued := ds_queued c + 1 \<rparr>) of
                  (True, s2) \<Rightarrow> (0, s2)
                | (False, s2) \<Rightarrow> (- 1, s2\<lparr> ds_queue := dq_wake_failed (ds_queue s2),
                             ds_worker := DEAUTH_WORKER_POISONED \<rparr>))))"
      unfolding queue_deauthentication_def Let_def c_def [symmetric] c(5) by simp
  qed (use c in simp_all)
qed

section \<open>Properties\<close>

text \<open>C15: A disconnect that is reported finished went through every step of the teardown: when it
  began, each deauthentication ioctl ever issued had returned status 0; host transmit was sealed,
  closed and seen drained; when the receive stop was started no user teardown had failed; and the
  one-shot receive stop has returned.  Host transmit is still sealed and closed at the end.  Other
  contexts may do anything to the system while the drain and the stop wait, except that they use host
  transmit through its operations.\<close>

theorem finish_disconnect_complete:
  assumes "finish_disconnect env (rxs_stop_once queued clock send posted turns late) stopping (rc, d)
      = Some (Inr (), rc', d')"
    and "ds_queue d = fold dq_step ops dq_new" and "de_final env = fold ht_step hops"
    and meanwhile: "\<And>s. \<exists>hops. ds_tx (de_meanwhile env s) = fold ht_step hops (ds_tx s)"
    and stopping: "\<And>s. \<exists>hops. ds_tx (stopping s) = fold ht_step hops (ds_tx s)"
  shows "length (dq_log ops dq_new) = unat (dq_issued (ds_queue d)) \<and> set (dq_log ops dq_new) \<subseteq> {0} \<and>
    (\<exists>x \<in> set (de_readings env (ht_close (ht_seal (ds_tx d)))). ht_drained (fst x) = Inr True) \<and>
    (\<exists>t. ud_fault (uc_diag (ds_users (de_meanwhile env (d\<lparr> ds_tx := t \<rparr>)))) = 0 \<and>
       ht_terminal t \<and> hd_closed (ht_diag t) \<and>
       d' = (stopping (de_meanwhile env (d\<lparr> ds_tx := t \<rparr>)))\<lparr> ds_rx := ds_rx d' \<rparr>) \<and>
    ht_terminal (ds_tx d') \<and> hd_closed (ht_diag (ds_tx d')) \<and> rxs_phase (ds_rx d') = rx_phase.Returned"
proof -
  obtain u rc1 where req: "require_disconnect_returned rc (ds_queue d) = (Inr u, rc1)"
    using assms(1) by (auto simp: finish_disconnect_def split: prod.splits sum.splits)
  obtain t where dr: "ht_seal_and_drain (de_clock env) (de_readings env) (de_final env) (ds_tx d) = Some (Inr (), t)"
    using assms(1) req by (auto simp: finish_disconnect_def split: option.splits prod.splits sum.splits)
  define d1 where "d1 = de_meanwhile env (d\<lparr> ds_tx := t \<rparr>)"
  have st: "ud_fault (uc_diag (ds_users d1)) = 0"
    using assms(1) req dr
    by (auto simp: finish_disconnect_def Let_def d1_def uc_native_checked_status_zero split: if_splits)
  obtain x where x: "rxs_stop_once queued clock send posted turns late (ds_rx d1) = Some (Inr (), x)"
    "d' = (stopping d1)\<lparr> ds_rx := x \<rparr>"
    using assms(1) req dr st
    by (auto simp: finish_disconnect_def Let_def d1_def uc_native_checked_status_zero
        split: option.splits prod.splits)
  have stopped: "rxs_phase x = rx_phase.Returned"
    using x(1) rxs_stop_and_wait_cases [of queued clock send posted turns "ds_rx d1"]
    by (auto simp: rxs_stop_once_def split: option.splits prod.splits sum.splits)
  note sealed = ht_seal_and_drain_ok [OF dr [unfolded assms(3)]]
  obtain h1 h2 where h: "ds_tx d1 = fold ht_step h1 t" "ds_tx (stopping d1) = fold ht_step h2 (ds_tx d1)"
    using meanwhile [of "d\<lparr> ds_tx := t \<rparr>"] stopping [of d1] by (auto simp: d1_def)
  have keep: "ht_terminal (fold ht_step hs t) \<and> hd_closed (ht_diag (fold ht_step hs t))" for hs
    by (rule host_tx_seal.latch_run.run_inv) (use sealed in simp)
  have "ht_terminal (ds_tx d') \<and> hd_closed (ht_diag (ds_tx d'))"
    using keep [of "h1 @ h2"] h x(2) by simp
  moreover have "length (dq_log ops dq_new) = unat (dq_issued (ds_queue d)) \<and> set (dq_log ops dq_new) \<subseteq> {0}"
  proof -
    obtain a where R: "dq_rel a (ds_queue d)" and c: "aq_completed a = dq_log ops dq_new"
      using dq_sim_reachable [of ops] assms(2) by (auto simp: dq_sim_def)
    show ?thesis
      using dq_idle_rel [OF R require_disconnect_returned_idle [OF req]] dq_rel_issued [OF R]
      unfolding c by auto
  qed
  moreover have "\<exists>t. ud_fault (uc_diag (ds_users (de_meanwhile env (d\<lparr> ds_tx := t \<rparr>)))) = 0 \<and>
       ht_terminal t \<and> hd_closed (ht_diag t) \<and>
       d' = (stopping (de_meanwhile env (d\<lparr> ds_tx := t \<rparr>)))\<lparr> ds_rx := ds_rx d' \<rparr>"
    using st sealed x(2) by (intro exI [of _ t]) (simp add: d1_def)
  ultimately show ?thesis
    using sealed stopped x(2) by simp
qed

text \<open>C16: A deauthentication request closes receive and transmit admission before anything else.  It
  answers 0 exactly when the worker was ready, the queue took the next ticket, and the wake of the
  worker reported success; the wake runs when both are closed and the ticket is queued, and may do
  anything, for example run the whole request.  A refusal is never silent: it answers -1, and from
  then on every receipt for an interval that began before the request is refused, whatever the queue
  does later.\<close>

theorem queue_deauthentication_exact:
  assumes "queue_deauthentication wake reason s = (status, s')"
  shows "\<exists>pre. cr_generation (ds_route pre) = None \<and> hd_closed (ht_diag (ds_tx pre)) \<and>
      (if ds_worker s = DEAUTH_WORKER_READY
       then (case dq_push reason (ds_queue s) of
          (Inl _, q) \<Rightarrow> status = - 1 \<and> s' = pre \<and> ds_queue s' = q \<and> ds_dropped s' = ds_dropped s + 1
        | (Inr ticket, q) \<Rightarrow> ticket = DTicket (dq_issued (ds_queue s) + 1) \<and> ds_queue pre = q \<and>
            status = (if fst (wake pre) then 0 else - 1) \<and>
            (if fst (wake pre) then s' = snd (wake pre) else ds_worker s' = DEAUTH_WORKER_POISONED))
       else status = - 1 \<and> s' = pre) \<and>
      (status \<noteq> 0 \<longrightarrow>
        (\<forall>later. \<exists>e. dq_receipt_since (dq_checkpoint (ds_queue s)) (fold dq_step later (ds_queue s')) = Inl e))"
proof -
  obtain c where c: "cr_generation (ds_route c) = None" "hd_closed (ht_diag (ds_tx c))" "ds_queue c = ds_queue s"
      "ds_dropped c = ds_dropped s"
    and Q: "queue_deauthentication wake reason s =
      (if ds_worker s \<noteq> DEAUTH_WORKER_READY then (- 1, c\<lparr> ds_queue := dq_worker_unavailable (ds_queue c) \<rparr>)
       else (case dq_push reason (ds_queue c) of
              (Inl _, q) \<Rightarrow> (- 1, c\<lparr> ds_queue := q, ds_dropped := ds_dropped c + 1 \<rparr>)
            | (Inr _, q) \<Rightarrow>
               (case wake (c\<lparr> ds_queue := q, ds_queued := ds_queued c + 1 \<rparr>) of
                  (True, s2) \<Rightarrow> (0, s2)
                | (False, s2) \<Rightarrow> (- 1, s2\<lparr> ds_queue := dq_wake_failed (ds_queue s2),
                             ds_worker := DEAUTH_WORKER_POISONED \<rparr>))))"
    by (rule queue_deauthentication_closes)
  have flag: "\<exists>e. dq_receipt_since (dq_checkpoint (ds_queue s)) (fold dq_step later q) = Inl e"
    if "dq_flagged (dq_rejected (ds_queue s)) q" for later q
    using dq_flagged_no_receipt [of "dq_checkpoint (ds_queue s)"] that by (simp add: dq_checkpoint_def)
  show ?thesis
  proof (cases "ds_worker s = DEAUTH_WORKER_READY")
    case False
    then show ?thesis
      using assms c flag [of "dq_worker_unavailable (ds_queue s)"] unfolding Q
      by (intro exI [of _ s']) (auto simp: dq_worker_unavailable_def dq_flagged_def)
  next
    case ready: True
    obtain r q where p: "dq_push reason (ds_queue s) = (r, q)"
      by (cases "dq_push reason (ds_queue s)") blast
    show ?thesis
    proof (cases r)
      case (Inl e)
      then show ?thesis
        using assms ready p c flag [OF dq_push_refused [of reason]] unfolding Q
        by (intro exI [of _ s']) auto
    next
      case (Inr ticket)
      have k: "ticket = DTicket (dq_issued (ds_queue s) + 1)"
        using p Inr by (auto simp: dq_push_def Let_def apfst_def map_prod_def checked_inc_Some
            split: option.splits if_splits prod.splits)
      let ?pre = "c\<lparr> ds_queue := q, ds_queued := ds_queued c + 1 \<rparr>"
      obtain b x where w: "wake ?pre = (b, x)"
        by (cases "wake ?pre") blast
      show ?thesis
        using assms ready p Inr w c k flag [of "dq_wake_failed (ds_queue x)"] unfolding Q
        by (intro exI [of _ ?pre]; cases b) (auto simp: dq_wake_failed_def dq_flagged_def)
    qed
  qed
qed

text \<open>A system at rest, with the worker ready and the receive stop installed.\<close>

definition demo_sys :: dsys where
  "demo_sys = \<lparr> ds_queue = fold dq_step [OpPush 3, OpPop, OpComplete (DTicket 1) 0] dq_new, ds_tx = ht_new,
     ds_users = uc_new, ds_route = cr_new, ds_rx = fold rxs_step [XInstall] rxs_new,
     ds_worker = DEAUTH_WORKER_READY, ds_queued = 1, ds_completed = 1, ds_failed = 0, ds_dropped = 0 \<rparr>"

definition demo_env :: denv where
  "demo_env = \<lparr> de_clock = Some 10, de_readings = (\<lambda>t. [(t, Some 11, True)]),
     de_final = fold ht_step [], de_meanwhile = (\<lambda>s. s\<lparr> ds_users := ds_users s \<rparr>),
     de_ioctl = (\<lambda>r s. (0, r, s)) \<rparr>"

text \<open>While the stop waits a user teardown fails and host transmit is closed once more.\<close>

definition demo_stopping :: "dsys \<Rightarrow> dsys" where
  "demo_stopping s = s\<lparr> ds_users := uc_step (UBegin 0) (ds_users s), ds_tx := ht_step HClose (ds_tx s) \<rparr>"

lemma demo_finish:
  "\<exists>d'. finish_disconnect demo_env
     (rxs_stop_once False (Some 100) demo_send (Some 103) [(\<lambda>t. t, Some 104, True)] (\<lambda>t. t)) demo_stopping
     (Inr None, demo_sys) = Some (Inr (), Inr None, d')"
proof -
  have q: "dq_poll_idle (ds_queue demo_sys) = Inr (Ready ())"
    by code_simp
  have t: "ht_drained (ht_close (ht_seal ht_new)) = Inr True"
    by code_simp
  have u: "uc_native_checked_status 0 uc_new = 0"
    by (simp add: uc_native_checked_status_zero uc_new_def)
  have x: "rxs_stop_once False (Some 100) demo_send (Some 103) [(\<lambda>t. t, Some 104, True)] (\<lambda>t. t)
     (ds_rx demo_sys) = Some (Inr (), demo_t4)"
    using demo_stop by (simp only: demo_sys_def dsys.simps)
  have d: "ht_seal_and_drain (de_clock demo_env) (de_readings demo_env) (de_final demo_env) (ds_tx demo_sys)
      = Some (Inr (), ht_close (ht_seal ht_new))"
    using t by (simp add: ht_seal_and_drain_def ht_close_and_drain_def ht_wait_for_drain_def demo_env_def
        demo_sys_def Let_def)
  have r: "require_disconnect_returned (Inr None) (ds_queue demo_sys) = (Inr (), Inr None)"
    using q by (simp add: require_disconnect_returned_def disconnect_ioctls_returned_def)
  have m: "ds_users (de_meanwhile demo_env (demo_sys\<lparr> ds_tx := h \<rparr>)) = uc_new"
    "ds_rx (de_meanwhile demo_env (demo_sys\<lparr> ds_tx := h \<rparr>)) = ds_rx demo_sys" for h
    by (simp_all add: demo_env_def demo_sys_def)
  show ?thesis
    using r d u x by (simp add: finish_disconnect_def Let_def m)
qed

theorem finish_disconnect_complete_witness:
  "\<exists>d'. finish_disconnect demo_env
     (rxs_stop_once False (Some 100) demo_send (Some 103) [(\<lambda>t. t, Some 104, True)] (\<lambda>t. t)) demo_stopping
     (Inr None, demo_sys) = Some (Inr (), Inr None, d') \<and>
   ht_terminal (ds_tx d') \<and> rxs_phase (ds_rx d') = rx_phase.Returned"
proof -
  obtain d' where f: "finish_disconnect demo_env
     (rxs_stop_once False (Some 100) demo_send (Some 103) [(\<lambda>t. t, Some 104, True)] (\<lambda>t. t)) demo_stopping
     (Inr None, demo_sys) = Some (Inr (), Inr None, d')"
    using demo_finish by blast
  have q: "ds_queue demo_sys = fold dq_step [OpPush 3, OpPop, OpComplete (DTicket 1) 0] dq_new"
    by (simp only: demo_sys_def dsys.simps)
  have h: "de_final demo_env = fold ht_step []"
    by (simp only: demo_env_def denv.simps)
  have m: "\<exists>hops. ds_tx (de_meanwhile demo_env s) = fold ht_step hops (ds_tx s)" for s
    by (rule exI [of _ "[]"]) (simp add: demo_env_def)
  have w: "\<exists>hops. ds_tx (demo_stopping s) = fold ht_step hops (ds_tx s)" for s
    by (rule exI [of _ "[HClose]"]) (simp add: demo_stopping_def)
  from finish_disconnect_complete [OF f q h m w] f show ?thesis
    by blast
qed

text \<open>The worker runs the request while it is being woken.\<close>

definition demo_wake :: "dsys \<Rightarrow> bool \<times> dsys" where
  "demo_wake s = (True, s\<lparr> ds_queue := fold dq_step [OpPop, OpComplete (DTicket 2) 0] (ds_queue s) \<rparr>)"

theorem queue_deauthentication_exact_witness:
  "(\<exists>pre. cr_generation (ds_route pre) = None \<and> snd (queue_deauthentication demo_wake 3 demo_sys) = snd (demo_wake pre)) \<and>
   (\<exists>e. dq_receipt_since (dq_checkpoint (ds_queue demo_sys))
      (ds_queue (snd (queue_deauthentication (\<lambda>s. (False, s)) 3 demo_sys))) = Inl e)"
proof
  let ?r = "queue_deauthentication demo_wake 3 demo_sys"
  have w: "ds_worker demo_sys = DEAUTH_WORKER_READY"
    by (simp add: demo_sys_def)
  have "fst (dq_push 3 (ds_queue demo_sys)) = Inr (DTicket 2)"
    by code_simp
  then obtain q where p: "dq_push 3 (ds_queue demo_sys) = (Inr (DTicket 2), q)"
    by (metis prod.collapse)
  have "fst (demo_wake s) = True" for s
    by (simp add: demo_wake_def)
  from queue_deauthentication_exact [of demo_wake 3 demo_sys "fst ?r" "snd ?r"]
  show "\<exists>pre. cr_generation (ds_route pre) = None \<and> snd ?r = snd (demo_wake pre)"
    using w p \<open>\<And>s. fst (demo_wake s) = True\<close> by auto
next
  let ?r = "queue_deauthentication (\<lambda>s. (False, s)) 3 demo_sys"
  have f: "fst ?r \<noteq> 0"
    by code_simp
  from queue_deauthentication_exact [of "\<lambda>s. (False, s)" 3 demo_sys "fst ?r" "snd ?r", OF prod.collapse [symmetric]] f
  have "\<forall>later. \<exists>e. dq_receipt_since (dq_checkpoint (ds_queue demo_sys)) (fold dq_step later (ds_queue (snd ?r))) = Inl e"
    by blast
  from spec [OF this, of "[]"] show "\<exists>e. dq_receipt_since (dq_checkpoint (ds_queue demo_sys)) (ds_queue (snd ?r)) = Inl e"
    by simp
qed

end
