(* ===== verification/OsalQueue.thy ===== *)
theory OsalQueue
  imports Prelude
begin

unbundle bit_operations_syntax

text \<open>
  Message queues and event groups of the operating-system layer (\<open>src/src/osal_queue.rs\<close>).

  A queue is its byte ring with a counting semaphore; an event group is a bit mask with eight
  waiter slots.  The semaphore is code of another crate: \<open>sem_ops\<close> over an abstract semaphore
  state.  Null handles are \<open>None\<close>; allocations are arguments (\<open>None\<close>: out of memory).  The tracing
  of the \<open>ble-init\<close> features is left out, apart from its hexadecimal formatter.
\<close>

definition OSAL_OK :: i32 where "OSAL_OK = 0"
definition OSAL_NOK :: i32 where "OSAL_NOK = 1"

section \<open>Hexadecimal trace\<close>

definition emit_hex32 :: "u32 \<Rightarrow> u8 list" where
  "emit_hex32 value =
     map (\<lambda>index. let nibble = ucast ((drop_bit ((7 - index) * 4) value) AND 0xf) :: u8
                  in if nibble < 10 then 0x30 + nibble else 0x61 + nibble - 10) [0..<8]"

section \<open>Message queue\<close>

record 's sem_ops =
  so_up :: "'s \<Rightarrow> bool \<times> 's"
  so_down :: "u32 \<Rightarrow> 's \<Rightarrow> bool \<times> 's"

record 's mq =
  mq_items :: 's
  mq_ring :: "u8 list"
  mq_item_size :: nat
  mq_cap :: nat
  mq_head :: nat
  mq_count :: nat

text \<open>\<open>fresh\<close> is the ring allocation, \<open>header\<close> whether the queue object could be allocated; the result
  carries the queue and whether the ring was freed again.\<close>

definition osal_msg_queue_create ::
  "bool \<Rightarrow> u16 \<Rightarrow> u16 \<Rightarrow> (nat \<Rightarrow> u8 list option) \<Rightarrow> bool \<Rightarrow> 's \<Rightarrow> i32 \<times> 's mq option \<times> bool" where
  "osal_msg_queue_create id_null queue_len max_msgsize kmalloc header sem =
     (if id_null \<or> queue_len = 0 \<or> max_msgsize = 0 then (OSAL_NOK, None, False)
      else
        let cap = unat queue_len; isz = unat max_msgsize
        in (case kmalloc (cap * isz) of
              None \<Rightarrow> (OSAL_NOK, None, False)
            | Some ring \<Rightarrow>
                (if \<not> header then (OSAL_NOK, None, True)
                 else (OSAL_OK, Some \<lparr> mq_items = sem, mq_ring = ring, mq_item_size = isz,
                         mq_cap = cap, mq_head = 0, mq_count = 0 \<rparr>, False))))"

text \<open>\<open>copy_nonoverlapping\<close> into the ring.\<close>

definition overwrite :: "nat \<Rightarrow> 'a list \<Rightarrow> 'a list \<Rightarrow> 'a list" where
  "overwrite off bs xs = take off xs @ bs @ drop (off + length bs) xs"

definition mq_enqueue :: "u8 list \<Rightarrow> u32 \<Rightarrow> 's mq \<Rightarrow> bool \<times> 's mq" where
  "mq_enqueue buffer buffer_size m =
     (if mq_count m \<ge> mq_cap m then (False, m)
      else
        let n = min (unat buffer_size) (mq_item_size m);
            slot = (mq_head m + mq_count m) mod mq_cap m
        in (True, m\<lparr> mq_ring := overwrite (slot * mq_item_size m) (take n buffer) (mq_ring m),
                    mq_count := mq_count m + 1 \<rparr>))"

definition osal_msg_queue_write_copy ::
  "'s sem_ops \<Rightarrow> u8 list option \<Rightarrow> u32 \<Rightarrow> 's mq option \<Rightarrow> i32 \<times> 's mq option" where
  "osal_msg_queue_write_copy ops buffer buffer_size q =
     (case (q, buffer) of
        (Some m, Some b) \<Rightarrow>
          (case mq_enqueue b buffer_size m of
             (False, m1) \<Rightarrow> (OSAL_NOK, Some m1)
           | (True, m1) \<Rightarrow>
               (case so_up ops (mq_items m1) of
                  (ok, s) \<Rightarrow> (if ok then OSAL_OK else OSAL_NOK, Some (m1\<lparr> mq_items := s \<rparr>))))
      | _ \<Rightarrow> (OSAL_NOK, q))"

text \<open>The dequeue under the lock: the bytes copied out, if there was an item.\<close>

definition mq_dequeue :: "u32 option \<Rightarrow> 's mq \<Rightarrow> u8 list option \<times> 's mq" where
  "mq_dequeue buffer_size m =
     (if mq_count m = 0 then (None, m)
      else
        let want = (case buffer_size of None \<Rightarrow> mq_item_size m | Some n \<Rightarrow> min (unat n) (mq_item_size m))
        in (Some (take want (drop (mq_head m * mq_item_size m) (mq_ring m))),
            m\<lparr> mq_head := (mq_head m + 1) mod mq_cap m, mq_count := mq_count m - 1 \<rparr>))"

definition osal_msg_queue_read_copy ::
  "'s sem_ops \<Rightarrow> bool \<Rightarrow> u32 option \<Rightarrow> u32 \<Rightarrow> 's mq option \<Rightarrow> i32 \<times> u8 list option \<times> 's mq option" where
  "osal_msg_queue_read_copy ops buffer_null buffer_size timeout q =
     (case q of
        None \<Rightarrow> (OSAL_NOK, None, q)
      | Some m \<Rightarrow>
         (if buffer_null then (OSAL_NOK, None, q)
          else
            (case so_down ops timeout (mq_items m) of
               (acquired, s) \<Rightarrow>
                 let m1 = m\<lparr> mq_items := s \<rparr>
                 in if \<not> acquired then (OSAL_NOK, None, Some m1)
                    else (case mq_dequeue buffer_size m1 of (d, m2) \<Rightarrow> (OSAL_OK, d, Some m2)))))"

definition osal_msg_queue_is_full :: "'s mq option \<Rightarrow> i32" where
  "osal_msg_queue_is_full q = (case q of None \<Rightarrow> 0 | Some m \<Rightarrow> if mq_count m \<ge> mq_cap m then 1 else 0)"

definition osal_msg_queue_get_msg_num :: "'s mq option \<Rightarrow> u32" where
  "osal_msg_queue_get_msg_num q = (case q of None \<Rightarrow> - 1 | Some m \<Rightarrow> of_nat (mq_count m))"

definition osal_msg_queue_item_size :: "'s mq option \<Rightarrow> u32" where
  "osal_msg_queue_item_size q = (case q of None \<Rightarrow> 0 | Some m \<Rightarrow> of_nat (mq_item_size m))"

text \<open>Deletion frees the ring and the queue object and destroys the semaphore; the result is the number
  of frees.\<close>

definition osal_msg_queue_delete :: "('s \<Rightarrow> 's) \<Rightarrow> 's mq option \<Rightarrow> nat \<times> 's option" where
  "osal_msg_queue_delete destroy q =
     (case q of None \<Rightarrow> (0, None) | Some m \<Rightarrow> (2, Some (destroy (mq_items m))))"

section \<open>Event group\<close>

definition WAITMODE_AND :: u32 where "WAITMODE_AND = 4"
definition WAITMODE_CLR :: u32 where "WAITMODE_CLR = 1"
definition MAX_EVENT_WAITERS :: nat where "MAX_EVENT_WAITERS = 8"
definition MAX_EVENT_GROUPS :: nat where "MAX_EVENT_GROUPS = 16"

record event_waiter =
  ew_semaphore :: addr
  ew_mask :: u32
  ew_mode :: u32

definition ew_EMPTY :: event_waiter where
  "ew_EMPTY = \<lparr> ew_semaphore = 0, ew_mask = 0, ew_mode = 0 \<rparr>"

record event_group =
  eg_bits :: u32
  eg_waiters :: "event_waiter list"
  eg_reads :: u32
  eg_writes :: u32
  eg_matches :: u32
  eg_last_read_mask :: u32
  eg_last_write_mask :: u32
  eg_last_mode :: u32

record event_diagnostic =
  ed_event :: addr
  ed_bits :: u32
  ed_reads :: u32
  ed_writes :: u32
  ed_matches :: u32
  ed_last_read_mask :: u32
  ed_last_write_mask :: u32
  ed_last_mode :: u32

definition eg_new :: event_group where
  "eg_new = \<lparr> eg_bits = 0, eg_waiters = replicate MAX_EVENT_WAITERS ew_EMPTY, eg_reads = 0,
     eg_writes = 0, eg_matches = 0, eg_last_read_mask = 0, eg_last_write_mask = 0, eg_last_mode = 0 \<rparr>"

text \<open>The registry is an array of addresses, 0 for a free slot.\<close>

definition register_event_group :: "addr \<Rightarrow> addr list \<Rightarrow> bool \<times> addr list" where
  "register_event_group grp groups =
     (case position (\<lambda>a. a = 0) groups of
        None \<Rightarrow> (False, groups)
      | Some i \<Rightarrow> (True, groups[i := grp]))"

definition unregister_event_group :: "addr \<Rightarrow> addr list \<Rightarrow> addr list" where
  "unregister_event_group grp groups =
     (case position (\<lambda>a. a = grp) groups of None \<Rightarrow> groups | Some i \<Rightarrow> groups[i := 0])"

definition event_diagnostics :: "(addr \<Rightarrow> event_group) \<Rightarrow> addr list \<Rightarrow> nat \<Rightarrow> event_diagnostic list" where
  "event_diagnostics deref groups room =
     map (\<lambda>p. let g = deref p in
            \<lparr> ed_event = p, ed_bits = eg_bits g, ed_reads = eg_reads g, ed_writes = eg_writes g,
              ed_matches = eg_matches g, ed_last_read_mask = eg_last_read_mask g,
              ed_last_write_mask = eg_last_write_mask g, ed_last_mode = eg_last_mode g \<rparr>)
       (take room (filter (\<lambda>p. p \<noteq> 0) groups))"

text \<open>The event object is the pointer it holds (0: null) and the group behind it; the first result of
  \<open>osal_event_init\<close> is the status, \<open>freed\<close> tells that the group was freed again.\<close>

definition osal_event_init ::
  "bool \<Rightarrow> addr \<Rightarrow> addr list \<Rightarrow> i32 \<times> (addr \<times> event_group) option \<times> addr list" where
  "osal_event_init obj_null g groups =
     (if obj_null \<or> g = 0 then (OSAL_NOK, None, groups)
      else
        (case register_event_group g groups of
           (False, groups1) \<Rightarrow> (OSAL_NOK, None, groups1)
         | (True, groups1) \<Rightarrow> (OSAL_OK, Some (g, eg_new), groups1)))"

definition event_matches :: "u32 \<Rightarrow> u32 \<Rightarrow> u32 \<Rightarrow> u32 option" where
  "event_matches bits wanted mode =
     (let matched = bits AND wanted;
          satisfied = (if mode AND WAITMODE_AND \<noteq> 0 then matched = wanted \<and> wanted \<noteq> 0 else matched \<noteq> 0)
      in if satisfied then Some matched else None)"

definition poll_event :: "u32 \<Rightarrow> u32 \<Rightarrow> event_group \<Rightarrow> u32 option \<times> event_group" where
  "poll_event wanted mode g =
     (case event_matches (eg_bits g) wanted mode of
        None \<Rightarrow> (None, g)
      | Some matched \<Rightarrow>
          let g1 = g\<lparr> eg_matches := sat_inc (eg_matches g) \<rparr>
          in (Some matched, if mode AND WAITMODE_CLR \<noteq> 0
                            then g1\<lparr> eg_bits := eg_bits g1 AND NOT matched \<rparr> else g1))"

definition unregister_waiter :: "addr \<Rightarrow> event_group \<Rightarrow> event_group" where
  "unregister_waiter semaphore g =
     (case position (\<lambda>w. ew_semaphore w = semaphore) (eg_waiters g) of
        None \<Rightarrow> g
      | Some i \<Rightarrow> g\<lparr> eg_waiters := (eg_waiters g)[i := ew_EMPTY] \<rparr>)"

text \<open>One pass of the read loop, in the parts between which other contexts run: the first poll, the
  time check, and the registration with a second poll.\<close>

definition read_poll :: "u32 \<Rightarrow> u32 \<Rightarrow> event_group \<Rightarrow> u32 option \<times> event_group" where
  "read_poll wanted mode g =
     poll_event wanted mode (g\<lparr> eg_reads := sat_inc (eg_reads g), eg_last_read_mask := wanted, eg_last_mode := mode \<rparr>)"

definition read_register ::
  "addr \<Rightarrow> u32 \<Rightarrow> u32 \<Rightarrow> event_group \<Rightarrow> (unit + u32 option) \<times> event_group" where
  "read_register semaphore wanted mode g =
     (case poll_event wanted mode g of
        (Some matched, g1) \<Rightarrow> (Inr (Some matched), g1)
      | (None, g1) \<Rightarrow>
         (case position (\<lambda>w. ew_semaphore w = 0) (eg_waiters g1) of
            None \<Rightarrow> (Inl (), g1)
          | Some i \<Rightarrow>
              (Inr None, g1\<lparr> eg_waiters := (eg_waiters g1)
                 [i := \<lparr> ew_semaphore = semaphore, ew_mask = wanted, ew_mode = mode \<rparr>] \<rparr>)))"

definition read_remaining :: "u32 \<Rightarrow> u64 \<Rightarrow> u64 \<Rightarrow> u32 option" where
  "read_remaining timeout_ms deadline now =
     (if timeout_ms = - 1 then Some (- 1)
      else if now \<ge> deadline then None
      else Some (ucast (min (deadline - now) 0xffffffff)))"

text \<open>\<open>et_wait\<close> gives, for the remaining time, whether the private semaphore was acquired and the group
  after what other contexts did meanwhile.\<close>

record read_turn =
  et_now :: u64
  et_init_ok :: bool
  et_semaphore :: addr
  et_between :: "event_group \<Rightarrow> event_group"
  et_wait :: "u32 \<Rightarrow> event_group \<Rightarrow> bool \<times> event_group"

fun event_read_loop :: "u32 \<Rightarrow> u32 \<Rightarrow> u32 \<Rightarrow> u64 \<Rightarrow> read_turn list \<Rightarrow> event_group \<Rightarrow> (i32 \<times> event_group) option" where
  "event_read_loop wanted timeout_ms mode deadline [] g = None"
| "event_read_loop wanted timeout_ms mode deadline (t # ts) g =
     (case read_poll wanted mode g of
        (Some m, g1) \<Rightarrow> Some (sint m, g1)
      | (None, g1) \<Rightarrow>
         (case read_remaining timeout_ms deadline (et_now t) of
            None \<Rightarrow> Some (0, g1)
          | Some remaining \<Rightarrow>
             (if \<not> et_init_ok t then Some (OSAL_NOK, g1)
              else
                (case read_register (et_semaphore t) wanted mode (et_between t g1) of
                   (Inr (Some m), g2) \<Rightarrow> Some (sint m, g2)
                 | (Inl _, g2) \<Rightarrow> Some (OSAL_NOK, g2)
                 | (Inr None, g2) \<Rightarrow>
                    (case et_wait t remaining g2 of
                       (acquired, g3) \<Rightarrow>
                         let g4 = unregister_waiter (et_semaphore t) g3
                         in if \<not> acquired then Some (OSAL_NOK, g4)
                            else event_read_loop wanted timeout_ms mode deadline ts g4)))))"

definition osal_event_read ::
  "u32 \<Rightarrow> u32 \<Rightarrow> u32 \<Rightarrow> u64 \<Rightarrow> read_turn list \<Rightarrow> event_group option \<Rightarrow> (i32 \<times> event_group option) option" where
  "osal_event_read wanted timeout_ms mode jiffies turns e =
     (case e of
        None \<Rightarrow> Some (0, None)
      | Some g \<Rightarrow>
          map_option (apsnd Some) (event_read_loop wanted timeout_ms mode (jiffies + ucast timeout_ms) turns g))"

text \<open>The semaphores a write has to wake, in slot order.\<close>

definition event_set :: "u32 \<Rightarrow> event_group \<Rightarrow> addr list \<times> event_group" where
  "event_set wanted g =
     (let g1 = g\<lparr> eg_bits := eg_bits g OR wanted, eg_writes := sat_inc (eg_writes g), eg_last_write_mask := wanted \<rparr>
      in (map (\<lambda>w. if ew_semaphore w \<noteq> 0 \<and> event_matches (eg_bits g1) (ew_mask w) (ew_mode w) \<noteq> None
                   then ew_semaphore w else 0) (eg_waiters g1), g1))"

fun wake_all :: "(addr \<Rightarrow> bool) \<Rightarrow> addr list \<Rightarrow> addr list \<times> bool" where
  "wake_all up [] = ([], True)"
| "wake_all up (p # ps) = (if up p then apfst (Cons p) (wake_all up ps) else ([p], False))"

definition osal_event_write :: "(addr \<Rightarrow> bool) \<Rightarrow> u32 \<Rightarrow> event_group option \<Rightarrow> i32 \<times> addr list \<times> event_group option" where
  "osal_event_write up wanted e =
     (case e of
        None \<Rightarrow> (OSAL_NOK, [], None)
      | Some g \<Rightarrow>
         (case event_set wanted g of
            (waiters, g1) \<Rightarrow>
              (case wake_all up (filter (\<lambda>p. p \<noteq> 0) waiters) of
                 (woken, ok) \<Rightarrow> (if ok then OSAL_OK else OSAL_NOK, woken, Some g1))))"

definition osal_event_clear :: "u32 \<Rightarrow> event_group option \<Rightarrow> i32 \<times> event_group option" where
  "osal_event_clear wanted e =
     (case e of
        None \<Rightarrow> (OSAL_NOK, None)
      | Some g \<Rightarrow> (OSAL_OK, Some (g\<lparr> eg_bits := eg_bits g AND NOT wanted \<rparr>)))"

definition osal_event_destroy :: "addr option \<Rightarrow> addr list \<Rightarrow> i32 \<times> addr list" where
  "osal_event_destroy e groups =
     (case e of None \<Rightarrow> (OSAL_NOK, groups) | Some g \<Rightarrow> (OSAL_OK, unregister_event_group g groups))"

section \<open>The byte ring as a list of items\<close>

definition mq_item :: "nat \<Rightarrow> u8 list \<Rightarrow> nat \<Rightarrow> u8 list" where
  "mq_item isz ring j = take isz (drop (j * isz) ring)"

definition mq_contents :: "'s mq \<Rightarrow> u8 list list" where
  "mq_contents m = map (\<lambda>i. mq_item (mq_item_size m) (mq_ring m) ((mq_head m + i) mod mq_cap m)) [0..<mq_count m]"

definition mq_ok :: "'s mq \<Rightarrow> bool" where
  "mq_ok m \<longleftrightarrow> 0 < mq_cap m \<and> mq_head m < mq_cap m \<and> mq_count m \<le> mq_cap m \<and>
     length (mq_ring m) = mq_cap m * mq_item_size m"

text \<open>An item agrees with a message when it starts with what fits of it.\<close>

definition mq_agrees :: "nat \<Rightarrow> u8 list \<Rightarrow> u8 list \<Rightarrow> bool" where
  "mq_agrees isz msg d \<longleftrightarrow> take (min (length msg) isz) msg = take (min (length msg) isz) d"

lemma mq_agrees_exact: "mq_agrees isz msg d \<Longrightarrow> length msg = isz \<Longrightarrow> length d = isz \<Longrightarrow> d = msg"
  by (simp add: mq_agrees_def)

lemma length_overwrite: "off + length bs \<le> length xs \<Longrightarrow> length (overwrite off bs xs) = length xs"
  by (simp add: overwrite_def)

lemma item_end: "s < cap \<Longrightarrow> s * isz + isz \<le> cap * (isz::nat)"
  by (metis Suc_leI add.commute mult_Suc mult_le_mono1)

lemma mq_item_overwrite_same:
  assumes "s < cap" "length ring = cap * isz" "length bs \<le> isz"
  shows "mq_item isz (overwrite (s * isz) bs ring) s = bs @ drop (length bs) (mq_item isz ring s)"
proof -
  have "s * isz \<le> length ring"
    using assms(1,2) by simp
  then have "mq_item isz (overwrite (s * isz) bs ring) s = take isz (bs @ drop (s * isz + length bs) ring)"
    by (simp add: mq_item_def overwrite_def)
  also have "\<dots> = bs @ take (isz - length bs) (drop (s * isz + length bs) ring)"
    using assms(3) by simp
  also have "\<dots> = bs @ drop (length bs) (mq_item isz ring s)"
    by (simp add: mq_item_def drop_take add.commute)
  finally show ?thesis .
qed

lemma overwrite_before:
  "k + n \<le> off \<Longrightarrow> off \<le> length xs \<Longrightarrow> take n (drop k (overwrite off bs xs)) = take n (drop k xs)"
  by (simp add: overwrite_def take_drop min_def)

lemma overwrite_after:
  "off + length bs \<le> k \<Longrightarrow> off \<le> length xs \<Longrightarrow> drop k (overwrite off bs xs) = drop k xs"
  by (simp add: overwrite_def)

lemma mq_item_overwrite_other:
  assumes "s < cap" "j < cap" "s \<noteq> j" "length ring = cap * isz" "length bs \<le> isz"
  shows "mq_item isz (overwrite (s * isz) bs ring) j = mq_item isz ring j"
proof -
  have l: "s * isz \<le> length ring"
    using assms(1,4) by simp
  consider "j < s" | "s < j"
    using assms(3) by linarith
  then show ?thesis
  proof cases
    case 1
    show ?thesis
      unfolding mq_item_def by (rule overwrite_before [OF item_end [OF 1] l])
  next
    case 2
    have "s * isz + length bs \<le> j * isz"
      using item_end [OF 2, of isz] assms(5) by linarith
    then show ?thesis
      unfolding mq_item_def by (simp only: overwrite_after l)
  qed
qed

text \<open>Distinct places of the ring are distinct slots.\<close>

lemma ring_slots: "i < cap \<Longrightarrow> j < cap \<Longrightarrow> (h + i) mod cap = (h + j) mod cap \<Longrightarrow> i = (j::nat)"
  using add_mod_inj [of i cap j h] by simp

lemma mq_enqueue_contents:
  assumes ok: "mq_ok m" and e: "mq_enqueue b n m = (True, m')"
  shows "mq_ok m'" and "mq_item_size m' = mq_item_size m"
    and "\<exists>d. mq_contents m' = mq_contents m @ [d] \<and> mq_agrees (mq_item_size m) (take (unat n) b) d"
proof -
  define isz s bs where "isz = mq_item_size m" and "s = (mq_head m + mq_count m) mod mq_cap m"
    and "bs = take (min (unat n) (mq_item_size m)) b"
  have c: "mq_count m < mq_cap m"
    and m': "m' = m\<lparr> mq_ring := overwrite (s * isz) bs (mq_ring m), mq_count := mq_count m + 1 \<rparr>"
    using e by (auto simp: mq_enqueue_def Let_def isz_def s_def bs_def split: if_splits)
  have s: "s < mq_cap m" and l: "length (mq_ring m) = mq_cap m * isz" and bl: "length bs \<le> isz"
    using ok by (auto simp: mq_ok_def isz_def s_def bs_def)
  have r: "length (overwrite (s * isz) bs (mq_ring m)) = mq_cap m * isz"
    using length_overwrite [of "s * isz" bs "mq_ring m"] item_end [OF s, of isz] l bl by simp
  show "mq_ok m'" "mq_item_size m' = mq_item_size m"
    using ok c r by (simp_all add: m' mq_ok_def isz_def)
  have keep: "mq_item isz (overwrite (s * isz) bs (mq_ring m)) ((mq_head m + i) mod mq_cap m)
      = mq_item isz (mq_ring m) ((mq_head m + i) mod mq_cap m)" if "i < mq_count m" for i
  proof (rule mq_item_overwrite_other [OF s _ _ l bl])
    show "s \<noteq> (mq_head m + i) mod mq_cap m"
      using ring_slots [of "mq_count m" "mq_cap m" i "mq_head m"] that c by (auto simp: s_def)
  qed (use ok in \<open>simp add: mq_ok_def\<close>)
  define d where "d = bs @ drop (length bs) (mq_item isz (mq_ring m) s)"
  have "mq_contents m' = mq_contents m @ [d]"
    using keep mq_item_overwrite_same [OF s l bl]
    by (simp add: mq_contents_def m' isz_def [symmetric] s_def [symmetric] d_def)
  moreover have "mq_agrees isz (take (unat n) b) d"
  proof -
    have "take (min (length (take (unat n) b)) isz) (take (unat n) b) = bs"
      by (auto simp: bs_def isz_def min_def)
    moreover have "length bs = min (length (take (unat n) b)) isz"
      by (simp add: bs_def isz_def)
    ultimately show ?thesis
      unfolding mq_agrees_def d_def by simp
  qed
  ultimately show "\<exists>d. mq_contents m' = mq_contents m @ [d] \<and> mq_agrees (mq_item_size m) (take (unat n) b) d"
    unfolding isz_def by blast
qed

lemma mq_dequeue_contents:
  assumes ok: "mq_ok m" and e: "mq_dequeue None m = (Some d, m')"
  shows "mq_ok m'" and "mq_item_size m' = mq_item_size m" and "mq_contents m = d # mq_contents m'"
proof -
  have c: "0 < mq_count m" and d: "d = mq_item (mq_item_size m) (mq_ring m) (mq_head m)"
    and m': "m' = m\<lparr> mq_head := (mq_head m + 1) mod mq_cap m, mq_count := mq_count m - 1 \<rparr>"
    using e by (auto simp: mq_dequeue_def mq_item_def Let_def split: if_splits)
  show "mq_ok m'" "mq_item_size m' = mq_item_size m"
    using ok by (auto simp: m' mq_ok_def)
  obtain k where k: "mq_count m = Suc k"
    using c by (cases "mq_count m") auto
  have "(Suc (mq_head m) mod mq_cap m + i) mod mq_cap m = Suc (mq_head m + i) mod mq_cap m" for i
    by (simp add: mod_add_left_eq)
  then show "mq_contents m = d # mq_contents m'"
    using ok by (simp add: mq_contents_def m' d k upt_conv_Cons map_Suc_upt [symmetric] mq_ok_def
        del: upt_Suc)
qed

section \<open>Runs\<close>

datatype mop = MWrite "u8 list" u32 | MRead u32

text \<open>A run of writes and full-size reads: the messages that were stored and the items that were
  delivered.\<close>

fun mq_run :: "'s sem_ops \<Rightarrow> mop list \<Rightarrow> 's mq \<Rightarrow> u8 list list \<times> u8 list list \<times> 's mq" where
  "mq_run ops [] m = ([], [], m)"
| "mq_run ops (MWrite b n # rest) m =
     (case osal_msg_queue_write_copy ops (Some b) n (Some m) of
        (_, m1) \<Rightarrow>
          (case mq_run ops rest (the m1) of
             (ac, de, m2) \<Rightarrow>
               (if mq_count (the m1) = mq_count m + 1 then take (unat n) b # ac else ac, de, m2)))"
| "mq_run ops (MRead timeout # rest) m =
     (case osal_msg_queue_read_copy ops False None timeout (Some m) of
        (_, d, m1) \<Rightarrow>
          (case mq_run ops rest (the m1) of
             (ac, de, m2) \<Rightarrow> (ac, case d of None \<Rightarrow> de | Some x \<Rightarrow> x # de, m2)))"

lemma mq_items_irrelevant [simp]:
  "mq_ok (m\<lparr> mq_items := s \<rparr>) = mq_ok m" "mq_contents (m\<lparr> mq_items := s \<rparr>) = mq_contents m"
  by (simp_all add: mq_ok_def mq_contents_def)

lemma mq_write_cases:
  assumes "mq_ok m"
  obtains (full) st where "osal_msg_queue_write_copy ops (Some b) n (Some m) = (st, Some m)"
  | (stored) st m1 d where "osal_msg_queue_write_copy ops (Some b) n (Some m) = (st, Some m1)"
      "mq_count m1 = mq_count m + 1" "mq_ok m1" "mq_item_size m1 = mq_item_size m"
      "mq_contents m1 = mq_contents m @ [d]" "mq_agrees (mq_item_size m) (take (unat n) b) d"
proof (cases "mq_enqueue b n m")
  case (Pair ok m0)
  show ?thesis
  proof (cases ok)
    case False
    then have "m0 = m"
      using Pair by (auto simp: mq_enqueue_def Let_def split: if_splits)
    then show ?thesis
      using Pair False by (intro full) (simp add: osal_msg_queue_write_copy_def)
  next
    case True
    have P: "mq_enqueue b n m = (True, m0)"
      using Pair True by simp
    note e = mq_enqueue_contents [OF assms P]
    obtain d where d: "mq_contents m0 = mq_contents m @ [d]" "mq_agrees (mq_item_size m) (take (unat n) b) d"
      using e(3) by blast
    have "mq_count m0 = mq_count m + 1"
      using Pair True by (auto simp: mq_enqueue_def Let_def split: if_splits)
    moreover obtain up s where "so_up ops (mq_items m0) = (up, s)"
      by (cases "so_up ops (mq_items m0)") blast
    ultimately show ?thesis
      using Pair True e(1,2) d
      by (intro stored [of "if up then OSAL_OK else OSAL_NOK" "m0\<lparr> mq_items := s \<rparr>" d])
        (simp_all add: osal_msg_queue_write_copy_def)
  qed
qed

lemma mq_read_cases:
  assumes "mq_ok m"
  obtains (nothing) st s where "osal_msg_queue_read_copy ops False None t (Some m) = (st, None, Some (m\<lparr> mq_items := s \<rparr>))"
  | (item) d m1 where "osal_msg_queue_read_copy ops False None t (Some m) = (OSAL_OK, Some d, Some m1)"
      "mq_ok m1" "mq_item_size m1 = mq_item_size m" "mq_contents m = d # mq_contents m1"
proof -
  obtain ac s where dn: "so_down ops t (mq_items m) = (ac, s)"
    by (cases "so_down ops t (mq_items m)") blast
  obtain x m1 where dq: "mq_dequeue None (m\<lparr> mq_items := s \<rparr>) = (x, m1)"
    by (cases "mq_dequeue None (m\<lparr> mq_items := s \<rparr>)") blast
  show ?thesis
  proof (cases "ac \<and> x \<noteq> None")
    case True
    then obtain d where "x = Some d" "ac" by auto
    then show ?thesis
      using mq_dequeue_contents [of "m\<lparr> mq_items := s \<rparr>" d m1] assms dq dn
      by (intro item [of d m1]) (simp_all add: osal_msg_queue_read_copy_def)
  next
    case False
    then have "x = None \<longrightarrow> m1 = m\<lparr> mq_items := s \<rparr>"
      using dq by (auto simp: mq_dequeue_def Let_def split: if_splits)
    then have "osal_msg_queue_read_copy ops False None t (Some m) =
        (if ac then OSAL_OK else OSAL_NOK, None, Some (m\<lparr> mq_items := s \<rparr>))"
      using False dn dq by (auto simp: osal_msg_queue_read_copy_def)
    then show ?thesis
      by (rule nothing)
  qed
qed

lemma mq_run_agrees:
  "\<lbrakk> mq_ok m; mq_run ops l m = (ac, de, m') \<rbrakk> \<Longrightarrow>
     mq_ok m' \<and> (\<exists>ds. list_all2 (mq_agrees (mq_item_size m)) ac ds \<and> mq_contents m @ ds = de @ mq_contents m')"
proof (induction ops l m arbitrary: ac de m' rule: mq_run.induct)
  case (2 ops b n rest m)
  show ?case
  proof (rule mq_write_cases [OF 2(2), of ops b n])
    fix st
    assume w: "osal_msg_queue_write_copy ops (Some b) n (Some m) = (st, Some m)"
    then have "mq_run ops rest m = (ac, de, m')"
      using 2(3) by (auto split: prod.splits)
    then show ?thesis
      using 2(1) [OF w [symmetric]] 2(2) by simp
  next
    fix st m1 d
    assume w: "osal_msg_queue_write_copy ops (Some b) n (Some m) = (st, Some m1)" "mq_count m1 = mq_count m + 1"
      "mq_ok m1" "mq_item_size m1 = mq_item_size m" "mq_contents m1 = mq_contents m @ [d]"
      "mq_agrees (mq_item_size m) (take (unat n) b) d"
    obtain ac1 where r: "mq_run ops rest m1 = (ac1, de, m')" "ac = take (unat n) b # ac1"
      using 2(3) w(1,2) by (auto split: prod.splits)
    obtain ds where ds: "list_all2 (mq_agrees (mq_item_size m)) ac1 ds" "mq_contents m1 @ ds = de @ mq_contents m'"
      "mq_ok m'"
      using 2(1) [OF w(1) [symmetric], unfolded option.sel] w(3,4) r(1) by metis
    then show ?thesis
      using w(5,6) r(2) by (intro conjI exI [of _ "d # ds"]) simp_all
  qed
next
  case (3 ops t rest m)
  show ?case
  proof (rule mq_read_cases [OF 3(2), of ops t])
    fix st s
    assume w: "osal_msg_queue_read_copy ops False None t (Some m) = (st, None, Some (m\<lparr> mq_items := s \<rparr>))"
    then have "mq_run ops rest (m\<lparr> mq_items := s \<rparr>) = (ac, de, m')"
      using 3(3) by (auto split: prod.splits)
    then show ?thesis
      using 3(1) [OF w [symmetric] refl] 3(2) by simp
  next
    fix d m1
    assume w: "osal_msg_queue_read_copy ops False None t (Some m) = (OSAL_OK, Some d, Some m1)"
      "mq_ok m1" "mq_item_size m1 = mq_item_size m" "mq_contents m = d # mq_contents m1"
    obtain de1 where r: "mq_run ops rest m1 = (ac, de1, m')" "de = d # de1"
      using 3(3) w(1) by (auto split: prod.splits)
    obtain ds where ds: "list_all2 (mq_agrees (mq_item_size m)) ac ds" "mq_contents m1 @ ds = de1 @ mq_contents m'"
      "mq_ok m'"
      using 3(1) [OF w(1) [symmetric] refl, unfolded option.sel] w(2,3) r(1) by metis
    then show ?thesis
      using w(4) r(2) by (intro conjI exI [of _ ds]) simp_all
  qed
qed simp

lemma mq_run_cap: "mq_cap (snd (snd (mq_run ops l m))) = mq_cap m"
proof (induction ops l m rule: mq_run.induct)
  case (2 ops b n rest m)
  have "mq_cap (the (snd (osal_msg_queue_write_copy ops (Some b) n (Some m)))) = mq_cap m"
    by (simp add: osal_msg_queue_write_copy_def mq_enqueue_def Let_def split: prod.split)
  then show ?case
    using 2 by (auto split: prod.splits)
next
  case (3 ops t rest m)
  have "mq_cap (the (snd (snd (osal_msg_queue_read_copy ops False None t (Some m))))) = mq_cap m"
    by (simp add: osal_msg_queue_read_copy_def mq_dequeue_def Let_def split: prod.split)
  then show ?case
    using 3 by (auto split: prod.splits)
qed simp

section \<open>Events\<close>

text \<open>The condition of a waiter, bit by bit.\<close>

definition event_satisfied :: "u32 \<Rightarrow> u32 \<Rightarrow> u32 \<Rightarrow> bool" where
  "event_satisfied bits wanted mode \<longleftrightarrow>
     (if bit mode 2 then wanted \<noteq> 0 \<and> (\<forall>n. bit wanted n \<longrightarrow> bit bits n) else (\<exists>n. bit wanted n \<and> bit bits n))"

lemma and_eq_mask: "(bits AND wanted = wanted) \<longleftrightarrow> (\<forall>n. bit wanted n \<longrightarrow> bit bits n)" for bits :: u32
  using bit_imp_le_length [of wanted] by (auto simp: bit_eq_iff bit_simps)

lemma and_nonzero: "(bits AND wanted \<noteq> 0) \<longleftrightarrow> (\<exists>n. bit wanted n \<and> bit bits n)" for bits :: u32
  using bit_imp_le_length [of wanted] by (auto simp: bit_eq_iff bit_simps)

lemma bit_numeral_4: "bit (4::u32) n \<longleftrightarrow> n = 2"
  using bit_exp_iff [where 'a = u32, of 2 n] by (auto simp: bit_simps)

lemma mode_and_bit: "(mode AND WAITMODE_AND \<noteq> 0) \<longleftrightarrow> bit mode 2" for mode :: u32
  unfolding WAITMODE_AND_def and_nonzero bit_numeral_4 by auto

lemma event_matches_iff:
  "event_matches bits wanted mode = (if event_satisfied bits wanted mode then Some (bits AND wanted) else None)"
  unfolding event_matches_def event_satisfied_def Let_def mode_and_bit
  by (simp only: and_eq_mask and_nonzero) auto

lemma event_matches_None: "event_matches bits wanted mode = None \<longleftrightarrow> \<not> event_satisfied bits wanted mode"
  by (simp add: event_matches_iff)

lemma wake_all_ok: "list_all up ps \<Longrightarrow> wake_all up ps = (ps, True)"
  by (induction ps) auto

section \<open>Properties\<close>

text \<open>C28: Messages come out in the order they went in, none lost and none invented, whatever the
  semaphore does: after any run of writes and full-size reads on a created queue, the delivered items
  followed by the stored ones agree one by one with the messages that were stored, each item starting
  with the bytes of its message that fit the item size.\<close>

theorem msg_queue_fifo:
  assumes "osal_msg_queue_create False len msgsize kmalloc True sem = (OSAL_OK, Some m, freed)"
    and "\<And>n ring. kmalloc n = Some ring \<Longrightarrow> length ring = n"
    and "mq_run ops l m = (accepted, delivered, m')"
  shows "list_all2 (mq_agrees (unat msgsize)) accepted (delivered @ mq_contents m') \<and> mq_count m' \<le> unat len"
proof -
  obtain ring where r: "kmalloc (unat len * unat msgsize) = Some ring" "len \<noteq> 0"
    and m: "m = \<lparr> mq_items = sem, mq_ring = ring, mq_item_size = unat msgsize, mq_cap = unat len,
      mq_head = 0, mq_count = 0 \<rparr>"
    using assms(1) by (auto simp: osal_msg_queue_create_def Let_def OSAL_OK_def OSAL_NOK_def
        split: if_splits option.splits)
  have "mq_ok m"
    using r assms(2) by (auto simp: m mq_ok_def unat_gt_0)
  from mq_run_agrees [OF this assms(3)]
  obtain ds where ds: "mq_ok m'" "list_all2 (mq_agrees (unat msgsize)) accepted ds" "ds = delivered @ mq_contents m'"
    by (auto simp: m mq_contents_def)
  have "mq_cap m' = mq_cap m"
    using mq_run_cap [of ops l m] assms(3) by simp
  then show ?thesis
    using ds by (auto simp: mq_ok_def m)
qed

text \<open>A write wakes exactly the waiters whose condition holds: with all semaphores working, it sets
  the bits and wakes, once each and in slot order, the registered waiters whose bits are all set (AND
  mode) or of whose bits one is set.\<close>

theorem event_write_wakes_exactly:
  assumes "list_all up (map ew_semaphore (eg_waiters g))"
  shows "\<exists>g'. osal_event_write up wanted (Some g) =
      (OSAL_OK,
       map ew_semaphore (filter (\<lambda>w. ew_semaphore w \<noteq> 0 \<and>
         event_satisfied (eg_bits g OR wanted) (ew_mask w) (ew_mode w)) (eg_waiters g)), Some g') \<and>
    eg_bits g' = eg_bits g OR wanted \<and> eg_waiters g' = eg_waiters g"
proof -
  let ?P = "\<lambda>w. ew_semaphore w \<noteq> 0 \<and> event_satisfied (eg_bits g OR wanted) (ew_mask w) (ew_mode w)"
  have "filter (\<lambda>p. p \<noteq> 0) (map (\<lambda>w. if ?P w then ew_semaphore w else 0) ws) = map ew_semaphore (filter ?P ws)" for ws
    by (induction ws) auto
  then have f: "filter (\<lambda>p. p \<noteq> 0) (fst (event_set wanted g)) = map ew_semaphore (filter ?P (eg_waiters g))"
    by (simp add: event_set_def Let_def event_matches_None del: not_None_eq)
  have "list_all up (map ew_semaphore (filter ?P (eg_waiters g)))"
    using assms by (auto simp: list_all_iff)
  note w = wake_all_ok [OF this]
  obtain ws g1 where e: "event_set wanted g = (ws, g1)"
    by (cases "event_set wanted g") blast
  have "eg_bits g1 = eg_bits g OR wanted \<and> eg_waiters g1 = eg_waiters g"
    using e by (auto simp: event_set_def Let_def)
  then show ?thesis
    using w f [unfolded e fst_conv] e by (simp add: osal_event_write_def)
qed

text \<open>A read that times out while waiting is not told apart from an event on bit 0: for every group
  without a match and with a free waiter slot, a wait that is not acquired makes the read return 1
  (\<open>OSAL_NOK\<close>) with the waiter removed again, which is also what a satisfied read of bit 0 returns.\<close>

theorem event_read_timeout_is_bit0:
  assumes "\<not> event_satisfied (eg_bits g) wanted mode" and "position (\<lambda>w. ew_semaphore w = 0) (eg_waiters g) = Some i"
    and "read_remaining timeout (jiffies + ucast timeout) (et_now t) = Some r" and "et_init_ok t"
    and "\<And>x. et_between t x = x" and "\<And>x. et_wait t r x = (False, x)"
    and "event_satisfied (eg_bits h) 1 mode"
  shows "(\<exists>g'. osal_event_read wanted timeout mode jiffies (t # ts) (Some g) = Some (1, Some g') \<and> eg_bits g' = eg_bits g)
    \<and> (\<exists>h'. osal_event_read 1 timeout mode jiffies (t # ts) (Some h) = Some (1, Some h'))"
proof
  let ?g = "g\<lparr> eg_reads := sat_inc (eg_reads g), eg_last_read_mask := wanted, eg_last_mode := mode \<rparr>"
  have p: "read_poll wanted mode g = (None, ?g)" "poll_event wanted mode ?g = (None, ?g)"
    using assms(1) by (simp_all add: read_poll_def poll_event_def event_matches_iff)
  have "eg_bits (unregister_waiter k x) = eg_bits x" for k x
    by (simp add: unregister_waiter_def split: option.split)
  then show "\<exists>g'. osal_event_read wanted timeout mode jiffies (t # ts) (Some g) = Some (1, Some g') \<and> eg_bits g' = eg_bits g"
    using p assms(2-6) by (simp add: osal_event_read_def read_register_def OSAL_NOK_def)
next
  have "event_matches (eg_bits h) 1 mode = Some 1"
  proof -
    have "bit (eg_bits h) 0"
      using assms(7) by (auto simp: event_satisfied_def bit_1_iff split: if_splits)
    then have "eg_bits h AND 1 = 1"
      by (simp add: and_eq_mask bit_1_iff)
    then show ?thesis
      using assms(7) by (simp add: event_matches_iff)
  qed
  then show "\<exists>h'. osal_event_read 1 timeout mode jiffies (t # ts) (Some h) = Some (1, Some h')"
    by (simp add: osal_event_read_def read_poll_def poll_event_def Let_def)
qed

definition demo_sem :: "nat sem_ops" where
  "demo_sem = \<lparr> so_up = (\<lambda>n. (True, n + 1)), so_down = (\<lambda>t n. (n > 0, n - 1)) \<rparr>"

definition demo_kmalloc :: "nat \<Rightarrow> u8 list option" where
  "demo_kmalloc n = Some (replicate n 0)"

definition demo_queue :: "nat mq" where
  "demo_queue = \<lparr> mq_items = 0, mq_ring = replicate 6 0, mq_item_size = 3, mq_cap = 2, mq_head = 0, mq_count = 0 \<rparr>"

theorem msg_queue_fifo_witness:
  "\<exists>m'. mq_run demo_sem [MWrite [1, 2, 3] 3, MWrite [4, 5] 2, MRead 10] demo_queue = ([[1, 2, 3], [4, 5]], [[1, 2, 3]], m') \<and>
     list_all2 (mq_agrees (unat (3::u16))) [[1, 2, 3], [4, 5]] ([[1, 2, 3]] @ mq_contents m')"
proof -
  let ?r = "mq_run demo_sem [MWrite [1, 2, 3] 3, MWrite [4, 5] 2, MRead 10] demo_queue"
  have c: "osal_msg_queue_create False 2 3 demo_kmalloc True 0 = (OSAL_OK, Some demo_queue, False)"
    by (simp add: osal_msg_queue_create_def demo_kmalloc_def demo_queue_def)
  have k: "demo_kmalloc n = Some ring \<Longrightarrow> length ring = n" for n ring
    by (auto simp: demo_kmalloc_def)
  have "fst ?r = [[1, 2, 3], [4, 5]]" "fst (snd ?r) = [[1, 2, 3]]"
    by code_simp+
  then have r: "?r = ([[1, 2, 3], [4, 5]], [[1, 2, 3]], snd (snd ?r))"
    by (metis prod.collapse)
  from msg_queue_fifo [OF c k r] r show ?thesis
    by blast
qed

definition demo_group :: event_group where
  "demo_group = eg_new\<lparr> eg_waiters := [\<lparr> ew_semaphore = 7, ew_mask = 3, ew_mode = 4 \<rparr>,
     \<lparr> ew_semaphore = 8, ew_mask = 6, ew_mode = 0 \<rparr>, ew_EMPTY] \<rparr>"

definition demo_turn :: read_turn where
  "demo_turn = \<lparr> et_now = 0, et_init_ok = True, et_semaphore = 9, et_between = (\<lambda>g. g),
     et_wait = (\<lambda>r g. (False, g)) \<rparr>"

end
