(* ===== verification/Timer.thy ===== *)
theory Timer
  imports OsalQueue
begin

text \<open>
  The software timer service (\<open>src/src/timer.rs\<close>).

  The state is the slot table, the worker flag and the memory that holds the C timer objects (a
  function from addresses; address 0 is null).  Callbacks are an argument: \<open>call handler data\<close> is what
  the C function does to the state.  Times are readings of the 64-bit millisecond clock.
\<close>

definition MAX_TIMERS :: nat where "MAX_TIMERS = 32"

record osal_timer =
  ot_timer :: nat
  ot_handler :: "addr option"
  ot_data :: u32
  ot_interval :: u32

record tslot =
  tl_used :: bool
  tl_active :: bool
  tl_periodic :: bool
  tl_timer :: addr
  tl_deadline :: u64
  tl_interval :: u64

definition tl_EMPTY :: tslot where
  "tl_EMPTY = \<lparr> tl_used = False, tl_active = False, tl_periodic = False, tl_timer = 0,
     tl_deadline = 0, tl_interval = 0 \<rparr>"

record tsys =
  ts_slots :: "tslot list"
  ts_mem :: "addr \<Rightarrow> osal_timer"
  ts_started :: bool

abbreviation ts_write :: "addr \<Rightarrow> (osal_timer \<Rightarrow> osal_timer) \<Rightarrow> tsys \<Rightarrow> tsys" where
  "ts_write p f s \<equiv> s\<lparr> ts_mem := (ts_mem s)(p := f (ts_mem s p)) \<rparr>"

abbreviation ts_slot :: "nat \<Rightarrow> (tslot \<Rightarrow> tslot) \<Rightarrow> tsys \<Rightarrow> tsys" where
  "ts_slot i f s \<equiv> s\<lparr> ts_slots := (ts_slots s)[i := f (ts_slots s ! i)] \<rparr>"

definition alloc_slot :: "tsys \<Rightarrow> nat option \<times> tsys" where
  "alloc_slot s =
     (case position (\<lambda>l. \<not> tl_used l) (ts_slots s) of
        None \<Rightarrow> (None, s)
      | Some i \<Rightarrow> (Some i, s\<lparr> ts_slots := (ts_slots s)[i := tl_EMPTY\<lparr> tl_used := True \<rparr>] \<rparr>))"

text \<open>\<open>spawned\<close>: the result of creating the worker task.\<close>

definition ensure_timer_worker :: "bool \<Rightarrow> tsys \<Rightarrow> bool \<times> tsys" where
  "ensure_timer_worker spawned s =
     (if ts_started s then (True, s)
      else if spawned then (True, s\<lparr> ts_started := True \<rparr>) else (False, s\<lparr> ts_started := False \<rparr>))"

definition osal_timer_init :: "bool \<Rightarrow> addr \<Rightarrow> tsys \<Rightarrow> i32 \<times> tsys" where
  "osal_timer_init spawned timer s =
     (if timer = 0 then (OSAL_NOK, s)
      else if ot_handler (ts_mem s timer) = None \<or> ot_timer (ts_mem s timer) \<noteq> 0 \<or> ot_interval (ts_mem s timer) = 0
      then (OSAL_NOK, s)
      else
        (case ensure_timer_worker spawned s of
           (False, s1) \<Rightarrow> (OSAL_NOK, s1)
         | (True, s1) \<Rightarrow>
            (case alloc_slot s1 of
               (None, s2) \<Rightarrow> (OSAL_NOK, s2)
             | (Some slot, s2) \<Rightarrow>
                 let s3 = ts_write timer (\<lambda>t. t\<lparr> ot_timer := slot + 1 \<rparr>) s2
                 in (OSAL_OK, ts_slot slot (\<lambda>l. l\<lparr> tl_timer := timer,
                       tl_interval := ucast (ot_interval (ts_mem s3 timer)) \<rparr>) s3))))"

definition osal_adapt_timer_init :: "bool \<Rightarrow> addr \<Rightarrow> addr \<Rightarrow> u32 \<Rightarrow> u32 \<Rightarrow> tsys \<Rightarrow> i32 \<times> tsys" where
  "osal_adapt_timer_init spawned timer func data interval s =
     (if timer = 0 \<or> func = 0 then (OSAL_NOK, s)
      else osal_timer_init spawned timer
             (ts_write timer (\<lambda>t. \<lparr> ot_timer = 0, ot_handler = Some func, ot_data = data, ot_interval = interval \<rparr>) s))"

definition slot_of :: "addr \<Rightarrow> tsys \<Rightarrow> nat option" where
  "slot_of timer s =
     (if timer = 0 then None
      else let h = ot_timer (ts_mem s timer)
           in if h = 0 \<or> h > MAX_TIMERS then None else Some (h - 1))"

definition osal_timer_mod :: "u64 \<Rightarrow> addr \<Rightarrow> u32 \<Rightarrow> tsys \<Rightarrow> i32 \<times> tsys" where
  "osal_timer_mod now timer interval s =
     (if interval = 0 then (OSAL_NOK, s)
      else
        (case slot_of timer s of
           None \<Rightarrow> (OSAL_NOK, s)
         | Some slot \<Rightarrow>
             let s1 = ts_write timer (\<lambda>t. t\<lparr> ot_interval := interval \<rparr>) s
             in if \<not> tl_used (ts_slots s1 ! slot) then (OSAL_NOK, s1)
                else (OSAL_OK, ts_slot slot (\<lambda>l. l\<lparr> tl_interval := ucast interval,
                        tl_deadline := now + ucast interval, tl_active := True, tl_periodic := False \<rparr>) s1)))"

definition osal_adapt_timer_mod :: "u64 \<Rightarrow> addr \<Rightarrow> u32 \<Rightarrow> tsys \<Rightarrow> i32 \<times> tsys" where
  "osal_adapt_timer_mod now timer interval s = osal_timer_mod now timer interval s"

definition osal_timer_stop :: "addr \<Rightarrow> tsys \<Rightarrow> i32 \<times> tsys" where
  "osal_timer_stop timer s =
     (case slot_of timer s of
        None \<Rightarrow> (OSAL_NOK, s)
      | Some slot \<Rightarrow>
          (if tl_active (ts_slots s ! slot) then 1 else 0, ts_slot slot (\<lambda>l. l\<lparr> tl_active := False \<rparr>) s))"

definition osal_timer_destroy :: "addr \<Rightarrow> tsys \<Rightarrow> i32 \<times> tsys" where
  "osal_timer_destroy timer s =
     (case slot_of timer s of
        None \<Rightarrow> (OSAL_OK, s)
      | Some slot \<Rightarrow>
          (OSAL_OK, ts_write timer (\<lambda>t. t\<lparr> ot_timer := 0 \<rparr>) (ts_slot slot (\<lambda>l. tl_EMPTY) s)))"

definition osal_adapt_timer_destroy :: "addr \<Rightarrow> tsys \<Rightarrow> i32 \<times> tsys" where
  "osal_adapt_timer_destroy timer s = osal_timer_destroy timer s"

definition local_timer_init :: "tsys \<Rightarrow> i32 \<times> tsys" where
  "local_timer_init s = (OSAL_OK, s\<lparr> ts_slots := replicate MAX_TIMERS tl_EMPTY \<rparr>)"

definition local_timer_exit :: "tsys \<Rightarrow> i32 \<times> tsys" where
  "local_timer_exit s = (OSAL_OK, s\<lparr> ts_slots := replicate MAX_TIMERS tl_EMPTY \<rparr>)"

text \<open>The collection of due timers under the lock.\<close>

definition tl_due :: "u64 \<Rightarrow> tslot \<Rightarrow> bool" where
  "tl_due now l \<longleftrightarrow> tl_used l \<and> tl_active l \<and> now \<ge> tl_deadline l"

fun collect_due :: "u64 \<Rightarrow> tslot list \<Rightarrow> addr list \<times> tslot list" where
  "collect_due now [] = ([], [])"
| "collect_due now (l # ls) =
     (case collect_due now ls of
        (due, ls1) \<Rightarrow>
          (if tl_due now l
           then (tl_timer l # due,
                 (if tl_periodic l then l\<lparr> tl_deadline := now + tl_interval l \<rparr> else l\<lparr> tl_active := False \<rparr>) # ls1)
           else (due, l # ls1)))"

text \<open>Firing them, unlocked; the log lists the calls made.\<close>

fun fire_due :: "(addr \<Rightarrow> u32 \<Rightarrow> tsys \<Rightarrow> tsys) \<Rightarrow> addr list \<Rightarrow> tsys \<Rightarrow> (addr \<times> u32) list \<times> tsys" where
  "fire_due call [] s = ([], s)"
| "fire_due call (p # ps) s =
     (if p = 0 then fire_due call ps s
      else
        (case ot_handler (ts_mem s p) of
           None \<Rightarrow> fire_due call ps s
         | Some f \<Rightarrow>
             apfst (Cons (f, ot_data (ts_mem s p))) (fire_due call ps (call f (ot_data (ts_mem s p)) s))))"

definition local_timer_timeout_proc :: "(addr \<Rightarrow> u32 \<Rightarrow> tsys \<Rightarrow> tsys) \<Rightarrow> u64 \<Rightarrow> tsys \<Rightarrow> (addr \<times> u32) list \<times> tsys" where
  "local_timer_timeout_proc call now s =
     (case collect_due now (ts_slots s) of
        (due, slots) \<Rightarrow> fire_due call due (s\<lparr> ts_slots := slots \<rparr>))"

fun next_best :: "u64 \<Rightarrow> u64 option \<Rightarrow> tslot list \<Rightarrow> u64 option" where
  "next_best now best [] = best"
| "next_best now best (l # ls) =
     next_best now
       (if tl_used l \<and> tl_active l
        then (let d = sat_sub (tl_deadline l) now
              in Some (case best of None \<Rightarrow> d | Some b \<Rightarrow> min b d))
        else best) ls"

definition next_delay_ms :: "u64 \<Rightarrow> tsys \<Rightarrow> u32" where
  "next_delay_ms now s =
     (case next_best now None (ts_slots s) of
        None \<Rightarrow> - 1
      | Some d \<Rightarrow> ucast (min (max d 1) 0xffffffff))"

section \<open>Well-formed tables\<close>

text \<open>A free slot is empty, and no slot is periodic.\<close>

definition tl_fine :: "tslot \<Rightarrow> bool" where
  "tl_fine l \<longleftrightarrow> \<not> tl_periodic l \<and> (\<not> tl_used l \<longrightarrow> l = tl_EMPTY)"

definition ts_ok :: "tsys \<Rightarrow> bool" where
  "ts_ok s \<longleftrightarrow> length (ts_slots s) = MAX_TIMERS \<and> (\<forall>l \<in> set (ts_slots s). tl_fine l)"

definition ts_new :: tsys where
  "ts_new = \<lparr> ts_slots = replicate MAX_TIMERS tl_EMPTY,
     ts_mem = (\<lambda>_. \<lparr> ot_timer = 0, ot_handler = None, ot_data = 0, ot_interval = 0 \<rparr>), ts_started = False \<rparr>"

datatype top = TInit bool addr | TAdapt bool addr addr u32 u32 | TMod u64 addr u32 | TStop addr | TDestroy addr
  | TReset | TCollect u64 | TMem addr osal_timer

fun ts_step :: "top \<Rightarrow> tsys \<Rightarrow> tsys" where
  "ts_step (TInit sp p) s = snd (osal_timer_init sp p s)"
| "ts_step (TAdapt sp p f d i) s = snd (osal_adapt_timer_init sp p f d i s)"
| "ts_step (TMod now p i) s = snd (osal_timer_mod now p i s)"
| "ts_step (TStop p) s = snd (osal_timer_stop p s)"
| "ts_step (TDestroy p) s = snd (osal_timer_destroy p s)"
| "ts_step TReset s = snd (local_timer_init s)"
| "ts_step (TCollect now) s = s\<lparr> ts_slots := snd (collect_due now (ts_slots s)) \<rparr>"
| "ts_step (TMem p t) s = ts_write p (\<lambda>_. t) s"

lemma tl_fine_EMPTY [simp]: "tl_fine tl_EMPTY"
  by (simp add: tl_fine_def tl_EMPTY_def)

lemma ts_ok_new: "ts_ok ts_new"
  by (simp add: ts_ok_def ts_new_def)

lemma slot_of_less: "slot_of p s = Some i \<Longrightarrow> i < MAX_TIMERS"
  by (auto simp: slot_of_def Let_def split: if_splits)

lemma ts_ok_update:
  assumes "ts_ok s" "tl_fine l" "ts_slots s' = (ts_slots s)[i := l]"
  shows "ts_ok s'"
  using assms set_update_subset_insert [of "ts_slots s" i l] by (auto simp: ts_ok_def)

lemma ts_ok_same: "ts_ok s \<Longrightarrow> ts_slots s' = ts_slots s \<Longrightarrow> ts_ok s'"
  by (simp add: ts_ok_def)

lemma ts_ok_slot: "ts_ok s \<Longrightarrow> slot_of p s = Some i \<Longrightarrow> tl_fine (ts_slots s ! i)"
  using slot_of_less by (simp add: ts_ok_def)

lemma ensure_timer_worker_slots [simp]:
  "ts_slots (snd (ensure_timer_worker sp s)) = ts_slots s"
  "ts_mem (snd (ensure_timer_worker sp s)) = ts_mem s"
  by (simp_all add: ensure_timer_worker_def)

text \<open>Registration takes the first free slot, or leaves the table alone.\<close>

definition tl_registered :: "addr \<Rightarrow> u32 \<Rightarrow> tslot" where
  "tl_registered p interval = \<lparr> tl_used = True, tl_active = False, tl_periodic = False, tl_timer = p,
     tl_deadline = 0, tl_interval = ucast interval \<rparr>"

lemma osal_timer_init_cases:
  obtains (refused) s1 where "osal_timer_init sp p s = (OSAL_NOK, s1)" "ts_slots s1 = ts_slots s" "ts_mem s1 = ts_mem s"
  | (taken) i s1 where "osal_timer_init sp p s = (OSAL_OK, s1)" "p \<noteq> 0" "ot_timer (ts_mem s p) = 0"
      "position (\<lambda>l. \<not> tl_used l) (ts_slots s) = Some i"
      "ts_slots s1 = (ts_slots s)[i := tl_registered p (ot_interval (ts_mem s p))]"
      "ts_mem s1 = (ts_mem s)(p := (ts_mem s p)\<lparr> ot_timer := i + 1 \<rparr>)"
proof (cases "p = 0 \<or> ot_handler (ts_mem s p) = None \<or> ot_timer (ts_mem s p) \<noteq> 0 \<or> ot_interval (ts_mem s p) = 0")
  case True
  then have "osal_timer_init sp p s = (OSAL_NOK, s)"
    unfolding osal_timer_init_def by (cases "p = 0") simp_all
  then show ?thesis
    by (rule refused) simp_all
next
  case good: False
  obtain w s0 where w: "ensure_timer_worker sp s = (w, s0)"
    by (cases "ensure_timer_worker sp s") blast
  have s0: "ts_slots s0 = ts_slots s" "ts_mem s0 = ts_mem s"
    using w ensure_timer_worker_slots [of sp s] by simp_all
  show ?thesis
  proof (cases "w \<and> position (\<lambda>l. \<not> tl_used l) (ts_slots s) \<noteq> None")
    case False
    then have "osal_timer_init sp p s = (OSAL_NOK, s0)"
      using good w s0 by (cases w) (auto simp: osal_timer_init_def alloc_slot_def)
    then show ?thesis
      using s0 by (rule refused)
  next
    case True
    then obtain i where i: "position (\<lambda>l. \<not> tl_used l) (ts_slots s) = Some i" and w1: "w"
      by auto
    have "i < length (ts_slots s)"
      using i position_Some by blast
    moreover obtain f where "ot_handler (ts_mem s p) = Some f"
      using good by auto
    ultimately show ?thesis
      using good w w1 s0 i
      by (intro taken [of "snd (osal_timer_init sp p s)" i])
        (simp_all add: osal_timer_init_def alloc_slot_def Let_def tl_registered_def tl_EMPTY_def)
  qed
qed

lemma osal_timer_init_ok: "ts_ok s \<Longrightarrow> ts_ok (snd (osal_timer_init sp p s))"
proof (cases rule: osal_timer_init_cases [of sp p s])
  case (taken i s1)
  assume "ts_ok s"
  then show ?thesis
    using taken(1,5) ts_ok_update [of s "tl_registered p (ot_interval (ts_mem s p))" s1 i]
    by (simp add: tl_fine_def tl_registered_def)
qed (auto intro: ts_ok_same)

lemma collect_due_fine:
  "\<forall>l \<in> set ls. tl_fine l \<Longrightarrow> \<forall>l \<in> set (snd (collect_due now ls)). tl_fine l"
  by (induction ls) (auto simp: tl_due_def tl_fine_def split: prod.splits if_splits)

lemma collect_due_length [simp]: "length (snd (collect_due now ls)) = length ls"
  by (induction ls) (auto split: prod.splits)

lemma osal_timer_mod_ok:
  assumes ok: "ts_ok s"
  shows "ts_ok (snd (osal_timer_mod now p i s))"
proof (cases "slot_of p s")
  case (Some k)
  let ?l = "(ts_slots s ! k)\<lparr> tl_interval := ucast i, tl_deadline := now + ucast i, tl_active := True, tl_periodic := False \<rparr>"
  have "tl_used (ts_slots s ! k) \<Longrightarrow> tl_fine ?l"
    by (simp add: tl_fine_def)
  then show ?thesis
    using Some ok ts_ok_update [OF ok, of ?l _ k] by (simp add: osal_timer_mod_def Let_def ts_ok_same [OF ok])
qed (use ok in \<open>simp add: osal_timer_mod_def\<close>)

lemma osal_timer_stop_ok:
  assumes ok: "ts_ok s"
  shows "ts_ok (snd (osal_timer_stop p s))"
proof (cases "slot_of p s")
  case (Some k)
  let ?l = "(ts_slots s ! k)\<lparr> tl_active := False \<rparr>"
  have "tl_fine ?l"
    using ts_ok_slot [OF ok Some] by (auto simp: tl_fine_def tl_EMPTY_def)
  then show ?thesis
    using Some ts_ok_update [OF ok, of ?l _ k] by (simp add: osal_timer_stop_def)
qed (use ok in \<open>simp add: osal_timer_stop_def\<close>)

lemma osal_timer_destroy_ok: "ts_ok s \<Longrightarrow> ts_ok (snd (osal_timer_destroy p s))"
  using ts_ok_update [of s tl_EMPTY] by (simp add: osal_timer_destroy_def split: option.split)

lemma ts_step_ok: "ts_ok s \<Longrightarrow> ts_ok (ts_step op s)"
proof (cases op)
  case (TAdapt sp p f d i)
  assume "ts_ok s"
  then have "ts_ok (ts_write p (\<lambda>t. \<lparr> ot_timer = 0, ot_handler = Some f, ot_data = d, ot_interval = i \<rparr>) s)"
    by (rule ts_ok_same) simp
  then show ?thesis
    using TAdapt \<open>ts_ok s\<close> osal_timer_init_ok by (simp add: osal_adapt_timer_init_def)
next
  case (TCollect now)
  assume "ts_ok s"
  then show ?thesis
    using TCollect collect_due_fine [of "ts_slots s" now] by (simp add: ts_ok_def)
next
  case TReset
  then show ?thesis
    by (simp add: ts_ok_def local_timer_init_def)
next
  case (TMem p t)
  assume "ts_ok s"
  then show ?thesis
    by (rule ts_ok_same) (simp add: TMem)
qed (simp_all add: osal_timer_init_ok osal_timer_mod_ok osal_timer_stop_ok osal_timer_destroy_ok)

interpretation timers: machine ts_step ts_ok
  by unfold_locales (rule ts_step_ok)

section \<open>Properties\<close>

lemma collect_due_fst: "fst (collect_due now ls) = map tl_timer (filter (tl_due now) ls)"
  by (induction ls) (auto split: prod.splits)

lemma collect_due_again:
  "\<forall>l \<in> set ls. tl_fine l \<Longrightarrow> fst (collect_due now (snd (collect_due now ls))) = []"
  by (induction ls) (auto simp: tl_due_def tl_fine_def split: prod.splits)

text \<open>The calls made depend on the collected timers only, as long as no callback changes the function or
  argument of one of them.\<close>

lemma fire_due_log:
  assumes keep: "\<And>f d x p. p \<in> Q \<Longrightarrow> ot_handler (ts_mem (call f d x) p) = ot_handler (ts_mem x p) \<and>
      ot_data (ts_mem (call f d x) p) = ot_data (ts_mem x p)"
    and "set ps \<subseteq> Q"
  shows "fst (fire_due call ps s) =
    map (\<lambda>p. (the (ot_handler (ts_mem s p)), ot_data (ts_mem s p)))
      (filter (\<lambda>p. p \<noteq> 0 \<and> ot_handler (ts_mem s p) \<noteq> None) ps)"
  using assms(2)
proof (induction ps arbitrary: s)
  case (Cons p ps)
  have same: "ot_handler (ts_mem (call f d s) q) = ot_handler (ts_mem s q)" "ot_data (ts_mem (call f d s) q) = ot_data (ts_mem s q)"
    if "q \<in> set ps" for f d q
    using keep [of q f d s] that Cons.prems by auto
  let ?t = "call (the (ot_handler (ts_mem s p))) (ot_data (ts_mem s p)) s"
  have "filter (\<lambda>q. q \<noteq> 0 \<and> ot_handler (ts_mem ?t q) \<noteq> None) ps = filter (\<lambda>q. q \<noteq> 0 \<and> ot_handler (ts_mem s q) \<noteq> None) ps"
    using same by (intro filter_cong) auto
  then have "map (\<lambda>q. (the (ot_handler (ts_mem ?t q)), ot_data (ts_mem ?t q))) (filter (\<lambda>q. q \<noteq> 0 \<and> ot_handler (ts_mem ?t q) \<noteq> None) ps)
      = map (\<lambda>q. (the (ot_handler (ts_mem s q)), ot_data (ts_mem s q))) (filter (\<lambda>q. q \<noteq> 0 \<and> ot_handler (ts_mem s q) \<noteq> None) ps)"
    using same by auto
  then show ?case
    using Cons.IH [of ?t] Cons.IH [of s] Cons.prems by (auto split: option.splits)
qed simp

text \<open>C29: A pass of the timer service calls every due timer exactly once, in slot order, and no timer
  that is not due; right after the collection no timer is due, so the next pass at the same time calls
  none of them again.  The callbacks may do anything to the slot table and to timers that are not due:
  stopping or destroying a due timer from an earlier callback does not cancel its call.  They are
  required not to give a timer that is due in this pass another function or argument, as registering it
  again would; the pass would then call the new function.\<close>

theorem timer_pass_fires_due:
  assumes "s = fold ts_step ops ts_new"
    and "\<And>f d x l. l \<in> set (ts_slots s) \<Longrightarrow> tl_due now l \<Longrightarrow>
      ot_handler (ts_mem (call f d x) (tl_timer l)) = ot_handler (ts_mem x (tl_timer l)) \<and>
      ot_data (ts_mem (call f d x) (tl_timer l)) = ot_data (ts_mem x (tl_timer l))"
  shows "fst (local_timer_timeout_proc call now s) =
      map (\<lambda>l. (the (ot_handler (ts_mem s (tl_timer l))), ot_data (ts_mem s (tl_timer l))))
        (filter (\<lambda>l. tl_due now l \<and> tl_timer l \<noteq> 0 \<and> ot_handler (ts_mem s (tl_timer l)) \<noteq> None) (ts_slots s))
    \<and> fst (collect_due now (snd (collect_due now (ts_slots s)))) = []"
proof -
  have "\<forall>l \<in> set (ts_slots s). tl_fine l"
    using timers.run_inv [OF ts_ok_new, of ops] assms(1) by (simp add: ts_ok_def)
  then have "fst (collect_due now (snd (collect_due now (ts_slots s)))) = []"
    by (rule collect_due_again)
  moreover have "fst (local_timer_timeout_proc call now s) =
      fst (fire_due call (map tl_timer (filter (tl_due now) (ts_slots s))) (s\<lparr> ts_slots := snd (collect_due now (ts_slots s)) \<rparr>))"
    by (simp add: local_timer_timeout_proc_def collect_due_fst [symmetric] split: prod.split)
  moreover have "ot_handler (ts_mem (call f d x) p) = ot_handler (ts_mem x p) \<and> ot_data (ts_mem (call f d x) p) = ot_data (ts_mem x p)"
    if "p \<in> set (map tl_timer (filter (tl_due now) (ts_slots s)))" for f d x p
    using assms(2) that by auto
  note log = fire_due_log [of "set (map tl_timer (filter (tl_due now) (ts_slots s)))", OF this subset_refl]
  ultimately show ?thesis
    by (simp only: log) (simp add: filter_map comp_def conj_ac)
qed

text \<open>C30: Registering and destroying a timer is a round trip: registration stores a handle that names
  the slot it took, touches no other slot, and destroying through that handle gives back the table and
  the timer object as they were.\<close>

theorem timer_init_destroy_roundtrip:
  assumes "osal_timer_init spawned p (fold ts_step ops ts_new) = (OSAL_OK, s1)"
  shows "\<exists>i. slot_of p s1 = Some i \<and> i < MAX_TIMERS \<and> \<not> tl_used (ts_slots (fold ts_step ops ts_new) ! i) \<and>
    tl_used (ts_slots s1 ! i) \<and> tl_timer (ts_slots s1 ! i) = p \<and>
    (\<forall>j. j \<noteq> i \<longrightarrow> ts_slots s1 ! j = ts_slots (fold ts_step ops ts_new) ! j) \<and>
    ts_slots (snd (osal_timer_destroy p s1)) = ts_slots (fold ts_step ops ts_new) \<and>
    ts_mem (snd (osal_timer_destroy p s1)) = ts_mem (fold ts_step ops ts_new)"
proof -
  let ?s = "fold ts_step ops ts_new"
  have ok: "ts_ok ?s"
    by (rule timers.run_inv [OF ts_ok_new])
  show ?thesis
  proof (cases rule: osal_timer_init_cases [of spawned p ?s])
    case (refused s2)
    then show ?thesis
      using assms by (simp add: OSAL_OK_def OSAL_NOK_def)
  next
    case (taken i s2)
    have s1: "s1 = s2"
      using assms taken(1) by simp
    have i: "i < length (ts_slots ?s)" "\<not> tl_used (ts_slots ?s ! i)"
      using position_Some [OF taken(4)] by auto
    then have e: "ts_slots ?s ! i = tl_EMPTY" and l: "i < MAX_TIMERS"
      using ok by (auto simp: ts_ok_def tl_fine_def)
    have so: "slot_of p s1 = Some i"
      using taken(2,6) l by (simp add: slot_of_def s1)
    have "ts_slots (snd (osal_timer_destroy p s1)) = ts_slots ?s"
      using e taken(5) so by (simp add: osal_timer_destroy_def s1 list_update_same_conv)
        (metis list_update_id)
    moreover have "ts_mem (snd (osal_timer_destroy p s1)) = ts_mem ?s"
      using taken(3,6) so by (auto simp: osal_timer_destroy_def s1 fun_eq_iff)
    ultimately show ?thesis
      using so i l taken(5) by (auto simp: s1 tl_registered_def)
  qed
qed

text \<open>The nearest deadline.\<close>

lemma next_best_spec:
  "next_best now best ls =
     (case map (\<lambda>l. sat_sub (tl_deadline l) now) (filter (\<lambda>l. tl_used l \<and> tl_active l) ls) of
        [] \<Rightarrow> best
      | d # ds \<Rightarrow> Some (fold min ds (case best of None \<Rightarrow> d | Some b \<Rightarrow> min b d)))"
  by (induction now best ls rule: next_best.induct)
    (auto simp: Let_def min.commute min.left_commute split: list.splits option.splits)

lemma fold_min_le: "fold min ds (b :: u64) \<le> b \<and> (\<forall>d \<in> set ds. fold min ds b \<le> d) \<and> fold min ds b \<in> insert b (set ds)"
proof (induction ds arbitrary: b)
  case (Cons d ds)
  have "fold min ds (min d b) \<le> min d b" "\<forall>x \<in> set ds. fold min ds (min d b) \<le> x"
    "fold min ds (min d b) = min d b \<or> fold min ds (min d b) \<in> set ds"
    using Cons [of "min d b"] by auto
  moreover have "min d b = d \<or> min d b = b"
    by (auto simp: min_def)
  ultimately show ?case
    by auto
qed simp

text \<open>The delay the worker parks for is sound and tight: it is the wait-forever value when no timer
  is armed; otherwise it is at least 1, it does not pass the remaining time of any armed timer that has
  more than a millisecond left, and some armed timer is due within it, unless that timer is further away
  than 32 bits can tell.\<close>

theorem timer_next_delay_bounds:
  "let armed = filter (\<lambda>l. tl_used l \<and> tl_active l) (ts_slots s); d = unat (next_delay_ms now s) in
     (armed = [] \<longrightarrow> next_delay_ms now s = - 1) \<and>
     (armed \<noteq> [] \<longrightarrow> 1 \<le> d \<and>
        (\<forall>l \<in> set armed. d \<le> max 1 (unat (tl_deadline l) - unat now)) \<and>
        (\<exists>l \<in> set armed. unat (tl_deadline l) - unat now \<le> d \<or> d = 2 ^ 32 - 1))"
proof -
  define armed where "armed = filter (\<lambda>l. tl_used l \<and> tl_active l) (ts_slots s)"
  show ?thesis
  proof (cases armed)
    case Nil
    then have "next_delay_ms now s = - 1"
      by (simp add: next_delay_ms_def next_best_spec armed_def [symmetric])
    then show ?thesis
      using Nil by (simp add: armed_def [symmetric] Let_def)
  next
    case (Cons a as)
    define m where "m = fold min (map (\<lambda>l. sat_sub (tl_deadline l) now) as) (sat_sub (tl_deadline a) now)"
    have "next_best now None (ts_slots s) = Some m"
      by (simp add: next_best_spec armed_def [symmetric] Cons m_def)
    then have n: "next_delay_ms now s = ucast (min (max m 1) 0xffffffff)"
      by (simp add: next_delay_ms_def)
    have lim: "unat (min (max m 1) (0xffffffff :: u64)) = min (max (unat m) 1) (2 ^ 32 - 1)"
      by (auto simp: min_def max_def word_le_nat_alt)
    have d: "unat (next_delay_ms now s) = min (max (unat m) 1) (2 ^ 32 - 1)"
      unfolding n by (simp add: unsigned_ucast_eq lim take_bit_nat_eq_self)
    have le: "unat m \<le> unat (tl_deadline l) - unat now" if "l \<in> set armed" for l
    proof -
      have "m \<le> sat_sub (tl_deadline l) now"
        using fold_min_le [of "map (\<lambda>l. sat_sub (tl_deadline l) now) as" "sat_sub (tl_deadline a) now"] that Cons
        by (auto simp: m_def)
      then show ?thesis
        by (simp add: word_le_nat_alt unat_sat_sub)
    qed
    obtain l where l: "l \<in> set armed" "m = sat_sub (tl_deadline l) now"
      using fold_min_le [of "map (\<lambda>l. sat_sub (tl_deadline l) now) as" "sat_sub (tl_deadline a) now"] Cons
      by (auto simp: m_def)
    have "unat (tl_deadline l) - unat now \<le> unat (next_delay_ms now s) \<or> unat (next_delay_ms now s) = 2 ^ 32 - 1"
      unfolding d using l(2) by (simp add: unat_sat_sub min_def)
    moreover have "unat (next_delay_ms now s) \<le> max 1 (unat (tl_deadline k) - unat now)" if "k \<in> set armed" for k
      unfolding d using le [OF that] by simp
    moreover have "1 \<le> unat (next_delay_ms now s)"
      unfolding d by simp
    ultimately show ?thesis
      using l(1) Cons by (auto simp: armed_def [symmetric] Let_def)
  qed
qed

text \<open>Two timers due at the same time; the first one's callback stops the second and registers a third.\<close>

definition timer_ops :: "top list" where
  "timer_ops = [TAdapt True 64 500 1 10, TAdapt True 80 600 2 10, TMod 0 64 10, TMod 5 80 5]"

definition timer_call :: "addr \<Rightarrow> u32 \<Rightarrow> tsys \<Rightarrow> tsys" where
  "timer_call f d s = ts_step (TAdapt True 96 700 3 10) (ts_step (TStop 80) s)"

lemma timer_call_frame:
  assumes "p \<noteq> 96"
  shows "ot_handler (ts_mem (timer_call f d x) p) = ot_handler (ts_mem x p) \<and>
      ot_data (ts_mem (timer_call f d x) p) = ot_data (ts_mem x p)"
proof -
  have stop: "ts_mem (ts_step (TStop 80) x) = ts_mem x"
    by (simp add: osal_timer_stop_def split: option.split)
  show ?thesis
    using assms unfolding timer_call_def ts_step.simps(2) stop [symmetric]
    by (simp add: osal_adapt_timer_init_def osal_timer_init_def ensure_timer_worker_def alloc_slot_def Let_def
        split: option.split)
qed

theorem timer_pass_fires_due_witness:
  "fst (local_timer_timeout_proc timer_call 10 (fold ts_step timer_ops ts_new)) = [(500, 1), (600, 2)]"
proof -
  let ?s = "fold ts_step timer_ops ts_new"
  have "list_all (\<lambda>l. tl_timer l \<noteq> 96) (ts_slots ?s)"
    by code_simp
  then have k: "ot_handler (ts_mem (timer_call f d x) (tl_timer l)) = ot_handler (ts_mem x (tl_timer l)) \<and>
      ot_data (ts_mem (timer_call f d x) (tl_timer l)) = ot_data (ts_mem x (tl_timer l))"
    if "l \<in> set (ts_slots ?s)" for f d x l
    using timer_call_frame that by (auto simp: list_all_iff)
  have "map (\<lambda>l. (the (ot_handler (ts_mem ?s (tl_timer l))), ot_data (ts_mem ?s (tl_timer l))))
        (filter (\<lambda>l. tl_due 10 l \<and> tl_timer l \<noteq> 0 \<and> ot_handler (ts_mem ?s (tl_timer l)) \<noteq> None) (ts_slots ?s))
      = [(500, 1), (600, 2)]"
    by code_simp
  then show ?thesis
    using timer_pass_fires_due [where ops = timer_ops and now = 10 and call = timer_call, OF refl k] by simp
qed

theorem timer_init_destroy_roundtrip_witness:
  "ts_slots (snd (osal_timer_destroy 64 (snd (osal_timer_init True 64
      (fold ts_step [TMem 64 \<lparr> ot_timer = 0, ot_handler = Some 500, ot_data = 1, ot_interval = 10 \<rparr>] ts_new)))))
   = replicate 32 tl_EMPTY"
proof -
  let ?s = "fold ts_step [TMem 64 \<lparr> ot_timer = 0, ot_handler = Some 500, ot_data = 1, ot_interval = 10 \<rparr>] ts_new"
  have "fst (osal_timer_init True 64 ?s) = OSAL_OK"
    by code_simp
  then have "osal_timer_init True 64 ?s = (OSAL_OK, snd (osal_timer_init True 64 ?s))"
    by (metis prod.collapse)
  from timer_init_destroy_roundtrip [OF this]
  have "ts_slots (snd (osal_timer_destroy 64 (snd (osal_timer_init True 64 ?s)))) = ts_slots ?s"
    by blast
  also have "\<dots> = replicate 32 tl_EMPTY"
    by (simp add: ts_new_def MAX_TIMERS_def)
  finally show ?thesis .
qed

end
