(* ===== verification/Memory.thy ===== *)
theory Memory
  imports Prelude
begin

text \<open>
  Byte-addressed memory, as the C-facing parts of the crate see it: a total function from addresses to
  bytes, with address 0 the null pointer.  \<open>mem_put\<close> is a block write and \<open>mem_get\<close> a block read;
  \<open>usz_add\<close> is addition on the 32-bit \<open>usize\<close> of the target, which wraps in a release build.
\<close>

type_synonym mem = "addr \<Rightarrow> u8"

definition usz_add :: "nat \<Rightarrow> nat \<Rightarrow> nat" where "usz_add a b = (a + b) mod 2 ^ 32"

definition usz_sat :: "nat \<Rightarrow> nat" where "usz_sat n = min n (2 ^ 32 - 1)"

definition mem_put :: "addr \<Rightarrow> u8 list \<Rightarrow> mem \<Rightarrow> mem" where
  "mem_put p bs m = (\<lambda>x. if p \<le> x \<and> x < p + length bs then bs ! (x - p) else m x)"

definition mem_get :: "addr \<Rightarrow> nat \<Rightarrow> mem \<Rightarrow> u8 list" where
  "mem_get p n m = map (\<lambda>i. m (p + i)) [0 ..< n]"

definition ascii :: "string \<Rightarrow> u8 list" where "ascii s = map of_char s"

lemma usz_add_small: "a + b < 2 ^ 32 \<Longrightarrow> usz_add a b = a + b"
  by (simp add: usz_add_def)

lemma usz_sat_id [simp]: "n < 2 ^ 32 \<Longrightarrow> usz_sat n = n"
  by (simp add: usz_sat_def)

lemma length_mem_get [simp]: "length (mem_get p n m) = n"
  by (simp add: mem_get_def)

lemma mem_get_nth [simp]: "i < n \<Longrightarrow> mem_get p n m ! i = m (p + i)"
  by (simp add: mem_get_def)

lemma mem_put_Nil [simp]: "mem_put p [] m = m"
  by (rule ext) (auto simp: mem_put_def)

lemma mem_put_outside: "x < p \<or> p + length bs \<le> x \<Longrightarrow> mem_put p bs m x = m x"
  by (auto simp: mem_put_def)

lemma mem_put_inside: "k < length bs \<Longrightarrow> mem_put p bs m (p + k) = bs ! k"
  by (simp add: mem_put_def)

lemma mem_put_append: "mem_put (p + length a) b (mem_put p a m) = mem_put p (a @ b) m"
  by (rule ext) (auto simp: mem_put_def nth_append)

lemma mem_put_snoc: "(mem_put p bs m)(p + length bs := b) = mem_put p (bs @ [b]) m"
  by (rule ext) (auto simp: mem_put_def nth_append)

lemma mem_get_put [simp]: "mem_get p (length bs) (mem_put p bs m) = bs"
  by (rule nth_equalityI) (auto simp: mem_put_inside)

lemma mem_get_cong: "(\<And>i. i < n \<Longrightarrow> m (p + i) = m' (p + i)) \<Longrightarrow> mem_get p n m = mem_get p n m'"
  by (simp add: mem_get_def)

lemma mem_get_disjoint:
  "p + n \<le> q \<or> q + length bs \<le> p \<Longrightarrow> mem_get p n (mem_put q bs m) = mem_get p n m"
  by (intro mem_get_cong mem_put_outside) auto

end
