(* ===== verification/Log.thy ===== *)
theory Log
  imports Memory
begin

text \<open>
  Logging and the bounded C formatter (\<open>src/src/log.rs\<close>).

  Memory is \<open>mem\<close>; the variadic arguments are the words of the argument area in order, so that taking
  one argument too many reads whatever word follows, as the C calling convention does.  The log sink is
  the list of chunks it was given.  \<open>usize\<close> arithmetic that can pass 32 bits is written with
  \<open>usz_add\<close> (the release build wraps) and \<open>usz_sat\<close> (the source saturates).
\<close>

unbundle bit_operations_syntax

record logger =
  lg_sink :: bool
  lg_out :: "u8 list list"

definition log_emit :: "u8 list \<Rightarrow> logger \<Rightarrow> logger" where
  "log_emit bytes l = (if lg_sink l then l\<lparr> lg_out := lg_out l @ [bytes] \<rparr> else l)"

function cstr_scan :: "mem \<Rightarrow> addr \<Rightarrow> nat \<Rightarrow> nat" where
  "cstr_scan m p n = (if n < 256 \<and> m (p + n) \<noteq> 0 then cstr_scan m p (n + 1) else n)"
  by pat_completeness auto
termination by (relation "measure (\<lambda>(m, p, n). 256 - n)") auto

declare cstr_scan.simps [simp del]

definition cstr_bytes :: "mem \<Rightarrow> addr \<Rightarrow> u8 list" where
  "cstr_bytes m p = (if p = 0 then [] else mem_get p (cstr_scan m p 0) m)"

definition hex_digit :: "u8 \<Rightarrow> u8" where
  "hex_digit nib = (if nib < 10 then 48 + nib else 97 + (nib - 10))"

function hex_loop :: "u32 \<Rightarrow> nat \<Rightarrow> u8 list \<Rightarrow> u8 list" where
  "hex_loop value i buf =
     (if i < 8
      then hex_loop value (i + 1) (buf[2 + i := hex_digit (ucast (drop_bit ((7 - i) * 4) value AND 0xf))])
      else buf)"
  by pat_completeness auto
termination by (relation "measure (\<lambda>(v, i, b). 8 - i)") auto

declare hex_loop.simps [simp del]

definition log_emit_hex32 :: "u32 \<Rightarrow> logger \<Rightarrow> logger" where
  "log_emit_hex32 value l = log_emit (hex_loop value 0 (ascii ''0x00000000'')) l"

definition wifi_level :: "u32 \<Rightarrow> u8 list" where
  "wifi_level presspara =
     (let lv = drop_bit 6 presspara AND 3
      in if lv = 1 then ascii ''[wifi:E] '' else if lv = 2 then ascii ''[wifi:W] ''
         else if lv = 3 then ascii ''[wifi:I] '' else ascii ''[wifi:?] '')"

definition wifi_file_id :: "u32 \<Rightarrow> u32" where
  "wifi_file_id presspara = (drop_bit 6 presspara AND 0x3fc) OR (drop_bit 16 presspara AND 0x3)"

definition wifi_line :: "u32 \<Rightarrow> u32" where
  "wifi_line presspara = (drop_bit 24 presspara AND 0xff) OR (drop_bit 10 presspara AND 0x3f00)"

definition emit_wifi_event :: "u32 \<Rightarrow> u32 list \<Rightarrow> logger \<Rightarrow> logger" where
  "emit_wifi_event presspara args l =
     (let l1 = log_emit (ascii ''file='') (log_emit (wifi_level presspara) l);
          l2 = log_emit (ascii '' line='') (log_emit_hex32 (wifi_file_id presspara) l1);
          l3 = log_emit (ascii '' '') (log_emit_hex32 (wifi_line presspara) l2);
          l4 = log_emit_hex32 presspara (log_emit (ascii ''press='') l3);
          l5 = fold (\<lambda>arg k. log_emit_hex32 arg (log_emit (ascii '' '') k)) args l4
      in log_emit [13, 10] l5)"

definition log_event_wifi_print0 :: "u32 \<Rightarrow> logger \<Rightarrow> i32 \<times> logger" where
  "log_event_wifi_print0 presspara l = (0, emit_wifi_event presspara [] l)"

definition log_event_wifi_print1 :: "u32 \<Rightarrow> u32 \<Rightarrow> logger \<Rightarrow> i32 \<times> logger" where
  "log_event_wifi_print1 presspara para1 l = (0, emit_wifi_event presspara [para1] l)"

definition log_event_wifi_print2 :: "u32 \<Rightarrow> u32 \<Rightarrow> u32 \<Rightarrow> logger \<Rightarrow> i32 \<times> logger" where
  "log_event_wifi_print2 presspara para1 para2 l = (0, emit_wifi_event presspara [para1, para2] l)"

definition log_event_wifi_print3 :: "u32 \<Rightarrow> u32 \<Rightarrow> u32 \<Rightarrow> u32 \<Rightarrow> logger \<Rightarrow> i32 \<times> logger" where
  "log_event_wifi_print3 presspara para1 para2 para3 l =
     (0, emit_wifi_event presspara [para1, para2, para3] l)"

definition log_event_wifi_print4 :: "u32 \<Rightarrow> u32 \<Rightarrow> u32 \<Rightarrow> u32 \<Rightarrow> u32 \<Rightarrow> logger \<Rightarrow> i32 \<times> logger" where
  "log_event_wifi_print4 presspara para1 para2 para3 para4 l =
     (0, emit_wifi_event presspara [para1, para2, para3, para4] l)"

text \<open>The formatter.  One turn of its loop either goes on at a new input index, output index and
  argument, or returns; \<open>FPanic\<close> is an index past the ten-byte digit array.\<close>

datatype fstep = FNext nat nat nat mem | FReturn i32 mem | FPanic

definition byte_at :: "u8 list \<Rightarrow> nat \<Rightarrow> u8 option" where
  "byte_at src i = (if i < length src then Some (src ! i) else None)"

function fmt_width :: "u8 list \<Rightarrow> nat \<Rightarrow> nat \<Rightarrow> nat \<times> nat" where
  "fmt_width src e w =
     (if e < length src \<and> 48 \<le> src ! e \<and> src ! e \<le> 57
      then fmt_width src (e + 1) (usz_sat (usz_sat (w * 10) + unat (src ! e - 48)))
      else (e, w))"
  by pat_completeness auto
termination by (relation "measure (\<lambda>(src, e, w). length src - e)") auto

declare fmt_width.simps [simp del]

definition fmt_flags :: "u8 list \<Rightarrow> nat \<Rightarrow> bool \<times> nat \<times> nat" where
  "fmt_flags src i =
     (if src ! i = 37
      then let zero = byte_at src (i + 1) = Some 48
           in (zero, fmt_width src (if zero then i + 2 else i + 1) 0)
      else (False, i + 1, 0))"

fun fmt_put :: "addr \<Rightarrow> u8 list \<Rightarrow> nat \<times> mem \<Rightarrow> nat \<times> mem" where
  "fmt_put out [] s = s"
| "fmt_put out (b # bs) s = fmt_put out bs (usz_add (fst s) 1, (snd s)(out + fst s := b))"

function digits_loop :: "u32 \<Rightarrow> u32 \<Rightarrow> u8 list \<Rightarrow> nat \<Rightarrow> (u8 list \<times> nat) option" where
  "digits_loop radix value digits n =
     (if length digits \<le> n then None
      else
        let digits1 = digits[n := hex_digit (ucast (value mod radix))]
        in if value div radix = 0 then Some (digits1, n + 1)
           else digits_loop radix (value div radix) digits1 (n + 1))"
  by pat_completeness auto
termination by (relation "measure (\<lambda>(r, v, d, n). length d - n)") auto

declare digits_loop.simps [simp del]

definition fmt_string :: "addr \<Rightarrow> nat \<Rightarrow> u32 \<Rightarrow> nat \<Rightarrow> nat \<Rightarrow> nat \<Rightarrow> mem \<Rightarrow> fstep" where
  "fmt_string out limit arg next_i a opos m =
     (let bytes = cstr_bytes m (unat arg)
      in if usz_add opos (length bytes) > limit then FReturn (- 1) (m(out := 0))
         else (case fmt_put out bytes (opos, m) of (opos1, m1) \<Rightarrow> FNext next_i opos1 (a + 1) m1))"

definition fmt_number ::
  "addr \<Rightarrow> nat \<Rightarrow> u8 \<Rightarrow> bool \<Rightarrow> nat \<Rightarrow> u32 \<Rightarrow> nat \<Rightarrow> nat \<Rightarrow> nat \<Rightarrow> mem \<Rightarrow> fstep" where
  "fmt_number out limit specifier zero width arg next_i a opos m =
     (let negative = (specifier = 100 \<and> sint arg < 0);
          value = (if negative then - arg else arg);
          sign = (if negative then 1 else 0)
      in case digits_loop (if specifier = 120 then 16 else 10) value (replicate 10 0) 0 of
           None \<Rightarrow> FPanic
         | Some (digits, n) \<Rightarrow>
             let rendered = max (n + sign) width
             in if usz_add opos rendered > limit then FReturn (- 1) (m(out := 0))
                else (case fmt_put out (rev (take n digits))
                            (fmt_put out (replicate (rendered - n - sign) (if zero then 48 else 32))
                              (fmt_put out (replicate sign 45) (opos, m))) of
                        (opos1, m1) \<Rightarrow> FNext next_i opos1 (a + 1) m1))"

definition fmt_literal :: "addr \<Rightarrow> nat \<Rightarrow> u8 list \<Rightarrow> nat \<Rightarrow> nat \<Rightarrow> nat \<Rightarrow> mem \<Rightarrow> fstep" where
  "fmt_literal out limit src i a opos m =
     (let escaped = (src ! i = 37 \<and> byte_at src (i + 1) = Some 37)
      in if opos = limit then FReturn (- 1) (m(out := 0))
         else FNext (if escaped then i + 2 else i + 1) (usz_add opos 1) a
                (m(out + opos := (if escaped then 37 else src ! i))))"

definition fmt_step ::
  "addr \<Rightarrow> nat \<Rightarrow> (nat \<Rightarrow> u32) \<Rightarrow> u8 list \<Rightarrow> nat \<Rightarrow> nat \<Rightarrow> nat \<Rightarrow> mem \<Rightarrow> fstep" where
  "fmt_step out limit args src i a opos m =
     (case fmt_flags src i of
        (zero, e, width) \<Rightarrow>
          (case (if src ! i = 37 then byte_at src e else None) of
             None \<Rightarrow> fmt_literal out limit src i a opos m
           | Some c \<Rightarrow>
              (if c = 115 then fmt_string out limit (args a) (e + 1) a opos m
               else if c = 117 \<or> c = 100 \<or> c = 120
               then fmt_number out limit c zero width (args a) (e + 1) a opos m
               else fmt_literal out limit src i a opos m)))"

lemma fmt_width_ge: "e \<le> fst (fmt_width src e w)"
proof (induction src e w rule: fmt_width.induct)
  case (1 src e w)
  then show ?case
    by (subst fmt_width.simps) (auto split: if_splits)
qed

lemma fmt_flags_ge: "fmt_flags src i = (z, e, w) \<Longrightarrow> i < e"
  using fmt_width_ge [of "i + 1" src 0] fmt_width_ge [of "i + 2" src 0]
  by (auto simp: fmt_flags_def Let_def split: if_splits)

lemma fmt_step_advances: "fmt_step out limit args src i a opos m = FNext i1 o1 a1 m1 \<Longrightarrow> i < i1"
  by (auto simp: fmt_step_def fmt_string_def fmt_number_def fmt_literal_def Let_def
      split: prod.splits option.splits if_splits dest!: fmt_flags_ge)

function fmt_loop ::
  "addr \<Rightarrow> nat \<Rightarrow> (nat \<Rightarrow> u32) \<Rightarrow> u8 list \<Rightarrow> nat \<Rightarrow> nat \<Rightarrow> nat \<Rightarrow> mem \<Rightarrow> (i32 \<times> mem) option" where
  "fmt_loop out limit args src i a opos m =
     (if i < length src
      then (case fmt_step out limit args src i a opos m of
              FNext i1 opos1 a1 m1 \<Rightarrow> fmt_loop out limit args src i1 a1 opos1 m1
            | FReturn r m1 \<Rightarrow> Some (r, m1)
            | FPanic \<Rightarrow> None)
      else Some (sint (word_of_nat opos :: u32), m(out + opos := 0)))"
  by pat_completeness auto
termination
  by (relation "measure (\<lambda>(out, limit, args, src, i, a, opos, m). length src - i)")
    (auto dest: fmt_step_advances)

declare fmt_loop.simps [simp del]

text \<open>The format is read once: the code borrows it as a slice for the whole call, so a format that overlaps the
  destination is undefined behaviour of the caller and not covered.\<close>

definition vsnprintf_subset ::
  "addr \<Rightarrow> nat \<Rightarrow> nat \<Rightarrow> addr \<Rightarrow> (nat \<Rightarrow> u32) \<Rightarrow> mem \<Rightarrow> (i32 \<times> mem) option" where
  "vsnprintf_subset buf bufsize cnt fmt args m =
     (if buf = 0 \<or> bufsize = 0 then Some (- 1, m)
      else fmt_loop buf (min (bufsize - 1) cnt) args (cstr_bytes m fmt) 0 0 0 m)"

definition snprintf_s ::
  "addr \<Rightarrow> nat \<Rightarrow> nat \<Rightarrow> addr \<Rightarrow> (nat \<Rightarrow> u32) \<Rightarrow> mem \<Rightarrow> (i32 \<times> mem) option" where
  "snprintf_s buf bufsize cnt fmt args m = vsnprintf_subset buf bufsize cnt fmt args m"

text \<open>\<open>stack\<close> is where the 512-byte local buffer lies.\<close>

definition osal_printk ::
  "addr \<Rightarrow> addr \<Rightarrow> (nat \<Rightarrow> u32) \<Rightarrow> mem \<times> logger \<Rightarrow> (i32 \<times> mem \<times> logger) option" where
  "osal_printk stack fmt args s =
     (case vsnprintf_subset stack 512 511 fmt args (mem_put stack (replicate 512 0) (fst s)) of
        None \<Rightarrow> None
      | Some (written, m1) \<Rightarrow>
          Some (written, m1,
            if 0 \<le> written then log_emit (cstr_bytes m1 stack) (snd s)
            else log_emit (cstr_bytes m1 fmt) (log_emit (ascii ''[osal_printk truncated] '') (snd s))))"

definition memset_s :: "addr \<Rightarrow> nat \<Rightarrow> i32 \<Rightarrow> nat \<Rightarrow> mem \<Rightarrow> i32 \<times> mem" where
  "memset_s dest dest_max c cnt m =
     (if dest = 0 \<or> cnt > dest_max then (1, m)
      else (0, mem_put dest (replicate cnt (word_of_int c)) m))"

definition memcpy_s :: "addr \<Rightarrow> nat \<Rightarrow> addr \<Rightarrow> nat \<Rightarrow> mem \<Rightarrow> i32 \<times> mem" where
  "memcpy_s dest dest_max src cnt m =
     (if dest = 0 \<or> src = 0 \<or> cnt > dest_max then (1, m)
      else (0, mem_put dest (mem_get src cnt m) m))"

subsection \<open>What a format means\<close>

datatype directive = DText u8 | DStr | DNum u8 bool nat

definition is_dec :: "u8 \<Rightarrow> bool" where "is_dec c \<longleftrightarrow> 48 \<le> c \<and> c \<le> 57"

definition dec_value :: "nat \<Rightarrow> u8 list \<Rightarrow> nat" where
  "dec_value w ds = foldl (\<lambda>v d. v * 10 + unat (d - 48)) w ds"

definition skip_zero :: "u8 list \<Rightarrow> bool \<times> u8 list" where
  "skip_zero cs = (case cs of c # r \<Rightarrow> if c = 48 then (True, r) else (False, cs) | [] \<Rightarrow> (False, cs))"

definition fmt_lit :: "u8 \<Rightarrow> u8 list \<Rightarrow> directive \<times> u8 list" where
  "fmt_lit c cs =
     (case cs of d # r \<Rightarrow> if c = 37 \<and> d = 37 then (DText 37, r) else (DText c, cs) | [] \<Rightarrow> (DText c, cs))"

definition fmt_directive :: "u8 \<Rightarrow> u8 list \<Rightarrow> directive \<times> u8 list" where
  "fmt_directive c cs =
     (if c \<noteq> 37 then fmt_lit c cs
      else (case dropWhile is_dec (snd (skip_zero cs)) of
              [] \<Rightarrow> fmt_lit c cs
            | x # r \<Rightarrow>
               (if x = 115 then (DStr, r)
                else if x = 117 \<or> x = 100 \<or> x = 120
                then (DNum x (fst (skip_zero cs)) (dec_value 0 (takeWhile is_dec (snd (skip_zero cs)))), r)
                else fmt_lit c cs)))"

lemma fmt_lit_text: "fmt_lit c cs = (d, r) \<Longrightarrow> \<exists>b. d = DText b"
  by (auto simp: fmt_lit_def split: list.splits if_splits)

lemma skip_zero_length: "length (snd (skip_zero cs)) \<le> length cs"
  by (auto simp: skip_zero_def split: list.split)

lemma fmt_directive_shorter: "length (snd (fmt_directive c cs)) \<le> length cs"
proof -
  have "length (dropWhile is_dec (snd (skip_zero cs))) \<le> length cs"
    using skip_zero_length [of cs] length_dropWhile_le [of is_dec "snd (skip_zero cs)"] by linarith
  then show ?thesis
    by (auto simp: fmt_directive_def fmt_lit_def split: list.split)
qed

function fmt_parse :: "u8 list \<Rightarrow> directive list" where
  "fmt_parse [] = []"
| "fmt_parse (c # cs) = fst (fmt_directive c cs) # fmt_parse (snd (fmt_directive c cs))"
  by pat_completeness auto
termination
  by (relation "measure length") (auto simp: fmt_directive_shorter le_imp_less_Suc)

function radix_digits :: "nat \<Rightarrow> nat \<Rightarrow> nat list" where
  "radix_digits r n = (if n div r = 0 \<or> n \<le> n div r then [n mod r] else radix_digits r (n div r) @ [n mod r])"
  by pat_completeness auto
termination by (relation "measure snd") auto

declare radix_digits.simps [simp del]

definition num_text :: "u8 \<Rightarrow> bool \<Rightarrow> nat \<Rightarrow> u32 \<Rightarrow> u8 list" where
  "num_text spec zero width v =
     (let sign = (if spec = 100 \<and> sint v < 0 then [45] else []);
          value = (if spec = 100 then nat \<bar>sint v\<bar> else unat v);
          ds = map (\<lambda>d. hex_digit (word_of_nat d)) (radix_digits (if spec = 120 then 16 else 10) value)
      in sign @ replicate (width - length ds - length sign) (if zero then 48 else 32) @ ds)"

fun directive_text :: "mem \<Rightarrow> u32 \<Rightarrow> directive \<Rightarrow> u8 list" where
  "directive_text m v (DText b) = [b]"
| "directive_text m v DStr = cstr_bytes m (unat v)"
| "directive_text m v (DNum s z w) = num_text s z w v"

fun takes_arg :: "directive \<Rightarrow> nat" where
  "takes_arg (DText b) = 0"
| "takes_arg DStr = 1"
| "takes_arg (DNum s z w) = 1"

fun render :: "mem \<Rightarrow> (nat \<Rightarrow> u32) \<Rightarrow> nat \<Rightarrow> directive list \<Rightarrow> u8 list" where
  "render m args a [] = []"
| "render m args a (d # ds) = directive_text m (args a) d @ render m args (a + takes_arg d) ds"

text \<open>The side conditions: widths that fit the \<open>usize\<close> arithmetic, and string arguments outside
  the destination.\<close>

fun fmt_fits :: "addr \<Rightarrow> nat \<Rightarrow> (nat \<Rightarrow> u32) \<Rightarrow> nat \<Rightarrow> directive list \<Rightarrow> bool" where
  "fmt_fits out n args a [] = True"
| "fmt_fits out n args a (DText b # ds) = fmt_fits out n args a ds"
| "fmt_fits out n args a (DStr # ds) =
     ((unat (args a) + 256 \<le> out \<or> out + n \<le> unat (args a)) \<and> fmt_fits out n args (a + 1) ds)"
| "fmt_fits out n args a (DNum s z w # ds) = (w < 2 ^ 31 \<and> fmt_fits out n args (a + 1) ds)"

subsection \<open>Digits\<close>

lemma radix_digits_rec:
  assumes "1 < r"
  shows "radix_digits r n = (if n < r then [n] else radix_digits r (n div r) @ [n mod r])"
proof -
  have "n \<le> n div r \<longleftrightarrow> n = 0"
    using assms div_less_dividend [of r n] by (cases "n = 0") (simp_all add: not_le)
  then show ?thesis
    using assms by (subst radix_digits.simps) (auto simp: div_eq_0_iff)
qed

lemma radix_digits_value:
  assumes "1 < r"
  shows "foldl (\<lambda>v d. v * r + d) 0 (radix_digits r n) = n \<and> (\<forall>d \<in> set (radix_digits r n). d < r)"
proof (induction n rule: less_induct)
  case (less n)
  show ?case
  proof (cases "n < r")
    case True
    then show ?thesis
      using assms by (simp add: radix_digits_rec)
  next
    case False
    then have "n div r < n"
      using assms by simp
    then show ?thesis
      using less [of "n div r"] False assms by (auto simp: radix_digits_rec [OF assms, of n])
  qed
qed

lemma radix_digits_length:
  assumes "1 < r"
  shows "n < r ^ Suc k \<Longrightarrow> length (radix_digits r n) \<le> Suc k"
proof (induction k arbitrary: n)
  case 0
  then show ?case
    using assms by (simp add: radix_digits_rec)
next
  case (Suc k)
  have "n div r < r ^ Suc k"
    using Suc.prems assms by (simp add: div_less_iff_less_mult mult.commute)
  then show ?case
    using Suc.IH [of "n div r"] assms by (simp add: radix_digits_rec [OF assms, of n])
qed

lemma digits_loop_spec:
  assumes "1 < unat r"
  shows "n + length (radix_digits (unat r) (unat v)) \<le> length ds \<Longrightarrow>
     \<exists>ds'. digits_loop r v ds n = Some (ds', n + length (radix_digits (unat r) (unat v))) \<and>
       rev (take (n + length (radix_digits (unat r) (unat v))) ds') =
         map (\<lambda>d. hex_digit (word_of_nat d)) (radix_digits (unat r) (unat v)) @ rev (take n ds)"
proof (induction "length ds - n" arbitrary: v ds n)
  case 0
  then show ?case
    using radix_digits_rec [OF assms, of "unat v"] by (auto split: if_splits)
next
  case (Suc k)
  let ?ds = "ds[n := hex_digit (ucast (v mod r))]"
  have n: "n < length ds"
    using Suc.hyps(2) by linarith
  have last: "rev (take (Suc n) ?ds) = hex_digit (word_of_nat (unat v mod unat r)) # rev (take n ds)"
    using n by (simp add: take_Suc_conv_app_nth flip: unat_mod)
  have z: "v div r = 0 \<longleftrightarrow> unat v < unat r"
  proof -
    have "unat (v div r) = 0 \<longleftrightarrow> unat v < unat r"
      using assms by (auto simp: unat_div div_eq_0_iff)
    then show ?thesis
      by (simp only: unat_eq_zero)
  qed
  show ?case
  proof (cases "unat v < unat r")
    case True
    then show ?thesis
      using n z last assms by (subst digits_loop.simps) (simp add: Let_def radix_digits_rec)
  next
    case False
    have len: "length (radix_digits (unat r) (unat v)) = Suc (length (radix_digits (unat r) (unat (v div r))))"
      using False assms by (simp add: radix_digits_rec [OF assms, of "unat v"] unat_div)
    have k: "k = length ?ds - Suc n" and le: "Suc n + length (radix_digits (unat r) (unat (v div r))) \<le> length ?ds"
      using Suc.hyps(2) Suc.prems len by simp_all
    obtain ds' where "digits_loop r (v div r) ?ds (Suc n) = Some (ds', Suc n + length (radix_digits (unat r) (unat (v div r))))"
      "rev (take (Suc n + length (radix_digits (unat r) (unat (v div r)))) ds') =
         map (\<lambda>d. hex_digit (word_of_nat d)) (radix_digits (unat r) (unat (v div r))) @ rev (take (Suc n) ?ds)"
      using Suc.hyps(1) [OF k le] by blast
    then show ?thesis
      using n z False last len
      by (subst digits_loop.simps) (simp add: Let_def radix_digits_rec [OF assms, of "unat v"] unat_div)
  qed
qed

lemma digits_loop_total:
  assumes "1 < unat r" "9 < unat r"
  obtains ds n where "digits_loop r v (replicate 10 0) 0 = Some (ds, n)" "n \<le> 10"
    "n = length (radix_digits (unat r) (unat v))"
    "rev (take n ds) = map (\<lambda>d. hex_digit (word_of_nat d)) (radix_digits (unat r) (unat v))"
proof -
  have "unat v < 2 ^ LENGTH(32)"
    by (rule unsigned_less)
  then have "unat v < 10 ^ 10"
    by simp
  also have "(10 :: nat) ^ 10 \<le> unat r ^ 10"
    using assms(2) by (intro power_mono) auto
  finally have "length (radix_digits (unat r) (unat v)) \<le> 10"
    using radix_digits_length [OF assms(1), of "unat v" 9] by simp
  then show ?thesis
    using digits_loop_spec [OF assms(1), of 0 v "replicate 10 0"] by (auto intro: that)
qed

subsection \<open>One conversion\<close>

lemma byte_at_drop: "byte_at src i = (case drop i src of [] \<Rightarrow> None | x # _ \<Rightarrow> Some x)"
  by (cases "i < length src") (auto simp: byte_at_def simp flip: Cons_nth_drop_Suc)

lemma usz_sat_step: "usz_sat (usz_sat (usz_sat w * 10) + d) = usz_sat (w * 10 + d)"
  by (auto simp: usz_sat_def min_def)

lemma fmt_width_spec:
  "fmt_width src e (usz_sat w) =
     (e + length (takeWhile is_dec (drop e src)), usz_sat (dec_value w (takeWhile is_dec (drop e src))))"
proof (induction "length src - e" arbitrary: e w)
  case 0
  then show ?case
    by (subst fmt_width.simps) (simp add: dec_value_def)
next
  case (Suc k)
  then have e: "e < length src"
    by linarith
  then have d: "drop e src = src ! e # drop (Suc e) src"
    by (simp add: Cons_nth_drop_Suc)
  show ?case
  proof (cases "is_dec (src ! e)")
    case True
    have "fmt_width src e (usz_sat w) = fmt_width src (Suc e) (usz_sat (w * 10 + unat (src ! e - 48)))"
      using True e by (subst fmt_width.simps) (simp add: is_dec_def usz_sat_step)
    also have "\<dots> = (Suc e + length (takeWhile is_dec (drop (Suc e) src)),
        usz_sat (dec_value (w * 10 + unat (src ! e - 48)) (takeWhile is_dec (drop (Suc e) src))))"
      using Suc.hyps by (intro Suc.hyps(1)) simp
    finally show ?thesis
      using True by (simp add: d dec_value_def)
  next
    case False
    then show ?thesis
      using e by (subst fmt_width.simps) (auto simp: is_dec_def d dec_value_def)
  qed
qed

lemma fmt_flags_spec:
  assumes "i < length src" "src ! i = 37"
  obtains e where "fmt_flags src i =
      (fst (skip_zero (drop (Suc i) src)), e, usz_sat (dec_value 0 (takeWhile is_dec (snd (skip_zero (drop (Suc i) src))))))"
    "drop e src = dropWhile is_dec (snd (skip_zero (drop (Suc i) src)))"
proof -
  let ?cs = "drop (Suc i) src"
  define e0 where "e0 = (if fst (skip_zero ?cs) then i + 2 else i + 1)"
  have z: "byte_at src (Suc i) = Some 48 \<longleftrightarrow> fst (skip_zero ?cs)"
    by (auto simp: byte_at_drop skip_zero_def split: list.split)
  have d: "drop e0 src = snd (skip_zero ?cs)"
    by (auto simp: e0_def skip_zero_def drop_Suc split: list.splits) (metis drop_Suc drop_tl list.sel(3) tl_drop)
  have "fmt_flags src i = (fst (skip_zero ?cs), fmt_width src e0 (usz_sat 0))"
    using assms by (simp add: fmt_flags_def z Let_def e0_def)
  then show ?thesis
    unfolding fmt_width_spec d
    by (rule that) (simp add: dropWhile_eq_drop add.commute flip: d)
qed

lemma fmt_put_wrap:
  "length pre + length bs \<le> 2 ^ 32 \<Longrightarrow>
     fmt_put out bs (length pre mod 2 ^ 32, mem_put out pre m) =
       ((length pre + length bs) mod 2 ^ 32, mem_put out (pre @ bs) m)"
proof (induction bs arbitrary: pre)
  case Nil
  then show ?case
    by simp
next
  case (Cons b bs)
  then have "length pre mod 2 ^ 32 = length pre"
    by simp
  then show ?case
    using Cons.IH [of "pre @ [b]"] Cons.prems by (simp add: usz_add_def mem_put_snoc)
qed

lemma fmt_put_spec:
  "length pre + length bs < 2 ^ 32 \<Longrightarrow>
     fmt_put out bs (length pre, mem_put out pre m) = (length pre + length bs, mem_put out (pre @ bs) m)"
  using fmt_put_wrap [of pre bs out m] by simp

lemma cstr_scan_cong:
  "(\<And>k. k < 256 \<Longrightarrow> m (p + k) = m' (p + k)) \<Longrightarrow> cstr_scan m p n = cstr_scan m' p n"
proof (induction "256 - n" arbitrary: n)
  case 0
  then show ?case
    by (simp add: cstr_scan.simps)
next
  case (Suc k)
  then have "cstr_scan m p (Suc n) = cstr_scan m' p (Suc n)"
    by (intro Suc.hyps(1)) auto
  then show ?case
    using Suc.prems [of n] by (cases "n < 256") (simp_all add: cstr_scan.simps [of m p n] cstr_scan.simps [of m' p n])
qed

lemma cstr_scan_le: "n \<le> 256 \<Longrightarrow> cstr_scan m p n \<le> 256"
proof (induction "256 - n" arbitrary: n)
  case 0
  then show ?case
    by (simp add: cstr_scan.simps)
next
  case (Suc k)
  then show ?case
    using Suc.hyps(1) [of "Suc n"] by (subst cstr_scan.simps) auto
qed

lemma cstr_bytes_length: "length (cstr_bytes m p) \<le> 256"
  using cstr_scan_le [of 0 m p] by (simp add: cstr_bytes_def)

lemma cstr_bytes_disjoint:
  assumes "p + 256 \<le> out \<or> out + length pre \<le> p"
  shows "cstr_bytes (mem_put out pre m) p = cstr_bytes m p"
proof -
  have "cstr_scan (mem_put out pre m) p 0 = cstr_scan m p 0"
    using assms by (intro cstr_scan_cong mem_put_outside) auto
  then show ?thesis
    using assms cstr_scan_le [of 0 m p] by (auto simp: cstr_bytes_def intro!: mem_get_disjoint)
qed

lemma uint_small_word: "\<lbrakk> 0 \<le> x; x < 2 ^ 32 \<rbrakk> \<Longrightarrow> uint (word_of_int x :: u32) = x"
  by (simp add: unsigned_of_int take_bit_int_eq_self)

lemma sint_bounds: "- (2 ^ 31) \<le> sint (v :: u32)" "sint v < 2 ^ 31"
  using sint_greater_eq [of v] sint_less [of v] by simp_all

lemma num_value:
  fixes v :: u32
  shows "unat (if s = 100 \<and> sint v < 0 then - v else v) = (if s = (100 :: u8) then nat \<bar>sint v\<bar> else unat v)"
proof (cases "sint v < 0")
  case True
  have "uint (word_of_int (- sint v) :: u32) = - sint v"
    using True sint_bounds [of v] by (intro uint_small_word) auto
  then have "uint (- v) = - sint v"
    by simp
  then have "unat (- v) = nat (- sint v)"
    by (simp only: unat_eq_nat_uint)
  then show ?thesis
    using True by simp
next
  case False
  have "uint (word_of_int (sint v) :: u32) = sint v"
    using False sint_bounds [of v] by (intro uint_small_word) auto
  then have "uint v = sint v"
    by simp
  then have "unat v = nat (sint v)"
    by (simp only: unat_eq_nat_uint)
  then show ?thesis
    using False by simp
qed

lemma fmt_number_spec:
  assumes "length pre \<le> limit" "limit < 2 ^ 31" "width < 2 ^ 31"
  shows "fmt_number out limit s zero width v next_i a (length pre) (mem_put out pre m) =
     (if length pre + length (num_text s zero width v) \<le> limit
      then FNext next_i (length pre + length (num_text s zero width v)) (a + 1)
             (mem_put out (pre @ num_text s zero width v) m)
      else FReturn (- 1) ((mem_put out pre m)(out := 0)))"
proof -
  define neg where "neg \<longleftrightarrow> s = 100 \<and> sint v < 0"
  define r :: u32 where "r = (if s = 120 then 16 else 10)"
  define vl where "vl = (if neg then - v else v)"
  have r1: "1 < unat r" "9 < unat r"
    by (simp_all add: r_def)
  obtain ds n where dl: "digits_loop r vl (replicate 10 0) 0 = Some (ds, n)" and n: "n \<le> 10"
    "n = length (radix_digits (unat r) (unat vl))"
    "rev (take n ds) = map (\<lambda>d. hex_digit (word_of_nat d)) (radix_digits (unat r) (unat vl))"
    by (rule digits_loop_total [OF r1, of vl])
  define sign where "sign = (if neg then 1 else 0 :: nat)"
  define pad where "pad = replicate (width - n - sign) (if zero then 48 else 32 :: u8)"
  have ur: "unat r = (if s = 120 then 16 else 10)"
    by (simp add: r_def)
  have uv: "unat vl = (if s = 100 then nat \<bar>sint v\<bar> else unat v)"
    unfolding vl_def neg_def by (rule num_value)
  have tx: "num_text s zero width v = replicate sign 45 @ pad @ rev (take n ds)"
    unfolding num_text_def Let_def n(3) ur uv by (simp add: sign_def neg_def pad_def n(2) ur uv)
  have ln: "length (rev (take n ds)) = n"
    unfolding n(3) using n(2) by simp
  have len: "length (num_text s zero width v) = max (n + sign) width"
    unfolding tx using ln by (simp add: pad_def max_def)
  have pad': "replicate (max (n + sign) width - n - sign) (if zero then 48 else 32 :: u8) = pad"
    by (simp add: pad_def max_def)
  have add: "usz_add (length pre) (max (n + sign) width) = length pre + max (n + sign) width"
    using assms n(1) by (intro usz_add_small) (simp add: sign_def max_def)
  have put: "fmt_put out (rev (take n ds)) (fmt_put out pad (fmt_put out (replicate sign 45) (length pre, mem_put out pre m)))
     = (length pre + length (num_text s zero width v), mem_put out (pre @ num_text s zero width v) m)"
    if "length pre + length (num_text s zero width v) \<le> limit"
  proof -
    have l: "length pre + sign + length pad + length (rev (take n ds)) < 2 ^ 32"
      using that assms(2) unfolding tx by simp
    have "fmt_put out (replicate sign 45) (length pre, mem_put out pre m)
       = (length (pre @ replicate sign 45), mem_put out (pre @ replicate sign 45) m)"
      using l by (subst fmt_put_spec) simp_all
    moreover have "fmt_put out pad (length (pre @ replicate sign 45), mem_put out (pre @ replicate sign 45) m)
       = (length (pre @ replicate sign 45 @ pad), mem_put out (pre @ replicate sign 45 @ pad) m)"
      using l by (subst fmt_put_spec) simp_all
    moreover have "fmt_put out (rev (take n ds)) (length (pre @ replicate sign 45 @ pad), mem_put out (pre @ replicate sign 45 @ pad) m)
       = (length (pre @ replicate sign 45 @ pad @ rev (take n ds)), mem_put out (pre @ replicate sign 45 @ pad @ rev (take n ds)) m)"
      using l by (subst fmt_put_spec) simp_all
    ultimately show ?thesis
      unfolding tx by simp
  qed
  show ?thesis
    unfolding fmt_number_def Let_def
    unfolding neg_def [symmetric] vl_def [symmetric] r_def [symmetric] sign_def [symmetric] dl
    unfolding option.case prod.case pad' add
    using put by (simp add: len not_less)
qed

lemma fmt_string_spec:
  assumes "length pre \<le> limit" "limit < n" "n \<le> 2 ^ 31" "unat v + 256 \<le> out \<or> out + n \<le> unat v"
  shows "fmt_string out limit v next_i a (length pre) (mem_put out pre m) =
     (if length pre + length (cstr_bytes m (unat v)) \<le> limit
      then FNext next_i (length pre + length (cstr_bytes m (unat v))) (a + 1)
             (mem_put out (pre @ cstr_bytes m (unat v)) m)
      else FReturn (- 1) ((mem_put out pre m)(out := 0)))"
proof -
  have same: "cstr_bytes (mem_put out pre m) (unat v) = cstr_bytes m (unat v)"
    using assms by (intro cstr_bytes_disjoint) auto
  have small: "length pre + length (cstr_bytes m (unat v)) < 2 ^ 32"
    using assms(1-3) cstr_bytes_length [of m "unat v"] by simp
  show ?thesis
    using small by (simp add: fmt_string_def Let_def same usz_add_small fmt_put_spec)
qed

lemma drop_next: "drop i xs = y # ys \<Longrightarrow> drop (Suc i) xs = ys"
  by (metis drop_Suc list.sel(3) tl_drop)

lemma fmt_literal_spec:
  assumes "i < length src" "length pre \<le> limit" "limit < 2 ^ 31"
    "fmt_directive (src ! i) (drop (Suc i) src) = (DText b, r)"
  obtains j where "drop j src = r"
    "fmt_literal out limit src i a (length pre) (mem_put out pre m) =
       (if length pre + 1 \<le> limit then FNext j (length pre + 1) a (mem_put out (pre @ [b]) m)
        else FReturn (- 1) ((mem_put out pre m)(out := 0)))"
proof -
  define esc where "esc \<longleftrightarrow> src ! i = 37 \<and> byte_at src (Suc i) = Some 37"
  have r: "fmt_lit (src ! i) (drop (Suc i) src) = (DText b, r)"
    using assms(4) by (auto simp: fmt_directive_def split: list.splits if_splits)
  have "drop (if esc then i + 2 else i + 1) src = r \<and> b = (if esc then 37 else src ! i)"
    using r by (auto simp: fmt_lit_def esc_def byte_at_drop split: list.splits if_splits dest: drop_next)
  then show ?thesis
    using assms(2, 3)
    by (intro that [of "if esc then i + 2 else i + 1"])
      (auto simp: fmt_literal_def Let_def esc_def [symmetric] usz_add_small mem_put_snoc)
qed

lemma fmt_fits_Cons:
  "fmt_fits out n args a (d # ds) \<Longrightarrow>
     fmt_fits out n args (a + takes_arg d) ds \<and>
     (d = DStr \<longrightarrow> unat (args a) + 256 \<le> out \<or> out + n \<le> unat (args a)) \<and>
     (\<forall>s z w. d = DNum s z w \<longrightarrow> w < 2 ^ 31)"
  by (cases d) auto

lemma fmt_step_spec:
  assumes i: "i < length src" and lim: "length pre \<le> limit" "limit < n" "n \<le> 2 ^ 31"
    and dir: "fmt_directive (src ! i) (drop (Suc i) src) = (d, r)"
    and str: "d = DStr \<Longrightarrow> unat (args a) + 256 \<le> out \<or> out + n \<le> unat (args a)"
    and num: "\<And>s z w. d = DNum s z w \<Longrightarrow> w < 2 ^ 31"
  obtains j where "drop j src = r"
    "fmt_step out limit args src i a (length pre) (mem_put out pre m) =
       (let piece = directive_text m (args a) d
        in if length pre + length piece \<le> limit
           then FNext j (length pre + length piece) (a + takes_arg d) (mem_put out (pre @ piece) m)
           else FReturn (- 1) ((mem_put out pre m)(out := 0)))"
proof -
  have l31: "limit < 2 ^ 31"
    using lim by linarith
  note found = that
  have literal: thesis if d: "\<exists>b. d = DText b" and eq: "fmt_step out limit args src i a (length pre) (mem_put out pre m) =
      fmt_literal out limit src i a (length pre) (mem_put out pre m)"
  proof -
    obtain b where d: "d = DText b"
      using d by blast
    obtain j where "drop j src = r" "fmt_literal out limit src i a (length pre) (mem_put out pre m) =
       (if length pre + 1 \<le> limit then FNext j (length pre + 1) a (mem_put out (pre @ [b]) m)
        else FReturn (- 1) ((mem_put out pre m)(out := 0)))"
      using fmt_literal_spec [OF i lim(1) l31 dir [unfolded d]] .
    then show thesis
      using eq by (intro found [of j]) (simp_all add: d)
  qed
  show ?thesis
  proof (cases "src ! i = 37")
    case False
    then show ?thesis
      using dir by (intro literal) (auto simp: fmt_directive_def fmt_step_def fmt_flags_def dest: fmt_lit_text)
  next
    case True
    let ?cs = "drop (Suc i) src"
    obtain e where fl: "fmt_flags src i = (fst (skip_zero ?cs), e, usz_sat (dec_value 0 (takeWhile is_dec (snd (skip_zero ?cs)))))"
      and e: "drop e src = dropWhile is_dec (snd (skip_zero ?cs))"
      using fmt_flags_spec [OF i True] .
    have b: "byte_at src e = (case dropWhile is_dec (snd (skip_zero ?cs)) of [] \<Rightarrow> None | x # _ \<Rightarrow> Some x)"
      by (simp add: byte_at_drop e)
    have e1: "drop (e + 1) src = xs" if "dropWhile is_dec (snd (skip_zero ?cs)) = x # xs" for x xs
      using e that drop_next by simp
    show ?thesis
    proof (cases "dropWhile is_dec (snd (skip_zero ?cs))")
      case Nil
      then show ?thesis
        using dir True by (intro literal) (auto simp: fmt_directive_def fmt_step_def fl b simp del: dropWhile_eq_Nil_conv dest: fmt_lit_text)
    next
      case (Cons x xs)
      consider (s) "x = 115" | (n) "x \<noteq> 115" "x = 117 \<or> x = 100 \<or> x = 120"
        | (other) "x \<noteq> 115" "x \<noteq> 117" "x \<noteq> 100" "x \<noteq> 120"
        by blast
      then show ?thesis
      proof cases
        case s
        then have d: "d = DStr" "r = xs"
          using dir True Cons by (simp_all add: fmt_directive_def)
        show ?thesis
          using str [OF d(1)] d e1 [OF Cons] s True Cons
          by (intro that [of "e + 1"]) (simp_all add: fmt_step_def fl b Let_def fmt_string_spec [OF lim])
      next
        case n
        let ?w = "dec_value 0 (takeWhile is_dec (snd (skip_zero ?cs)))"
        have d: "d = DNum x (fst (skip_zero ?cs)) ?w" "r = xs"
          using dir True Cons n by (auto simp: fmt_directive_def Let_def)
        have w: "usz_sat ?w = ?w" "?w < 2 ^ 31"
          using num [OF d(1)] by simp_all
        have "fmt_step out limit args src i a (length pre) (mem_put out pre m) =
            fmt_number out limit x (fst (skip_zero ?cs)) ?w (args a) (e + 1) a (length pre) (mem_put out pre m)"
          using n True Cons w by (auto simp: fmt_step_def fl b)
        then show ?thesis
          unfolding fmt_number_spec [OF lim(1) l31 w(2)]
          using d e1 [OF Cons] by (intro that [of "e + 1"]) (simp_all add: Let_def)
      next
        case other
        then show ?thesis
          using dir True Cons
          by (intro literal) (auto simp: fmt_directive_def fmt_step_def fl b simp del: dropWhile_eq_Nil_conv dest: fmt_lit_text)
      qed
    qed
  qed
qed

subsection \<open>The whole format\<close>

lemma sint_of_nat_small: "k < 2 ^ 31 \<Longrightarrow> sint (word_of_nat k :: u32) = int k"
  by (simp add: signed_of_nat signed_take_bit_int_eq_self)

lemma fmt_loop_spec:
  assumes lim: "limit < n" "n \<le> 2 ^ 31"
  shows "\<lbrakk> fmt_fits out n args a (fmt_parse (drop i src)); length pre \<le> limit \<rbrakk> \<Longrightarrow>
    (let txt = pre @ render m args a (fmt_parse (drop i src)) in
      (if length txt \<le> limit
       then fmt_loop out limit args src i a (length pre) (mem_put out pre m) = Some (int (length txt), mem_put out (txt @ [0]) m)
       else \<exists>m'. fmt_loop out limit args src i a (length pre) (mem_put out pre m) = Some (- 1, m') \<and> m' out = 0 \<and>
              (\<forall>x. x < out \<or> out + limit < x \<longrightarrow> m' x = m x)))"
proof (induction "length src - i" arbitrary: i a pre rule: less_induct)
  case less
  show ?case
  proof (cases "i < length src")
    case False
    then show ?thesis
      using less.prems lim by (simp add: fmt_loop.simps sint_of_nat_small mem_put_snoc)
  next
    case True
    obtain d r where dir: "fmt_directive (src ! i) (drop (Suc i) src) = (d, r)"
      by (cases "fmt_directive (src ! i) (drop (Suc i) src)")
    have parse: "fmt_parse (drop i src) = d # fmt_parse r"
      using True dir by (simp flip: Cons_nth_drop_Suc)
    have fits: "fmt_fits out n args (a + takes_arg d) (fmt_parse r)"
      "d = DStr \<Longrightarrow> unat (args a) + 256 \<le> out \<or> out + n \<le> unat (args a)"
      "\<And>s z w. d = DNum s z w \<Longrightarrow> w < 2 ^ 31"
      using fmt_fits_Cons [of out n args a d "fmt_parse r"] less.prems(1) by (simp_all add: parse)
    define piece where "piece = directive_text m (args a) d"
    obtain j where j: "drop j src = r"
      and step: "fmt_step out limit args src i a (length pre) (mem_put out pre m) =
       (if length pre + length piece \<le> limit
        then FNext j (length pre + length piece) (a + takes_arg d) (mem_put out (pre @ piece) m)
        else FReturn (- 1) ((mem_put out pre m)(out := 0)))"
      using fmt_step_spec [OF True less.prems(2) lim dir, of args a out m] fits(2, 3) unfolding Let_def piece_def by blast
    show ?thesis
    proof (cases "length pre + length piece \<le> limit")
      case fit: True
      have "i < j"
        using step fit by (auto intro: fmt_step_advances)
      have loop: "fmt_loop out limit args src i a (length pre) (mem_put out pre m) =
          fmt_loop out limit args src j (a + takes_arg d) (length (pre @ piece)) (mem_put out (pre @ piece) m)"
        using True step fit by (subst fmt_loop.simps) simp
      have tx: "pre @ render m args a (fmt_parse (drop i src)) =
          (pre @ piece) @ render m args (a + takes_arg d) (fmt_parse (drop j src))"
        by (simp add: parse piece_def j)
      have "length src - j < length src - i" "fmt_fits out n args (a + takes_arg d) (fmt_parse (drop j src))"
        "length (pre @ piece) \<le> limit"
        using \<open>i < j\<close> True fits(1) fit by (simp_all add: j)
      from less.hyps [OF this] show ?thesis
        unfolding tx loop .
    next
      case False
      then show ?thesis
        using True step less.prems(2)
        by (subst fmt_loop.simps) (auto simp: parse piece_def Let_def mem_put_outside)
    qed
  qed
qed

lemma wrapping_bytes: "ascii ''a%4294967295u'' = [97, 37, 52, 50, 57, 52, 57, 54, 55, 50, 57, 53, 117]"
  by (simp add: ascii_def)

lemma wrapping_format:
  "length (ascii ''a%4294967295u'') = 13" "ascii ''a%4294967295u'' ! 0 = 97" "ascii ''a%4294967295u'' ! 1 = 37"
  "fmt_flags (ascii ''a%4294967295u'') 1 = (False, 12, 4294967295)"
  "byte_at (ascii ''a%4294967295u'') 12 = Some 117"
  by (simp_all add: wrapping_bytes fmt_flags_def byte_at_def fmt_width.simps usz_sat_def)

lemma wrapping_number:
  obtains ds where "length ds \<le> 10"
    "fmt_number out limit 117 False 4294967295 v next_i a 1 (mem_put out [97] m) =
       FNext next_i 0 (a + 1) (mem_put out ([97] @ replicate (4294967295 - length ds) 32 @ ds) m)"
proof -
  obtain d n where dl: "digits_loop 10 v (replicate 10 0) 0 = Some (d, n)" and n: "n \<le> 10"
    "n = length (radix_digits (unat (10 :: u32)) (unat v))"
    "rev (take n d) = map (\<lambda>k. hex_digit (word_of_nat k)) (radix_digits (unat (10 :: u32)) (unat v))"
    by (rule digits_loop_total [of 10 v]) auto
  define ds where "ds = rev (take n d)"
  have l: "length ds = n"
    unfolding ds_def n(3) using n(2) by simp
  let ?pad = "replicate (4294967295 - n) (32 :: u8)"
  have one: "fmt_put out ?pad (1, mem_put out [97] m) = (length ([97] @ ?pad) mod 2 ^ 32, mem_put out ([97] @ ?pad) m)"
    using fmt_put_wrap [of "[97]" ?pad out m] n(1) by simp
  have two: "fmt_put out ds (length ([97] @ ?pad) mod 2 ^ 32, mem_put out ([97] @ ?pad) m)
      = ((length ([97] @ ?pad) + length ds) mod 2 ^ 32, mem_put out (([97] @ ?pad) @ ds) m)"
    using n(1) l by (intro fmt_put_wrap) simp
  have "fmt_number out limit 117 False 4294967295 v next_i a 1 (mem_put out [97] m) =
      FNext next_i 0 (a + 1) (mem_put out ([97] @ ?pad @ ds) m)"
    unfolding fmt_number_def Let_def
    using n(1) l one two by (simp add: dl usz_add_def ds_def [symmetric] max_def)
  then show ?thesis
    using n(1) l that [of ds] by simp
qed

text \<open>C31: The formatter does exactly what its format means.  The bytes it writes are the rendering of the
  parsed format (text, strings, numbers with their field widths) with a terminator, the result is
  their number, and nothing else changes; a rendering longer than the destination or the given count
  gives -1, an empty string, and no byte changed outside the destination.  This holds for field widths
  below 2 GiB and string arguments that do not overlap the destination.\<close>

theorem snprintf_s_exact:
  assumes "buf \<noteq> 0" "0 < bufsize" "bufsize \<le> 2 ^ 31"
    and "fmt_fits buf bufsize args 0 (fmt_parse (cstr_bytes m fmt))"
  shows "let txt = render m args 0 (fmt_parse (cstr_bytes m fmt)); limit = min (bufsize - 1) cnt in
      (if length txt \<le> limit
       then snprintf_s buf bufsize cnt fmt args m = Some (int (length txt), mem_put buf (txt @ [0]) m)
       else \<exists>m'. snprintf_s buf bufsize cnt fmt args m = Some (- 1, m') \<and> m' buf = 0 \<and>
              (\<forall>x. x < buf \<or> buf + limit < x \<longrightarrow> m' x = m x))"
proof -
  have lim: "min (bufsize - 1) cnt < bufsize"
    using assms(2) by linarith
  have fits: "fmt_fits buf bufsize args 0 (fmt_parse (drop 0 (cstr_bytes m fmt)))"
    "length ([] :: u8 list) \<le> min (bufsize - 1) cnt"
    using assms(4) by simp_all
  have eq: "snprintf_s buf bufsize cnt fmt args m =
      fmt_loop buf (min (bufsize - 1) cnt) args (cstr_bytes m fmt) 0 0 (length ([] :: u8 list)) (mem_put buf [] m)"
    using assms(1, 2) by (simp add: snprintf_s_def vsnprintf_subset_def)
  from fmt_loop_spec [OF lim assms(3) fits, of m] show ?thesis
    unfolding eq append_Nil drop_0 Let_def .
qed

text \<open>The width check of the formatter wraps: a field width of \<open>usize::MAX\<close> after one byte of text
  passes the bounds check of a two-byte destination, the padding overwrites memory far past its
  end, and the call reports the empty string.\<close>

theorem snprintf_s_width_overflow:
  assumes "cstr_bytes m fmt = ascii ''a%4294967295u''" "buf \<noteq> 0" "1 < bufsize" "1 \<le> cnt"
  shows "\<exists>m'. snprintf_s buf bufsize cnt fmt args m = Some (0, m') \<and>
     (\<forall>k. 1 \<le> k \<and> k < 2 ^ 32 - 10 \<longrightarrow> m' (buf + k) = 32)"
proof -
  let ?src = "ascii ''a%4294967295u''"
  define limit where "limit = min (bufsize - 1) cnt"
  have s0: "fmt_step buf limit args ?src 0 0 0 m = FNext 1 1 0 (mem_put buf [97] m)"
    using assms(3, 4) limit_def mem_put_snoc [of buf "[]" m 97]
    by (simp add: fmt_step_def fmt_flags_def wrapping_format fmt_literal_def usz_add_def)
  obtain ds where ds: "length ds \<le> 10" and num: "fmt_number buf limit 117 False 4294967295 (args 0) 13 0 1 (mem_put buf [97] m) =
       FNext 13 0 (0 + 1) (mem_put buf ([97] @ replicate (4294967295 - length ds) 32 @ ds) m)"
    by (rule wrapping_number)
  define m2 where "m2 = mem_put buf ([97] @ replicate (4294967295 - length ds) 32 @ ds) m"
  have s1: "fmt_step buf limit args ?src 1 0 1 (mem_put buf [97] m) = FNext 13 0 1 m2"
    using num unfolding fmt_step_def wrapping_format m2_def by (simp add: wrapping_format(5))
  have l2: "fmt_loop buf limit args ?src 13 1 0 m2 = Some (0, m2(buf := 0))"
    unfolding fmt_loop.simps [of buf limit args ?src 13] wrapping_format by simp
  have l1: "fmt_loop buf limit args ?src 1 0 1 (mem_put buf [97] m) = Some (0, m2(buf := 0))"
    unfolding fmt_loop.simps [of buf limit args ?src 1] s1 fstep.case l2 wrapping_format by simp
  have "fmt_loop buf limit args ?src 0 0 0 m = Some (0, m2(buf := 0))"
    unfolding fmt_loop.simps [of buf limit args ?src 0] s0 fstep.case l1 wrapping_format by simp
  then have "snprintf_s buf bufsize cnt fmt args m = Some (0, m2(buf := 0))"
    using assms(2, 3) by (simp add: snprintf_s_def vsnprintf_subset_def assms(1) limit_def)
  moreover have "(m2(buf := 0)) (buf + k) = 32" if "1 \<le> k" "k < 2 ^ 32 - 10" for k
  proof -
    have "k - Suc 0 < 4294967295 - length ds"
      using that ds by simp
    then show ?thesis
      using that ds by (simp add: m2_def mem_put_def nth_append nth_Cons')
  qed
  ultimately show ?thesis
    by blast
qed

definition printf_mem :: "string \<Rightarrow> mem" where
  "printf_mem s = mem_put 100 (ascii s @ [0]) (\<lambda>_. 0)"

theorem snprintf_s_exact_witness:
  "snprintf_s 200 16 16 100 (\<lambda>k. if k = 0 then 10 else - 5) (printf_mem ''id%02x=%d'')
     = Some (7, mem_put 200 (ascii ''id0a=-5'' @ [0]) (printf_mem ''id%02x=%d''))"
proof -
  let ?m = "printf_mem ''id%02x=%d''"
  have "fmt_parse (cstr_bytes ?m 100) = [DText 105, DText 100, DNum 120 True 2, DText 61, DNum 100 False 0]"
    by code_simp
  moreover have "num_text 120 True 2 10 = ascii ''0a''" "num_text 100 False 0 (- 5) = ascii ''-5''"
    by code_simp+
  ultimately show ?thesis
    using snprintf_s_exact [of 200 16 "\<lambda>k. if k = 0 then 10 else - 5" ?m 100 16] by (simp add: ascii_def)
qed

lemma fmt_step_no_panic: "fmt_step out limit args src i a opos m \<noteq> FPanic"
proof -
  have "fmt_number out limit s z w v next_i a opos m \<noteq> FPanic" for s z w v next_i
  proof -
    have r: "1 < unat (if s = 120 then 16 else 10 :: u32)" "9 < unat (if s = 120 then 16 else 10 :: u32)"
      by simp_all
    obtain ds n where "digits_loop (if s = 120 then 16 else 10) (if s = 100 \<and> sint v < 0 then - v else v) (replicate 10 0) 0 = Some (ds, n)"
      by (rule digits_loop_total [OF r, of "if s = 100 \<and> sint v < 0 then - v else v"])
    then show ?thesis
      by (simp add: fmt_number_def Let_def split: prod.split)
  qed
  then show ?thesis
    by (auto simp: fmt_step_def fmt_string_def fmt_literal_def Let_def split: prod.split option.split)
qed

lemma fmt_loop_total: "\<exists>r m'. fmt_loop out limit args src i a opos m = Some (r, m')"
proof (induction "length src - i" arbitrary: i a opos m rule: less_induct)
  case less
  show ?case
  proof (cases "i < length src")
    case False
    then show ?thesis
      by (subst fmt_loop.simps) simp
  next
    case True
    then show ?thesis
      using less.hyps fmt_step_no_panic [of out limit args src i a opos m]
      by (subst fmt_loop.simps) (auto split: fstep.split dest!: fmt_step_advances)
  qed
qed

lemma vsnprintf_total: "\<exists>r m'. vsnprintf_subset buf n cnt fmt args m = Some (r, m')"
  by (cases "buf = 0 \<or> n = 0") (simp_all add: vsnprintf_subset_def fmt_loop_total)

lemma cstr_bytes_nonzero: "b \<in> set (cstr_bytes m p) \<Longrightarrow> b \<noteq> 0"
proof -
  have "\<forall>k. n \<le> k \<and> k < cstr_scan m p n \<longrightarrow> m (p + k) \<noteq> 0" for n
  proof (induction "256 - n" arbitrary: n)
    case 0
    then show ?case
      by (auto simp: cstr_scan.simps)
  next
    case (Suc j)
    then have ih: "\<forall>k. Suc n \<le> k \<and> k < cstr_scan m p (Suc n) \<longrightarrow> m (p + k) \<noteq> 0"
      by (intro Suc.hyps(1)) simp
    show ?case
    proof (cases "n < 256 \<and> m (p + n) \<noteq> 0")
      case True
      then have "cstr_scan m p n = cstr_scan m p (Suc n)"
        by (subst cstr_scan.simps) simp
      then show ?thesis
        using ih True by (metis Suc_leI le_neq_implies_less)
    next
      case False
      then have "cstr_scan m p n = n"
        by (subst cstr_scan.simps) auto
      then show ?thesis
        by auto
    qed
  qed
  from this [of 0] show "b \<in> set (cstr_bytes m p) \<Longrightarrow> b \<noteq> 0"
    by (auto simp: cstr_bytes_def mem_get_def split: if_splits)
qed

text \<open>Logging always returns: for every format, argument area and memory, the formatter ends without
  indexing past its ten digits, and what reaches the log sink is the chunks already there and at most
  two more, each of at most 256 bytes and free of terminators.\<close>

theorem osal_printk_returns:
  "\<exists>r m' cs. osal_printk stack fmt args (m, l) = Some (r, m', if lg_sink l then l\<lparr> lg_out := lg_out l @ cs \<rparr> else l) \<and>
     length cs \<le> 2 \<and> list_all (\<lambda>c. length c \<le> 256 \<and> 0 \<notin> set c) cs"
proof -
  obtain r m' where v: "vsnprintf_subset stack 512 511 fmt args (mem_put stack (replicate 512 0) m) = Some (r, m')"
    using vsnprintf_total by blast
  have prefix: "length (ascii ''[osal_printk truncated] '') \<le> 256" "0 \<notin> set (ascii ''[osal_printk truncated] '')"
    by (simp_all add: ascii_def)
  show ?thesis
  proof (cases "0 \<le> r")
    case True
    then show ?thesis
      using v cstr_bytes_length [of m' stack] cstr_bytes_nonzero [of 0 m' stack]
      by (intro exI [of _ r] exI [of _ m'] exI [of _ "[cstr_bytes m' stack]"]) (auto simp: osal_printk_def log_emit_def)
  next
    case False
    then show ?thesis
      using v prefix cstr_bytes_length [of m' fmt] cstr_bytes_nonzero [of 0 m' fmt]
      by (intro exI [of _ r] exI [of _ m'] exI [of _ "[ascii ''[osal_printk truncated] '', cstr_bytes m' fmt]"])
        (auto simp: osal_printk_def log_emit_def)
  qed
qed

end
