(* ===== verification/Smoltcp.thy ===== *)
theory Smoltcp
  imports OsalQueue
begin

text \<open>
  The bridge to the smoltcp stack (\<open>src/src/netif_smoltcp.rs\<close>): the ring of received frames, the
  protocol counters, the transmit capture and the claims on the two scratch buffers behind the device
  tokens.

  Every operation on the bridge runs in one critical section and is one function.  The transmit sink is
  a function address; what it does is the argument \<open>call\<close>.  What other contexts do between two critical
  sections of one operation is an argument named \<open>other\<close>.
\<close>

unbundle bit_operations_syntax

definition MTU :: nat where "MTU = 1536"
definition RX_DEPTH :: nat where "RX_DEPTH = 4"
definition FRAME_PREFIX :: nat where "FRAME_PREFIX = 64"

definition be16 :: "u8 \<Rightarrow> u8 \<Rightarrow> u16" where
  "be16 a b = push_bit 8 (ucast a) OR ucast b"

definition to_be16 :: "u16 \<Rightarrow> u8 list" where
  "to_be16 x = [ucast (drop_bit 8 x), ucast x]"

definition DIAGNOSTIC_ECHO_IDENTIFIER :: "u8 list" where
  "DIAGNOSTIC_ECHO_IDENTIFIER = to_be16 0x5753"

datatype l2_frame_class = ArpRequest | ArpReply | Ipv4 | OtherFrame

record l2_diag =
  l2_rx_arp_requests :: u32
  l2_rx_arp_replies :: u32
  l2_rx_ipv4 :: u32
  l2_rx_other :: u32
  l2_tx_arp_requests :: u32
  l2_tx_arp_replies :: u32
  l2_tx_ipv4 :: u32
  l2_tx_other :: u32

definition l2_new :: l2_diag where
  "l2_new = \<lparr> l2_rx_arp_requests = 0, l2_rx_arp_replies = 0, l2_rx_ipv4 = 0, l2_rx_other = 0,
     l2_tx_arp_requests = 0, l2_tx_arp_replies = 0, l2_tx_ipv4 = 0, l2_tx_other = 0 \<rparr>"

definition record_rx :: "l2_frame_class \<Rightarrow> l2_diag \<Rightarrow> l2_diag" where
  "record_rx c d = (case c of
      ArpRequest \<Rightarrow> d\<lparr> l2_rx_arp_requests := sat_inc (l2_rx_arp_requests d) \<rparr>
    | ArpReply \<Rightarrow> d\<lparr> l2_rx_arp_replies := sat_inc (l2_rx_arp_replies d) \<rparr>
    | Ipv4 \<Rightarrow> d\<lparr> l2_rx_ipv4 := sat_inc (l2_rx_ipv4 d) \<rparr>
    | OtherFrame \<Rightarrow> d\<lparr> l2_rx_other := sat_inc (l2_rx_other d) \<rparr>)"

definition record_tx :: "l2_frame_class \<Rightarrow> l2_diag \<Rightarrow> l2_diag" where
  "record_tx c d = (case c of
      ArpRequest \<Rightarrow> d\<lparr> l2_tx_arp_requests := sat_inc (l2_tx_arp_requests d) \<rparr>
    | ArpReply \<Rightarrow> d\<lparr> l2_tx_arp_replies := sat_inc (l2_tx_arp_replies d) \<rparr>
    | Ipv4 \<Rightarrow> d\<lparr> l2_tx_ipv4 := sat_inc (l2_tx_ipv4 d) \<rparr>
    | OtherFrame \<Rightarrow> d\<lparr> l2_tx_other := sat_inc (l2_tx_other d) \<rparr>)"

definition classify_l2_frame :: "u8 list \<Rightarrow> l2_frame_class" where
  "classify_l2_frame frame =
     (if length frame < 14 then OtherFrame
      else if take 2 (drop 12 frame) = [0x08, 0x00] then Ipv4
      else if take 2 (drop 12 frame) = [0x08, 0x06] \<and> 22 \<le> length frame
      then let operation = be16 (frame ! 20) (frame ! 21)
           in if operation = 1 then ArpRequest else if operation = 2 then ArpReply else OtherFrame
      else OtherFrame)"

definition ipv4_header_len :: "u8 list \<Rightarrow> nat" where
  "ipv4_header_len frame = unat (frame ! 14 AND 0x0f) * 4"

definition has_udp_ports :: "u8 list \<Rightarrow> u16 \<Rightarrow> u16 \<Rightarrow> bool" where
  "has_udp_ports frame source_port destination_port =
     (if length frame < 14 + 20 + 8 \<or> take 2 (drop 12 frame) \<noteq> [0x08, 0x00]
         \<or> drop_bit 4 (frame ! 14) \<noteq> 4 \<or> frame ! 23 \<noteq> 17
      then False
      else let udp = 14 + ipv4_header_len frame
           in udp + 8 \<le> length frame
              \<and> take 2 (drop udp frame) = to_be16 source_port
              \<and> take 2 (drop (udp + 2) frame) = to_be16 destination_port)"

definition diagnostic_echo_reply_sequence :: "u8 list \<Rightarrow> u16 option" where
  "diagnostic_echo_reply_sequence frame =
     (if length frame < 14 + 20 + 8 \<or> take 2 (drop 12 frame) \<noteq> [0x08, 0x00]
         \<or> drop_bit 4 (frame ! 14) \<noteq> 4 \<or> frame ! 23 \<noteq> 1
      then None
      else if ipv4_header_len frame < 20 then None
      else let icmp = 14 + ipv4_header_len frame
           in if length frame < icmp + 8 \<or> frame ! icmp \<noteq> 0
                 \<or> take 2 (drop (icmp + 4) frame) \<noteq> DIAGNOSTIC_ECHO_IDENTIFIER
              then None
              else Some (be16 (frame ! (icmp + 6)) (frame ! (icmp + 7))))"

record bridge =
  br_rx :: "u8 list list"
  br_rx_len :: "nat list"
  br_rx_head :: nat
  br_rx_count :: nat
  br_rx_dropped :: u32
  br_rx_high :: nat
  br_echo_replies :: u32
  br_echo_mask :: u32
  br_dhcp_server :: u32
  br_l2 :: l2_diag
  br_last_prefix :: "u8 list"
  br_last_len :: nat
  br_tx_buf :: "u8 list"
  br_tx_len :: nat
  br_tx_count :: u32
  br_dhcp_client :: u32
  br_tx_sink :: "addr option"

definition br_new :: bridge where
  "br_new = \<lparr> br_rx = replicate RX_DEPTH (replicate MTU 0), br_rx_len = replicate RX_DEPTH 0,
     br_rx_head = 0, br_rx_count = 0, br_rx_dropped = 0, br_rx_high = 0, br_echo_replies = 0,
     br_echo_mask = 0, br_dhcp_server = 0, br_l2 = l2_new, br_last_prefix = replicate FRAME_PREFIX 0,
     br_last_len = 0, br_tx_buf = replicate MTU 0, br_tx_len = 0, br_tx_count = 0, br_dhcp_client = 0,
     br_tx_sink = None \<rparr>"

definition rx_count_echo :: "u8 list \<Rightarrow> bridge \<Rightarrow> bridge" where
  "rx_count_echo frame b =
     (case diagnostic_echo_reply_sequence frame of
        None \<Rightarrow> b
      | Some sequence \<Rightarrow>
          b\<lparr> br_echo_replies := sat_inc (br_echo_replies b),
             br_echo_mask := (if unat sequence < 32 then br_echo_mask b OR push_bit (unat sequence) 1
                              else br_echo_mask b) \<rparr>)"

definition rx_observe :: "u8 list \<Rightarrow> bridge \<Rightarrow> bridge" where
  "rx_observe frame b =
     (let b1 = b\<lparr> br_l2 := record_rx (classify_l2_frame frame) (br_l2 b),
                  br_last_prefix := overwrite 0 (take FRAME_PREFIX frame) (br_last_prefix b),
                  br_last_len := length frame \<rparr>;
          b2 = rx_count_echo frame b1
      in if has_udp_ports frame 67 68 then b2\<lparr> br_dhcp_server := sat_inc (br_dhcp_server b2) \<rparr> else b2)"

text \<open>The answer is whether the frame was queued; the wait bridge is signalled exactly then.\<close>

definition rx_push :: "u8 list \<Rightarrow> bridge \<Rightarrow> bool \<times> bridge" where
  "rx_push frame b0 =
     (if MTU < length frame then (False, b0)
      else let b = rx_observe frame b0
           in if RX_DEPTH \<le> br_rx_count b
              then (False, b\<lparr> br_rx_dropped := sat_inc (br_rx_dropped b) \<rparr>)
              else let slot = (br_rx_head b + br_rx_count b) mod RX_DEPTH
                   in (True, b\<lparr> br_rx := (br_rx b)[slot := overwrite 0 frame (br_rx b ! slot)],
                        br_rx_len := (br_rx_len b)[slot := length frame],
                        br_rx_count := br_rx_count b + 1,
                        br_rx_high := max (br_rx_high b) (br_rx_count b + 1) \<rparr>))"

definition rx_ready :: "bridge \<Rightarrow> bool" where
  "rx_ready b = (br_rx_count b \<noteq> 0)"

text \<open>\<open>room\<close> is the length of the caller's buffer; the answer is the bytes copied to its front.\<close>

definition rx_pop :: "nat \<Rightarrow> bridge \<Rightarrow> u8 list option \<times> bridge" where
  "rx_pop room b =
     (if br_rx_count b = 0 then (None, b)
      else let slot = br_rx_head b
           in (Some (take (min (br_rx_len b ! slot) room) (br_rx b ! slot)),
               b\<lparr> br_rx_head := (br_rx_head b + 1) mod RX_DEPTH, br_rx_count := br_rx_count b - 1 \<rparr>))"

definition take_received :: "nat \<Rightarrow> bridge \<Rightarrow> u8 list option \<times> bridge" where
  "take_received room b = rx_pop room b"

definition reset_l2_protocol_diagnostics :: "bridge \<Rightarrow> bridge" where
  "reset_l2_protocol_diagnostics b = b\<lparr> br_l2 := l2_new \<rparr>"

record rx_queue_diag =
  rq_depth :: nat
  rq_pending :: nat
  rq_high_watermark :: nat
  rq_dropped :: u32
  rq_icmp_echo_replies :: u32
  rq_icmp_sequence_mask :: u32

definition rx_queue_diagnostics :: "bridge \<Rightarrow> rx_queue_diag" where
  "rx_queue_diagnostics b = \<lparr> rq_depth = RX_DEPTH, rq_pending = br_rx_count b,
     rq_high_watermark = br_rx_high b, rq_dropped = br_rx_dropped b,
     rq_icmp_echo_replies = br_echo_replies b, rq_icmp_sequence_mask = br_echo_mask b \<rparr>"

definition reset_rx_queue_diagnostics :: "bridge \<Rightarrow> bridge" where
  "reset_rx_queue_diagnostics b =
     b\<lparr> br_rx_dropped := 0, br_rx_high := br_rx_count b, br_echo_replies := 0, br_echo_mask := 0 \<rparr>"

definition dhcp_diagnostics :: "bridge \<Rightarrow> u32 \<times> u32" where
  "dhcp_diagnostics b = (br_dhcp_client b, br_dhcp_server b)"

definition last_rx :: "nat \<Rightarrow> bridge \<Rightarrow> nat \<times> u8 list" where
  "last_rx room b = (br_last_len b, take (min (min (br_last_len b) FRAME_PREFIX) room) (br_last_prefix b))"

text \<open>The call to make outside the critical section, and the bridge.\<close>

definition tx_emit :: "u8 list \<Rightarrow> bridge \<Rightarrow> addr option \<times> bridge" where
  "tx_emit frame b =
     (let n = min (length frame) MTU
      in (br_tx_sink b,
          b\<lparr> br_l2 := record_tx (classify_l2_frame frame) (br_l2 b),
             br_tx_buf := overwrite 0 (take n frame) (br_tx_buf b), br_tx_len := n,
             br_tx_count := br_tx_count b + 1,
             br_dhcp_client := (if has_udp_ports frame 68 67 then sat_inc (br_dhcp_client b) else br_dhcp_client b) \<rparr>))"

definition set_tx_sink :: "addr \<Rightarrow> bridge \<Rightarrow> bridge" where
  "set_tx_sink s b = b\<lparr> br_tx_sink := Some s \<rparr>"

definition last_tx :: "nat \<Rightarrow> bridge \<Rightarrow> nat \<times> u8 list" where
  "last_tx room b = (br_tx_len b, take (min (br_tx_len b) room) (br_tx_buf b))"

subsection \<open>Device tokens\<close>

record ndev =
  nd_bridge :: bridge
  nd_rx_scratch :: "u8 list"
  nd_tx_scratch :: "u8 list"
  nd_rx_claimed :: bool
  nd_tx_claimed :: bool

definition claim_rx :: "ndev \<Rightarrow> bool \<times> ndev" where
  "claim_rx d = (if nd_rx_claimed d then (False, d) else (True, d\<lparr> nd_rx_claimed := True \<rparr>))"

definition claim_tx :: "ndev \<Rightarrow> bool \<times> ndev" where
  "claim_tx d = (if nd_tx_claimed d then (False, d) else (True, d\<lparr> nd_tx_claimed := True \<rparr>))"

text \<open>\<open>Some len\<close> stands for the pair of tokens.\<close>

definition nd_receive :: "(nat \<Rightarrow> ndev \<Rightarrow> ndev) \<Rightarrow> ndev \<Rightarrow> nat option \<times> ndev" where
  "nd_receive other d0 =
     (case claim_rx d0 of
        (False, d) \<Rightarrow> (None, d)
      | (True, d1) \<Rightarrow>
         (case claim_tx (other 0 d1) of
            (False, d2) \<Rightarrow> (None, (other 1 d2)\<lparr> nd_rx_claimed := False \<rparr>)
          | (True, d2) \<Rightarrow>
             let d3 = other 1 d2
             in case rx_pop (length (nd_rx_scratch d3)) (nd_bridge d3) of
                  (Some bytes, b) \<Rightarrow>
                    (Some (length bytes), d3\<lparr> nd_bridge := b, nd_rx_scratch := overwrite 0 bytes (nd_rx_scratch d3) \<rparr>)
                | (None, b) \<Rightarrow>
                    (None, (other 2 (d3\<lparr> nd_bridge := b \<rparr>))\<lparr> nd_rx_claimed := False, nd_tx_claimed := False \<rparr>)))"

definition nd_transmit :: "ndev \<Rightarrow> bool \<times> ndev" where
  "nd_transmit d = claim_tx d"

definition rx_frame_drop :: "ndev \<Rightarrow> ndev" where
  "rx_frame_drop d = d\<lparr> nd_rx_claimed := False \<rparr>"

definition tx_buf_drop :: "ndev \<Rightarrow> ndev" where
  "tx_buf_drop d = d\<lparr> nd_tx_claimed := False \<rparr>"

text \<open>A consuming call releases the claim itself and again when its token is dropped.\<close>

definition rx_frame_consume ::
  "(u8 list \<Rightarrow> ndev \<Rightarrow> 'r \<times> ndev) \<Rightarrow> (ndev \<Rightarrow> ndev) \<Rightarrow> nat \<Rightarrow> ndev \<Rightarrow> 'r \<times> ndev" where
  "rx_frame_consume f other len d =
     (case f (take len (nd_rx_scratch d)) d of
        (r, d1) \<Rightarrow> (r, rx_frame_drop (other (d1\<lparr> nd_rx_claimed := False \<rparr>))))"

definition tx_buf_consume ::
  "(addr \<Rightarrow> u8 list \<Rightarrow> ndev \<Rightarrow> ndev) \<Rightarrow> (u8 list \<Rightarrow> 'r \<times> u8 list) \<Rightarrow> (ndev \<Rightarrow> ndev) \<Rightarrow> nat \<Rightarrow> ndev \<Rightarrow> 'r \<times> ndev" where
  "tx_buf_consume call f other len d =
     (let n = min len MTU
      in case f (take n (nd_tx_scratch d)) of
           (r, bytes) \<Rightarrow>
             (case tx_emit bytes (nd_bridge d) of
                (sink, b) \<Rightarrow>
                  let d1 = d\<lparr> nd_bridge := b, nd_tx_scratch := overwrite 0 bytes (nd_tx_scratch d) \<rparr>;
                      d2 = (case sink of None \<Rightarrow> d1 | Some s \<Rightarrow> call s bytes d1)
                  in (r, tx_buf_drop (other (d2\<lparr> nd_tx_claimed := False \<rparr>)))))"

subsection \<open>The ring\<close>

definition br_slot :: "bridge \<Rightarrow> nat \<Rightarrow> u8 list" where
  "br_slot b k = (let s = (br_rx_head b + k) mod RX_DEPTH in take (br_rx_len b ! s) (br_rx b ! s))"

definition br_frames :: "bridge \<Rightarrow> u8 list list" where
  "br_frames b = map (br_slot b) [0 ..< br_rx_count b]"

definition br_ok :: "bridge \<Rightarrow> bool" where
  "br_ok b \<longleftrightarrow> length (br_rx b) = RX_DEPTH \<and> (\<forall>r \<in> set (br_rx b). length r = MTU) \<and>
     length (br_rx_len b) = RX_DEPTH \<and> br_rx_head b < RX_DEPTH \<and> br_rx_count b \<le> RX_DEPTH"

lemma rx_observe_ring [simp]:
  "br_rx (rx_observe f b) = br_rx b" "br_rx_len (rx_observe f b) = br_rx_len b"
  "br_rx_head (rx_observe f b) = br_rx_head b" "br_rx_count (rx_observe f b) = br_rx_count b"
  by (simp_all add: rx_observe_def rx_count_echo_def Let_def split: option.split)

lemma br_frames_cong:
  "\<lbrakk> br_rx b' = br_rx b; br_rx_len b' = br_rx_len b; br_rx_head b' = br_rx_head b; br_rx_count b' = br_rx_count b \<rbrakk>
    \<Longrightarrow> br_frames b' = br_frames b \<and> (br_ok b' \<longleftrightarrow> br_ok b)"
  by (simp add: br_frames_def br_ok_def br_slot_def cong: map_cong)

lemma length_br_frames [simp]: "length (br_frames b) = br_rx_count b"
  by (simp add: br_frames_def)

lemma rx_push_accepts:
  "fst (rx_push f b) \<longleftrightarrow> length f \<le> MTU \<and> length (br_frames b) < RX_DEPTH"
  by (auto simp: rx_push_def Let_def)

lemma rx_push_rejected:
  "\<not> fst (rx_push f b) \<Longrightarrow> br_frames (snd (rx_push f b)) = br_frames b \<and> (br_ok (snd (rx_push f b)) \<longleftrightarrow> br_ok b)"
  by (rule br_frames_cong) (auto simp: rx_push_def Let_def split: if_splits)

lemma rx_push_accepted:
  assumes ok: "br_ok b" and acc: "fst (rx_push f b)"
  shows "br_frames (snd (rx_push f b)) = br_frames b @ [f] \<and> br_ok (snd (rx_push f b))"
proof -
  let ?c = "br_rx_count b" and ?s = "(br_rx_head b + br_rx_count b) mod RX_DEPTH" and ?b = "snd (rx_push f b)"
  have c: "?c < RX_DEPTH" and len: "length f \<le> MTU"
    using acc by (simp_all add: rx_push_accepts)
  have f: "br_rx ?b = (br_rx b)[?s := overwrite 0 f (br_rx b ! ?s)]" "br_rx_len ?b = (br_rx_len b)[?s := length f]"
    "br_rx_head ?b = br_rx_head b" "br_rx_count ?b = Suc ?c"
    using c len by (simp_all add: rx_push_def Let_def)
  have s: "?s < RX_DEPTH"
    using c by (intro mod_less_divisor) simp
  have row: "length (br_rx b ! ?s) = MTU"
    using ok s by (simp add: br_ok_def)
  have other: "br_slot ?b k = br_slot b k" if "k < ?c" for k
  proof -
    have "(br_rx_head b + k) mod RX_DEPTH \<noteq> ?s"
      using that c add_mod_inj [of k RX_DEPTH ?c "br_rx_head b"] by auto
    then show ?thesis
      by (simp add: br_slot_def f Let_def)
  qed
  have new: "br_slot ?b ?c = f"
    using ok s by (simp add: br_slot_def f Let_def br_ok_def overwrite_def)
  have "br_frames ?b = br_frames b @ [f]"
    using other new by (simp add: br_frames_def f)
  moreover have "br_ok ?b"
    using ok s c row len by (auto simp: br_ok_def f length_overwrite dest!: set_update_subset_insert [THEN subsetD])
  ultimately show ?thesis
    by blast
qed

lemma rx_pop_empty: "br_frames b = [] \<Longrightarrow> rx_pop room b = (None, b)"
  by (simp add: rx_pop_def br_frames_def)

lemma rx_pop_frame:
  assumes "br_ok b" "br_frames b = f # fs"
  shows "fst (rx_pop room b) = Some (take room f) \<and> br_frames (snd (rx_pop room b)) = fs \<and> br_ok (snd (rx_pop room b))"
proof -
  let ?b = "snd (rx_pop room b)"
  obtain n where n: "br_rx_count b = Suc n"
    using assms(2) by (cases "br_rx_count b") (auto simp: br_frames_def)
  have h: "br_rx_head b < RX_DEPTH"
    using assms(1) by (simp add: br_ok_def)
  have b: "br_rx ?b = br_rx b" "br_rx_len ?b = br_rx_len b" "br_rx_head ?b = (br_rx_head b + 1) mod RX_DEPTH" "br_rx_count ?b = n"
    by (simp_all add: rx_pop_def n Let_def)
  have slot: "br_slot ?b = (\<lambda>k. br_slot b (Suc k))"
    by (rule ext) (simp add: br_slot_def b mod_add_left_eq)
  have split: "br_slot b 0 # map (\<lambda>k. br_slot b (Suc k)) [0 ..< n] = f # fs"
    using assms(2) by (simp add: br_frames_def n map_upt_Suc del: upt_Suc)
  then have "f = br_slot b 0" "br_frames ?b = fs"
    by (simp_all add: br_frames_def b slot)
  moreover have "fst (rx_pop room b) = Some (take room (br_slot b 0))"
    using h by (simp add: rx_pop_def n Let_def br_slot_def min.commute)
  moreover have "br_ok ?b"
    using assms(1) n by (simp add: br_ok_def b RX_DEPTH_def)
  ultimately show ?thesis
    by simp
qed

text \<open>The receive path of the device is a bounded queue.\<close>

definition br_accept :: "u8 list \<Rightarrow> bridge \<Rightarrow> bridge option" where
  "br_accept f b = (if fst (rx_push f b) then Some (snd (rx_push f b)) else None)"

definition br_take :: "bridge \<Rightarrow> (u8 list \<times> bridge) option" where
  "br_take b = (case rx_pop MTU b of (None, _) \<Rightarrow> None | (Some bytes, b') \<Rightarrow> Some (bytes, b'))"

lemma br_slot_le: "br_ok b \<Longrightarrow> f \<in> set (br_frames b) \<Longrightarrow> length f \<le> MTU"
  by (auto simp: br_frames_def br_slot_def Let_def br_ok_def RX_DEPTH_def)

lemma br_take_Some:
  assumes "br_ok b" "br_take b = Some (f, b')"
  shows "br_ok b' \<and> br_frames b = f # br_frames b'"
proof (cases "br_frames b")
  case Nil
  then show ?thesis
    using assms(2) by (simp add: br_take_def rx_pop_empty)
next
  case (Cons g gs)
  then have "length g \<le> MTU"
    using br_slot_le [OF assms(1), of g] by simp
  then show ?thesis
    using rx_pop_frame [OF assms(1) Cons, of MTU] assms(2) Cons
    by (auto simp: br_take_def split: prod.splits option.splits)
qed

interpretation bridge_fifo: fifo br_accept br_take br_frames br_ok
proof
  show "br_ok q' \<and> br_frames q' = br_frames q @ [x]" if "br_ok q" "br_accept x q = Some q'" for q x q'
    using rx_push_accepted [OF that(1), of x] that(2) by (auto simp: br_accept_def split: if_splits)
  show "br_ok q' \<and> br_frames q = x # br_frames q'" if "br_ok q" "br_take q = Some (x, q')" for q x q'
    using br_take_Some [OF that] by simp
qed

datatype bop = BPush "u8 list" | BPop nat | BTx "u8 list" | BSink addr | BReset | BResetL2

text \<open>A run yields the frames queued, the sizes and bytes of the reads that got one, and the bridge.\<close>

fun br_run :: "bop list \<Rightarrow> bridge \<Rightarrow> u8 list list \<times> (nat \<times> u8 list) list \<times> bridge" where
  "br_run [] b = ([], [], b)"
| "br_run (BPush f # ops) b =
     (case br_run ops (snd (rx_push f b)) of
        (acc, got, b') \<Rightarrow> (if fst (rx_push f b) then f # acc else acc, got, b'))"
| "br_run (BPop n # ops) b =
     (case br_run ops (snd (rx_pop n b)) of
        (acc, got, b') \<Rightarrow> (acc, (case fst (rx_pop n b) of None \<Rightarrow> got | Some bytes \<Rightarrow> (n, bytes) # got), b'))"
| "br_run (BTx f # ops) b = br_run ops (snd (tx_emit f b))"
| "br_run (BSink s # ops) b = br_run ops (set_tx_sink s b)"
| "br_run (BReset # ops) b = br_run ops (reset_rx_queue_diagnostics b)"
| "br_run (BResetL2 # ops) b = br_run ops (reset_l2_protocol_diagnostics b)"

lemma br_keeps_ring:
  "br_frames (snd (tx_emit f b)) = br_frames b \<and> (br_ok (snd (tx_emit f b)) \<longleftrightarrow> br_ok b)"
  "br_frames (set_tx_sink s b) = br_frames b \<and> (br_ok (set_tx_sink s b) \<longleftrightarrow> br_ok b)"
  "br_frames (reset_rx_queue_diagnostics b) = br_frames b \<and> (br_ok (reset_rx_queue_diagnostics b) \<longleftrightarrow> br_ok b)"
  "br_frames (reset_l2_protocol_diagnostics b) = br_frames b \<and> (br_ok (reset_l2_protocol_diagnostics b) \<longleftrightarrow> br_ok b)"
  by (rule br_frames_cong; simp add: tx_emit_def set_tx_sink_def reset_rx_queue_diagnostics_def
      reset_l2_protocol_diagnostics_def Let_def)+

lemma br_run_spec:
  "\<lbrakk> br_ok b; br_run ops b = (acc, got, b') \<rbrakk> \<Longrightarrow>
     br_ok b' \<and> length got \<le> length (br_frames b @ acc) \<and> br_frames b' = drop (length got) (br_frames b @ acc) \<and>
     map snd got = map2 take (map fst got) (br_frames b @ acc)"
proof (induction ops b arbitrary: acc got b' rule: br_run.induct)
  case (2 f ops b)
  obtain acc1 got1 b1 where r: "br_run ops (snd (rx_push f b)) = (acc1, got1, b1)"
    by (cases "br_run ops (snd (rx_push f b))")
  show ?case
  proof (cases "fst (rx_push f b)")
    case True
    then show ?thesis
      using "2.IH" [OF _ r] rx_push_accepted [OF "2.prems"(1) True] "2.prems"(2) r by auto
  next
    case False
    then show ?thesis
      using "2.IH" [OF _ r] rx_push_rejected [OF False] "2.prems" r by simp
  qed
next
  case (3 n ops b)
  obtain acc1 got1 b1 where r: "br_run ops (snd (rx_pop n b)) = (acc1, got1, b1)"
    by (cases "br_run ops (snd (rx_pop n b))")
  show ?case
  proof (cases "br_frames b")
    case Nil
    then show ?thesis
      using "3.IH" [OF _ r] "3.prems" r rx_pop_empty [OF Nil, of n] by simp
  next
    case (Cons g gs)
    then show ?thesis
      using "3.IH" [OF _ r] "3.prems" r rx_pop_frame [OF "3.prems"(1) Cons, of n] by auto
  qed
qed (simp_all add: br_keeps_ring)

lemma br_ok_new: "br_ok br_new" "br_frames br_new = []"
  by (simp_all add: br_ok_def br_new_def br_frames_def RX_DEPTH_def)

text \<open>C32: Received frames reach the stack in order, complete and once: over any sequence of arrivals, reads
  with any buffer size, transmissions and counter resets, the reads get the queued frames in order,
  each cut to the reader's buffer, what was not read is still queued, and a frame is refused only
  when it is oversized or four frames wait.\<close>

theorem smoltcp_rx_fifo:
  "case br_run ops br_new of (acc, got, b) \<Rightarrow>
     map snd got = map2 take (map fst got) acc \<and> length got \<le> length acc \<and>
     br_frames b = drop (length got) acc \<and>
     (\<forall>f. fst (rx_push f b) \<longleftrightarrow> length f \<le> MTU \<and> length acc - length got < RX_DEPTH)"
proof -
  obtain acc got b where r: "br_run ops br_new = (acc, got, b)"
    by (cases "br_run ops br_new")
  have "br_frames b = drop (length got) acc"
    using br_run_spec [OF br_ok_new(1) r] by (simp add: br_ok_new)
  then have "br_rx_count b = length acc - length got"
    by (metis length_drop length_br_frames)
  then show ?thesis
    using br_run_spec [OF br_ok_new(1) r] r by (simp add: br_ok_new rx_push_accepts)
qed

text \<open>The stack, which reads with the full scratch buffer, sees a prefix of what was queued.\<close>

lemma bridge_delivers_prefix:
  "qrun br_accept br_take ops br_new = (ac, de, b) \<Longrightarrow> ac = de @ br_frames b"
  by (rule bridge_fifo.run_prefix) (simp_all add: br_ok_new)

text \<open>Between the two releases of one token another context can claim the buffer, and loses its claim.\<close>

lemma rx_token_releases_twice:
  assumes "f (take len (nd_rx_scratch d)) d = (r, d1)"
  shows "fst (claim_rx (d1\<lparr> nd_rx_claimed := False \<rparr>))"
    and "rx_frame_consume f (\<lambda>d. snd (claim_rx d)) len d = (r, d1\<lparr> nd_rx_claimed := False \<rparr>)"
  using assms by (simp_all add: claim_rx_def rx_frame_consume_def rx_frame_drop_def)

end
