(* ===== verification/Netif.thy ===== *)
theory Netif
  imports Memory Route Smoltcp
begin

text \<open>
  The lwIP boundary (\<open>src/src/netif.rs\<close>): packet buffers with their headroom and reference count, the
  transmit call, and the receive entry, which routes a frame to the standard path (theory \<open>Route\<close>)
  or to the smoltcp bridge (theory \<open>Smoltcp\<close>).

  Live packet buffers are a finite map from the pbuf address; payload bytes are in the byte memory.
  An access to a pbuf that is not live has no defined outcome and is \<open>None\<close>.  The heap is the argument
  \<open>kmalloc\<close>: the address it answers for a request, 0 when it has no memory.
\<close>

definition NETIF_DRV_SEND_OFFSET :: nat where "NETIF_DRV_SEND_OFFSET = 244"
definition NETIF_HWADDR_OFFSET :: nat where "NETIF_HWADDR_OFFSET = 268"
definition NETIF_HWADDR_LEN_OFFSET :: nat where "NETIF_HWADDR_LEN_OFFSET = 274"
definition PBUF_TYPE_RAM :: u8 where "PBUF_TYPE_RAM = 0x80"
definition PBUF_ZERO_COPY_TAILROOM :: nat where "PBUF_ZERO_COPY_TAILROOM = 4"
definition PBUF_ZERO_COPY_RESERVE :: nat where "PBUF_ZERO_COPY_RESERVE = 80"
definition PBUF_HDR :: nat where "PBUF_HDR = 32"
definition PBUF_PREFIX :: nat where "PBUF_PREFIX = 16"
definition ETH_PAD_SIZE :: nat where "ETH_PAD_SIZE = 2"

text \<open>The padding fields of the C structure carry no information and are left out.\<close>

record pbuf =
  pb_next :: addr
  pb_payload :: addr
  pb_tot_len :: u16
  pb_len :: u16
  pb_list :: addr
  pb_malloc_len :: u16
  pb_type :: u8
  pb_flags :: u16
  pb_ref :: i32
  pb_if_idx :: u8
  pb_priority :: u8
  pb_epoch :: allocation_epoch

record netif =
  nf_pbufs :: "addr \<Rightarrow> pbuf option"
  nf_mem :: mem
  nf_freed :: "addr list"
  nf_registered :: addr
  nf_rx_dropped :: u32
  nf_rx_received :: u32
  nf_tx_failed :: u32

definition i32_wrap :: "int \<Rightarrow> i32" where
  "i32_wrap x = sint (word_of_int x :: u32)"

definition pbuf_alloc :: "(nat \<Rightarrow> addr) \<Rightarrow> u16 \<Rightarrow> allocation_epoch \<Rightarrow> netif \<Rightarrow> addr \<times> netif" where
  "pbuf_alloc kmalloc len epoch s =
     (let total = PBUF_HDR + PBUF_ZERO_COPY_RESERVE + unat len + PBUF_ZERO_COPY_TAILROOM;
          allocation = kmalloc (PBUF_PREFIX + total);
          raw = allocation + PBUF_PREFIX
      in if 2 ^ 16 \<le> total \<or> allocation = 0 then (0, s)
         else (raw, s\<lparr> nf_pbufs := (nf_pbufs s)(raw \<mapsto>
                \<lparr> pb_next = 0, pb_payload = raw + PBUF_HDR + PBUF_ZERO_COPY_RESERVE, pb_tot_len = len, pb_len = len,
                  pb_list = 0, pb_malloc_len = word_of_nat total, pb_type = PBUF_TYPE_RAM, pb_flags = 0,
                  pb_ref = 1, pb_if_idx = 0, pb_priority = 0, pb_epoch = epoch \<rparr>) \<rparr>))"

definition pbuf_free :: "addr \<Rightarrow> netif \<Rightarrow> (u8 \<times> netif) option" where
  "pbuf_free p s =
     (if p = 0 then Some (0, s)
      else (case nf_pbufs s p of
              None \<Rightarrow> None
            | Some b \<Rightarrow>
               (if 1 < pb_ref b
                then Some (0, s\<lparr> nf_pbufs := (nf_pbufs s)(p \<mapsto> b\<lparr> pb_ref := pb_ref b - 1 \<rparr>) \<rparr>)
                else Some (1, s\<lparr> nf_pbufs := (nf_pbufs s)(p := None),
                                 nf_freed := nf_freed s @ [p - PBUF_PREFIX] \<rparr>))))"

definition pbuf_ref :: "addr \<Rightarrow> netif \<Rightarrow> netif option" where
  "pbuf_ref p s =
     (if p = 0 then Some s
      else map_option (\<lambda>b. s\<lparr> nf_pbufs := (nf_pbufs s)(p \<mapsto> b\<lparr> pb_ref := i32_wrap (pb_ref b + 1) \<rparr>) \<rparr>)
             (nf_pbufs s p))"

definition pbuf_move :: "addr \<Rightarrow> int \<Rightarrow> pbuf \<Rightarrow> pbuf option" where
  "pbuf_move p h b =
     (let new_len = int (unat (pb_len b)) + h;
          new_tot_len = int (unat (pb_tot_len b)) + h;
          new_payload = int (pb_payload b) - h;
          base = int (p + PBUF_HDR);
          end_of = int p + int (unat (pb_malloc_len b))
      in if new_len < 0 \<or> new_len > 0xffff \<or> new_tot_len < 0 \<or> new_tot_len > 0xffff
            \<or> new_payload < base \<or> new_payload + new_len > end_of
         then None
         else Some (b\<lparr> pb_payload := nat new_payload, pb_len := word_of_int new_len,
                       pb_tot_len := word_of_int new_tot_len \<rparr>))"

definition pbuf_header :: "addr \<Rightarrow> 16 word \<Rightarrow> netif \<Rightarrow> (u8 \<times> netif) option" where
  "pbuf_header p header_size s =
     (if p = 0 then Some (1, s)
      else (case nf_pbufs s p of
              None \<Rightarrow> None
            | Some b \<Rightarrow>
               (case pbuf_move p (sint header_size) b of
                  None \<Rightarrow> Some (1, s)
                | Some b1 \<Rightarrow> Some (0, s\<lparr> nf_pbufs := (nf_pbufs s)(p \<mapsto> b1) \<rparr>))))"

datatype nf_tx_error = NoInterface | NoDriver | InvalidLength | NoMemory

text \<open>\<open>send netif pbuf\<close> is what the driver's callback does, \<open>None\<close> when the interface has none.\<close>

definition nf_transmit ::
  "(nat \<Rightarrow> addr) \<Rightarrow> allocation_epoch \<Rightarrow> (addr \<Rightarrow> (addr \<Rightarrow> netif \<Rightarrow> netif) option) \<Rightarrow> u8 list \<Rightarrow> netif
    \<Rightarrow> ((nf_tx_error + unit) \<times> netif) option" where
  "nf_transmit kmalloc epoch send frame s =
     (if frame = [] \<or> 0xffff < length frame then Some (Inl InvalidLength, s)
      else if nf_registered s = 0 then Some (Inl NoInterface, s)
      else (case send (nf_registered s) of
              None \<Rightarrow> Some (Inl NoDriver, s)
            | Some drv \<Rightarrow>
               (case pbuf_alloc kmalloc (word_of_nat (length frame)) epoch s of
                  (p, s1) \<Rightarrow>
                    (if p = 0 then Some (Inl NoMemory, s1)
                     else let s2 = s1\<lparr> nf_mem := mem_put (pb_payload (the (nf_pbufs s1 p))) frame (nf_mem s1) \<rparr>
                          in map_option (\<lambda>(_, s3). (Inr (), s3)) (pbuf_free p (drv p s2))))))"

definition vendor_tx_sink ::
  "(nat \<Rightarrow> addr) \<Rightarrow> allocation_epoch \<Rightarrow> (addr \<Rightarrow> (addr \<Rightarrow> netif \<Rightarrow> netif) option) \<Rightarrow> u8 list \<Rightarrow> netif
    \<Rightarrow> netif option" where
  "vendor_tx_sink kmalloc epoch send frame s =
     map_option (\<lambda>(r, s1). case r of Inl _ \<Rightarrow> s1\<lparr> nf_tx_failed := nf_tx_failed s1 + 1 \<rparr> | Inr _ \<Rightarrow> s1)
       (nf_transmit kmalloc epoch send frame s)"

definition le32 :: "addr \<Rightarrow> mem \<Rightarrow> nat" where
  "le32 p m = unat (m p) + 256 * unat (m (p + 1)) + 65536 * unat (m (p + 2)) + 16777216 * unat (m (p + 3))"

record netif_diag =
  ng_address :: addr
  ng_driver_send :: nat
  ng_hardware_address_len :: u8
  ng_hardware_address :: "u8 list"

definition nf_diagnostics :: "netif \<Rightarrow> netif_diag option" where
  "nf_diagnostics s =
     (let p = nf_registered s
      in if p = 0 then None
         else Some \<lparr> ng_address = p, ng_driver_send = le32 (p + NETIF_DRV_SEND_OFFSET) (nf_mem s),
                     ng_hardware_address_len = nf_mem s (p + NETIF_HWADDR_LEN_OFFSET),
                     ng_hardware_address = mem_get (p + NETIF_HWADDR_OFFSET) 6 (nf_mem s) \<rparr>)"

definition hardware_address :: "netif \<Rightarrow> u8 list option" where
  "hardware_address s =
     (case nf_diagnostics s of
        None \<Rightarrow> None
      | Some d \<Rightarrow> if ng_hardware_address_len d = 6 then Some (ng_hardware_address d) else None)"

text \<open>The standard receive path.  A ticket that is not consumed is dropped, which finishes it as
  abandoned.  \<open>receive\<close> and \<open>between\<close> are as in \<open>ct_receive\<close>; \<open>mtu\<close> is the constant of the route.\<close>

definition standard_frame :: "nat \<Rightarrow> pbuf \<Rightarrow> mem \<Rightarrow> u8 list option" where
  "standard_frame mtu b m =
     (if pb_next b \<noteq> 0 \<or> pb_tot_len b \<noteq> pb_len b \<or> pb_payload b = 0
         \<or> unat (pb_len b) \<le> ETH_PAD_SIZE \<or> mtu < unat (pb_len b) - ETH_PAD_SIZE
      then None
      else Some (mem_get (pb_payload b + ETH_PAD_SIZE) (unat (pb_len b) - ETH_PAD_SIZE) m))"

definition receive_standard_pbuf ::
  "(ingress \<Rightarrow> generation \<Rightarrow> u8 list \<Rightarrow> queue_error + unit) \<Rightarrow> (route \<Rightarrow> route) \<Rightarrow> nat
    \<Rightarrow> callback_ticket option \<Rightarrow> pbuf option \<Rightarrow> mem \<Rightarrow> route \<Rightarrow> bool \<times> route" where
  "receive_standard_pbuf receive between mtu ticket p m r =
     (case ticket of
        None \<Rightarrow> (False, r)
      | Some k \<Rightarrow>
         (case Option.bind p (\<lambda>b. standard_frame mtu b m) of
            None \<Rightarrow> (False, ct_drop False r)
          | Some frame \<Rightarrow>
             (case ct_receive receive between frame k r of
                (result, r1) \<Rightarrow> (case result of Inl _ \<Rightarrow> False | Inr _ \<Rightarrow> True, r1))))"

definition nf_count_rx :: "bool \<Rightarrow> netif \<Rightarrow> netif" where
  "nf_count_rx accepted s =
     (if accepted then s\<lparr> nf_rx_received := nf_rx_received s + 1 \<rparr>
      else s\<lparr> nf_rx_dropped := nf_rx_dropped s + 1 \<rparr>)"

text \<open>The receive entry of a build with the standard path.\<close>

definition driverif_input ::
  "(ingress \<Rightarrow> generation \<Rightarrow> u8 list \<Rightarrow> queue_error + unit) \<Rightarrow> (route \<Rightarrow> route) \<Rightarrow> nat \<Rightarrow> addr \<Rightarrow> addr
    \<Rightarrow> netif \<times> route \<Rightarrow> (i32 \<times> netif \<times> route) option" where
  "driverif_input receive between mtu nif p sr =
     (let s = fst sr;
          epoch = (if p = 0 then ae_CLOSED else pb_epoch (the (nf_pbufs s p)))
      in if p \<noteq> 0 \<and> nf_pbufs s p = None then None
         else (case cr_enter_allocated epoch (snd sr) of
                 (ticket, r1) \<Rightarrow>
                   (case (if nf_registered s \<noteq> 0 \<and> nif = nf_registered s
                          then receive_standard_pbuf receive between mtu ticket (if p = 0 then None else nf_pbufs s p) (nf_mem s) r1
                          else (False, case ticket of None \<Rightarrow> r1 | Some _ \<Rightarrow> ct_drop False r1)) of
                      (accepted, r2) \<Rightarrow>
                        map_option (\<lambda>(_, s1). (0, s1, r2)) (pbuf_free p (nf_count_rx accepted s)))))"

text \<open>The receive entry of a build with the smoltcp bridge only.\<close>

definition driverif_input_net :: "addr \<Rightarrow> netif \<times> bridge \<Rightarrow> (i32 \<times> netif \<times> bridge) option" where
  "driverif_input_net p sb =
     (let s = fst sb; br = snd sb
      in if p = 0 then Some (0, s, br)
         else (case nf_pbufs s p of
                 None \<Rightarrow> None
               | Some b \<Rightarrow>
                   let len = unat (pb_len b);
                       fits = (pb_payload b \<noteq> 0 \<and> ETH_PAD_SIZE < len \<and> len - ETH_PAD_SIZE \<le> MTU);
                       br1 = (if fits then snd (rx_push (mem_get (pb_payload b + ETH_PAD_SIZE) (len - ETH_PAD_SIZE) (nf_mem s)) br)
                              else br)
                   in map_option (\<lambda>(_, s1). (0, s1, br1)) (pbuf_free p (nf_count_rx fits s))))"

definition netifapi_netif_add :: "addr \<Rightarrow> netif \<Rightarrow> i32 \<times> netif" where
  "netifapi_netif_add nif s = (0, s\<lparr> nf_registered := nif \<rparr>)"

definition netifapi_netif_remove :: "addr \<Rightarrow> netif \<Rightarrow> i32 \<times> netif" where
  "netifapi_netif_remove nif s = (0, if nf_registered s = nif then s\<lparr> nf_registered := 0 \<rparr> else s)"

definition netifapi_netif_find_by_name :: "netif \<Rightarrow> addr" where
  "netifapi_netif_find_by_name s = nf_registered s"

definition netifapi_netif_get_addr :: "addr \<Rightarrow> addr \<Rightarrow> addr \<Rightarrow> addr \<Rightarrow> mem \<Rightarrow> i32 \<times> mem" where
  "netifapi_netif_get_addr nif ipaddr netmask gateway m =
     (if nif = 0 then (- 6, m)
      else (0, fold (\<lambda>p k. if p = 0 then k else mem_put p [0, 0, 0, 0] k) [ipaddr, netmask, gateway] m))"

subsection \<open>The life of a packet buffer\<close>

datatype pop = PRef | PFree | PHeader "16 word"

fun pb_step :: "addr \<Rightarrow> pop \<Rightarrow> netif \<Rightarrow> netif option" where
  "pb_step p PRef s = pbuf_ref p s"
| "pb_step p PFree s = map_option snd (pbuf_free p s)"
| "pb_step p (PHeader h) s = map_option snd (pbuf_header p h s)"

fun pb_run :: "addr \<Rightarrow> pop list \<Rightarrow> netif \<Rightarrow> netif option" where
  "pb_run p [] s = Some s"
| "pb_run p (a # ops) s = Option.bind (pb_step p a s) (pb_run p ops)"

text \<open>The references held after the operations, none when one of them comes after the last release.\<close>

fun pb_balance :: "nat \<Rightarrow> pop list \<Rightarrow> nat option" where
  "pb_balance n [] = Some n"
| "pb_balance n (a # ops) =
     (if n = 0 then None
      else pb_balance (case a of PRef \<Rightarrow> n + 1 | PFree \<Rightarrow> n - 1 | PHeader h \<Rightarrow> n) ops)"

text \<open>The window of a buffer of \<open>n\<close> bytes at \<open>p\<close>: it starts after the header and ends where it did at
  the allocation.\<close>

definition pb_window :: "addr \<Rightarrow> nat \<Rightarrow> pbuf \<Rightarrow> bool" where
  "pb_window p n b \<longleftrightarrow> n < 65420 \<and> unat (pb_malloc_len b) = 116 + n \<and> p + PBUF_HDR \<le> pb_payload b \<and>
     pb_payload b + unat (pb_len b) = p + 112 + n \<and> pb_tot_len b = pb_len b \<and> pb_next b = 0"

lemma pb_window_int:
  assumes "pb_window p n b"
  shows "int (pb_payload b) + uint (pb_len b) = int p + 112 + int n"
proof -
  have "int (pb_payload b + unat (pb_len b)) = int (p + 112 + n)"
    using assms by (simp only: pb_window_def)
  then show ?thesis
    by simp
qed

lemma pbuf_move_window:
  assumes w: "pb_window p n b"
  shows "pbuf_move p h b =
     (if - uint (pb_len b) \<le> h \<and> h \<le> int (pb_payload b) - int (p + PBUF_HDR)
      then Some (b\<lparr> pb_payload := nat (int (pb_payload b) - h), pb_len := word_of_int (uint (pb_len b) + h),
                    pb_tot_len := word_of_int (uint (pb_len b) + h) \<rparr>)
      else None)"
proof -
  have "int (unat (pb_malloc_len b)) = int (116 + n)"
    using w by (simp only: pb_window_def)
  then have n: "int n < 65420" "uint (pb_malloc_len b) = 116 + int n" "pb_tot_len b = pb_len b"
    using w by (simp_all add: pb_window_def)
  have "uint (pb_len b) + h \<le> 65535" if "h \<le> int (pb_payload b) - int (p + PBUF_HDR)"
    using pb_window_int [OF w] n(1) that by (simp add: PBUF_HDR_def)
  then show ?thesis
    using pb_window_int [OF w] n unfolding pbuf_move_def Let_def by (auto simp: PBUF_HDR_def)
qed

lemma uint_small16: "\<lbrakk> 0 \<le> x; x < 65536 \<rbrakk> \<Longrightarrow> uint (word_of_int x :: u16) = x"
  by (simp add: unsigned_of_int take_bit_int_eq_self)

lemma pbuf_move_keeps:
  assumes w: "pb_window p n b" and m: "pbuf_move p h b = Some b1"
  shows "pb_window p n b1 \<and> pb_ref b1 = pb_ref b \<and> pb_epoch b1 = pb_epoch b"
proof -
  define k where "k = uint (pb_len b) + h"
  have h: "- uint (pb_len b) \<le> h" "h \<le> int (pb_payload b) - int (p + PBUF_HDR)"
    and b1: "b1 = b\<lparr> pb_payload := nat (int (pb_payload b) - h), pb_len := word_of_int k, pb_tot_len := word_of_int k \<rparr>"
    using m unfolding pbuf_move_window [OF w] k_def by (auto split: if_splits)
  have n: "int n < 65420"
    using w by (simp add: pb_window_def)
  have "0 \<le> k" "k < 65536"
    using pb_window_int [OF w] n h by (simp_all add: PBUF_HDR_def k_def)
  then have "int (unat (word_of_int k :: u16)) = k"
    unfolding of_nat_unat by (rule uint_small16)
  moreover have "int (nat (int (pb_payload b) - h)) = int (pb_payload b) - h"
    using h by (simp add: PBUF_HDR_def)
  ultimately have "int (nat (int (pb_payload b) - h) + unat (word_of_int k :: u16)) = int (p + 112 + n)"
    using pb_window_int [OF w] unfolding of_nat_add k_def by linarith
  then have "nat (int (pb_payload b) - h) + unat (word_of_int k :: u16) = p + 112 + n"
    by (simp only: of_nat_eq_iff)
  then show ?thesis
    using w h by (simp add: b1 pb_window_def PBUF_HDR_def)
qed

lemma unat_of_nat16: "k < 65536 \<Longrightarrow> unat (word_of_nat k :: u16) = k"
  by (simp add: unsigned_of_nat take_bit_nat_eq_self)

lemma pbuf_alloc_window:
  assumes "pbuf_alloc kmalloc len epoch s = (p, s1)" "p \<noteq> 0"
  shows "p = kmalloc (132 + unat len) + 16 \<and> nf_freed s1 = nf_freed s \<and>
     (\<exists>b. nf_pbufs s1 p = Some b \<and> pb_window p (unat len) b \<and> pb_ref b = 1 \<and> pb_epoch b = epoch)"
proof -
  define total where "total = PBUF_HDR + PBUF_ZERO_COPY_RESERVE + unat len + PBUF_ZERO_COPY_TAILROOM"
  have total: "total = 116 + unat len"
    by (simp add: total_def PBUF_HDR_def PBUF_ZERO_COPY_RESERVE_def PBUF_ZERO_COPY_TAILROOM_def)
  define raw where "raw = kmalloc (PBUF_PREFIX + total) + PBUF_PREFIX"
  define b where "b = \<lparr> pb_next = 0, pb_payload = raw + PBUF_HDR + PBUF_ZERO_COPY_RESERVE, pb_tot_len = len, pb_len = len,
      pb_list = 0, pb_malloc_len = word_of_nat total, pb_type = PBUF_TYPE_RAM, pb_flags = 0,
      pb_ref = 1, pb_if_idx = 0, pb_priority = 0, pb_epoch = epoch \<rparr>"
  have r: "total < 65536" "p = raw" "s1 = s\<lparr> nf_pbufs := (nf_pbufs s)(raw \<mapsto> b) \<rparr>"
    using assms unfolding pbuf_alloc_def Let_def total_def [symmetric] raw_def [symmetric] b_def [symmetric]
    by (auto split: if_splits)
  have "pb_window p (unat len) b"
    using r(1) unat_of_nat16 [OF r(1)]
    by (simp add: pb_window_def b_def r(2) total PBUF_HDR_def PBUF_ZERO_COPY_RESERVE_def)
  then show ?thesis
    by (simp add: r raw_def b_def total PBUF_PREFIX_def)
qed

lemma i32_wrap_small: "\<lbrakk> 0 \<le> x; x < 2 ^ 31 \<rbrakk> \<Longrightarrow> i32_wrap x = x"
  by (simp add: i32_wrap_def signed_of_int signed_take_bit_int_eq_self)

lemma pb_window_ref [simp]: "pb_window p n (b\<lparr> pb_ref := r \<rparr>) = pb_window p n b"
  by (simp add: pb_window_def)

lemma pb_run_spec:
  "\<lbrakk> p \<noteq> 0; nf_pbufs s p = Some b; pb_window p n b; pb_ref b = int k; 0 < k; pb_balance k ops = Some j;
     k + length ops < 2 ^ 31 \<rbrakk> \<Longrightarrow>
   \<exists>s2. pb_run p ops s = Some s2 \<and>
     (if j = 0 then nf_pbufs s2 p = None \<and> nf_freed s2 = nf_freed s @ [p - PBUF_PREFIX]
      else nf_freed s2 = nf_freed s \<and> (\<exists>b2. nf_pbufs s2 p = Some b2 \<and> pb_ref b2 = int j \<and> pb_window p n b2))"
proof (induction ops arbitrary: s b k)
  case Nil
  then show ?case
    by simp
next
  case (Cons a ops)
  have go: ?case if "pb_step p a s = Some s1" "nf_freed s1 = nf_freed s" "nf_pbufs s1 p = Some b1" "pb_window p n b1"
    "pb_ref b1 = int k1" "0 < k1" "pb_balance k1 ops = Some j" "k1 + length ops < 2 ^ 31" for s1 b1 k1
    using Cons.IH [OF Cons.prems(1) that(3-8)] unfolding that(2) pb_run.simps that(1) Option.bind.simps .
  show ?case
  proof (cases a)
    case PRef
    have "i32_wrap (pb_ref b + 1) = int (Suc k)"
      using Cons.prems(4, 7) i32_wrap_small [of "int (Suc k)"] by (simp add: add.commute)
    then show ?thesis
      using Cons.prems
      by (intro go [of "s\<lparr> nf_pbufs := (nf_pbufs s)(p \<mapsto> b\<lparr> pb_ref := int (Suc k) \<rparr>) \<rparr>" "b\<lparr> pb_ref := int (Suc k) \<rparr>" "Suc k"])
        (simp_all add: PRef pbuf_ref_def)
  next
    case PFree
    show ?thesis
    proof (cases "k = 1")
      case True
      then have "ops = []" "j = 0"
        using Cons.prems(6) PFree by (cases ops; simp)+
      then show ?thesis
        using Cons.prems(1, 2, 4) True by (simp add: PFree pbuf_free_def)
    next
      case False
      then show ?thesis
        using Cons.prems
        by (intro go [of "s\<lparr> nf_pbufs := (nf_pbufs s)(p \<mapsto> b\<lparr> pb_ref := int (k - 1) \<rparr>) \<rparr>" "b\<lparr> pb_ref := int (k - 1) \<rparr>" "k - 1"])
          (simp_all add: PFree pbuf_free_def of_nat_diff)
    qed
  next
    case (PHeader h)
    show ?thesis
    proof (cases "pbuf_move p (sint h) b")
      case None
      then show ?thesis
        using Cons.prems by (intro go [of s b k]) (simp_all add: PHeader pbuf_header_def)
    next
      case (Some b1)
      then show ?thesis
        using Cons.prems pbuf_move_keeps [OF Cons.prems(3) Some]
        by (intro go [of "s\<lparr> nf_pbufs := (nf_pbufs s)(p \<mapsto> b1) \<rparr>" b1 k]) (simp_all add: PHeader pbuf_header_def)
    qed
  qed
qed

text \<open>C36: A packet buffer lives exactly as long as references to it: after fewer than \<open>2 ^ 31 - 1\<close>
  operations on a fresh buffer, none of them after the last release, it is freed once if as many
  references were dropped as taken, and not at all otherwise; while it lives, its count is the
  references held, and its payload window stays inside the allocation, behind the header and with the
  four bytes of tailroom free.\<close>

theorem pbuf_lifecycle:
  assumes "pbuf_alloc kmalloc len epoch s = (p, s1)" "p \<noteq> 0"
    and "pb_balance 1 ops = Some j" "length ops < 2 ^ 31 - 1"
  shows "\<exists>s2. pb_run p ops s1 = Some s2 \<and>
     (if j = 0 then nf_pbufs s2 p = None \<and> nf_freed s2 = nf_freed s @ [kmalloc (132 + unat len)]
      else nf_freed s2 = nf_freed s \<and>
        (\<exists>b. nf_pbufs s2 p = Some b \<and> pb_ref b = int j \<and> pb_tot_len b = pb_len b \<and> p + PBUF_HDR \<le> pb_payload b \<and>
          pb_payload b + unat (pb_len b) + PBUF_ZERO_COPY_TAILROOM = p + unat (pb_malloc_len b)))"
proof -
  obtain b where p: "p = kmalloc (132 + unat len) + 16" "nf_freed s1 = nf_freed s"
    and b: "nf_pbufs s1 p = Some b" "pb_window p (unat len) b" "pb_ref b = int 1"
    using pbuf_alloc_window [OF assms(1, 2)] by auto
  have "1 + length ops < 2 ^ 31"
    using assms(4) by simp
  with pb_run_spec [OF assms(2) b _ assms(3)] obtain s2 where s2: "pb_run p ops s1 = Some s2"
    and c: "if j = 0 then nf_pbufs s2 p = None \<and> nf_freed s2 = nf_freed s1 @ [p - PBUF_PREFIX]
      else nf_freed s2 = nf_freed s1 \<and> (\<exists>b2. nf_pbufs s2 p = Some b2 \<and> pb_ref b2 = int j \<and> pb_window p (unat len) b2)"
    by auto
  have k: "p - PBUF_PREFIX = kmalloc (132 + unat len)"
    by (simp add: p(1) PBUF_PREFIX_def)
  show ?thesis
  proof (cases "j = 0")
    case True
    then show ?thesis
      using s2 c k p(2) by simp
  next
    case False
    then obtain b2 where "nf_pbufs s2 p = Some b2" "pb_ref b2 = int j" "pb_window p (unat len) b2" "nf_freed s2 = nf_freed s"
      using c p(2) by auto
    then show ?thesis
      using s2 False by (auto simp: pb_window_def PBUF_ZERO_COPY_TAILROOM_def)
  qed
qed

definition nf_new :: netif where
  "nf_new = \<lparr> nf_pbufs = (\<lambda>_. None), nf_mem = (\<lambda>_. 0), nf_freed = [], nf_registered = 0, nf_rx_dropped = 0,
     nf_rx_received = 0, nf_tx_failed = 0 \<rparr>"

theorem pbuf_lifecycle_witness:
  "\<exists>s2. pb_run 1016 [PHeader 14, PRef, PFree, PHeader (- 2), PFree] (snd (pbuf_alloc (\<lambda>_. 1000) 60 ae_CLOSED nf_new)) = Some s2 \<and>
     nf_freed s2 = [1000]"
proof -
  have "fst (pbuf_alloc (\<lambda>_. 1000) 60 ae_CLOSED nf_new) = 1016"
    by (simp add: pbuf_alloc_def Let_def PBUF_HDR_def PBUF_ZERO_COPY_RESERVE_def PBUF_ZERO_COPY_TAILROOM_def PBUF_PREFIX_def)
  then have "pbuf_alloc (\<lambda>_. 1000) 60 ae_CLOSED nf_new = (1016, snd (pbuf_alloc (\<lambda>_. 1000) 60 ae_CLOSED nf_new))"
    by (metis prod.collapse)
  from pbuf_lifecycle [OF this, of "[PHeader 14, PRef, PFree, PHeader (- 2), PFree]" 0] show ?thesis
    by (auto simp: nf_new_def)
qed

lemma pb_step_epoch:
  assumes "nf_pbufs s p = Some b" "pb_step p a s = Some s1" "nf_pbufs s1 p = Some b1"
  shows "pb_epoch b1 = pb_epoch b"
  using assms
  by (cases a)
    (auto simp: pbuf_ref_def pbuf_free_def pbuf_header_def pbuf_move_def Let_def split: if_splits option.splits)

lemma pb_step_dead: "\<lbrakk> p \<noteq> 0; nf_pbufs s p = None \<rbrakk> \<Longrightarrow> pb_step p a s = None"
  by (cases a) (simp_all add: pbuf_ref_def pbuf_free_def pbuf_header_def)

lemma pb_run_epoch:
  "\<lbrakk> p \<noteq> 0; nf_pbufs s p = Some b; pb_run p ops s = Some s2; nf_pbufs s2 p = Some b2 \<rbrakk> \<Longrightarrow> pb_epoch b2 = pb_epoch b"
proof (induction ops arbitrary: s b)
  case (Cons a ops)
  obtain s1 where s1: "pb_step p a s = Some s1" "pb_run p ops s1 = Some s2"
    using Cons.prems(3) by (auto simp: Option.bind_eq_Some_conv)
  show ?case
  proof (cases "nf_pbufs s1 p")
    case None
    then show ?thesis
      using s1(2) Cons.prems(1, 4) pb_step_dead [of p s1] by (cases ops) auto
  next
    case (Some b1)
    then show ?thesis
      using Cons.IH [OF Cons.prems(1) Some s1(2) Cons.prems(4)] pb_step_epoch [OF Cons.prems(2) s1(1) Some] by simp
  qed
qed simp

lemma driverif_input_closed:
  assumes "p \<noteq> 0" "nf_pbufs s p = Some b"
    and "fst (cr_enter_allocated (pb_epoch b) r) = None"
  shows "driverif_input receive between mtu nif p (s, r) =
     map_option (\<lambda>(_, s1). (0, s1, snd (cr_enter_allocated (pb_epoch b) r))) (pbuf_free p (nf_count_rx False s))"
  using assms by (auto simp: driverif_input_def Let_def receive_standard_pbuf_def split: prod.split)

end
