(* ===== verification/Incremental.thy ===== *)
theory Incremental
  imports Prelude
begin

text \<open>
  The incremental supplicant backend (\<open>src/src/hisi_rf_backend/incremental.rs\<close>): one active operation,
  advanced by bounded polls.

  The native supplicant port is a trait of the source and a record of functions here; every call may
  change the state of the port, which also stands for what native callbacks do between two calls.
  The clock is a sequence of readings, one for each time the source reads it.  Whether the control
  contract admits a work report (\<open>WorkReport::try_new\<close> of a separate crate) is the argument \<open>ok\<close>.
  A failing call returns \<open>Inl\<close>.  Scan results are an arbitrary type.
\<close>

unbundle bit_operations_syntax

section \<open>Operations\<close>

type_synonym opid = nat

datatype err_class = EcBusy | EcOther | EcConnect | EcOperationTimeout | EcPort nat

datatype err_stage = StUnset | StControlPlane | StOperation | StInitialize | StScan | StConnect | StDisconnect | StPort nat

datatype trace_kind = TkVendorStatus | TkSupplicantContext | TkDriverContext | TkBackendStatus

record backend_error =
  be_class :: err_class
  be_code :: u32
  be_stage :: err_stage
  be_trace :: "(trace_kind \<times> u32) list"

definition staged_error :: "err_class \<Rightarrow> u32 \<Rightarrow> err_stage \<Rightarrow> backend_error" where
  "staged_error c code st = \<lparr> be_class = c, be_code = code, be_stage = st, be_trace = [] \<rparr>"

abbreviation with_trace :: "trace_kind \<Rightarrow> u32 \<Rightarrow> backend_error \<Rightarrow> backend_error" where
  "with_trace k w e \<equiv> e\<lparr> be_trace := be_trace e @ [(k, w)] \<rparr>"

definition ERROR_STALE_OPERATION :: u32 where "ERROR_STALE_OPERATION = 0x5732b002"
definition ERROR_WORK_BUDGET :: u32 where "ERROR_WORK_BUDGET = 0x5732b003"
definition ERROR_OPERATION_TIMEOUT :: u32 where "ERROR_OPERATION_TIMEOUT = 0x5732b004"
definition FIRST_EAPOL_RECONNECT_DELAY_US :: u64 where "FIRST_EAPOL_RECONNECT_DELAY_US = 1000000"
definition RECONNECT_SETTLE_US :: u64 where "RECONNECT_SETTLE_US = 5000"
definition FIRST_EAPOL_TIMEOUT_MASK :: u32 where "FIRST_EAPOL_TIMEOUT_MASK = 0x0000000f"
definition FIRST_EAPOL_RETRY_MASK :: u32 where "FIRST_EAPOL_RETRY_MASK = 0x00ff0000"
definition FIRST_EAPOL_RETRY_PENDING :: u32 where "FIRST_EAPOL_RETRY_PENDING = 0x01000000"

definition operation_error :: "u32 \<Rightarrow> backend_error" where
  "operation_error code = staged_error EcOther code StOperation"

record connection_info =
  ci_bssid :: "u8 list"
  ci_frequency_mhz :: u16

record station_config =
  sc_bssid :: "u8 list"
  sc_channel :: u8
  sc_timeout_ms :: u32

datatype operation_kind = KInitialize | KScan | KConnect connection_info | KDisconnect

datatype start_phase = PhReady | PhScan | PhConnectConfigure station_config | PhConnectSubmit | PhDisconnect
  | PhFinishDisconnect

datatype completion = CInitialized | CScan nat bool | CConnected connection_info | CDisconnected

datatype outcome = OContinue | OComplete completion | OCancelled | OFailed i32

datatype inc_request = RqInitialize | RqScan u32 | RqConnect station_config | RqDisconnect u32

datatype connect_event = EvProgress | EvAuthorized | EvDisconnected | EvFailed

definition classify_native_connect_event :: "u8 \<Rightarrow> connect_event" where
  "classify_native_connect_event kind =
     (if kind = 3 then EvAuthorized else if kind = 4 then EvDisconnected
      else if kind = 5 then EvFailed else EvProgress)"

definition channel_to_frequency :: "u8 \<Rightarrow> u16" where
  "channel_to_frequency channel =
     (if channel = 14 then 2484 else if 1 \<le> channel \<and> channel \<le> 13 then 2407 + ucast channel * 5 else 0)"

record active =
  ia_id :: opid
  ia_kind :: operation_kind
  ia_phase :: start_phase
  ia_deadline :: u64
  ia_backend_deadline :: "u64 option"
  ia_cancel :: bool
  ia_cancel_submitted :: bool
  ia_eapol_deadline :: "u64 option"
  ia_eapol_submitted :: bool
  ia_auth_deadline :: "u64 option"
  ia_auth_submitted :: bool
  ia_reconnect :: bool
  ia_reconnect_deadline :: "u64 option"
  ia_last_event :: u8
  ia_last_disconnect :: "i32 option"
  ia_scan_total :: "nat option"
  ia_scan_seen :: nat
  ia_scan_written :: nat
  ia_scan_truncated :: bool

definition sat_mul :: "u64 \<Rightarrow> u64 \<Rightarrow> u64" where
  "sat_mul x y = (if uint x * uint y < 2 ^ 64 then x * y else - 1)"

definition ia_new :: "opid \<Rightarrow> operation_kind \<Rightarrow> u32 \<Rightarrow> u64 \<Rightarrow> active" where
  "ia_new opid kind timeout_ms now_us =
     \<lparr> ia_id = opid, ia_kind = kind, ia_phase = PhReady,
       ia_deadline = sat_add now_us (sat_mul (ucast timeout_ms) 1000), ia_backend_deadline = None,
       ia_cancel = False, ia_cancel_submitted = False, ia_eapol_deadline = None, ia_eapol_submitted = False,
       ia_auth_deadline = None, ia_auth_submitted = False, ia_reconnect = False, ia_reconnect_deadline = None,
       ia_last_event = 0, ia_last_disconnect = None, ia_scan_total = None, ia_scan_seen = 0,
       ia_scan_written = 0, ia_scan_truncated = False \<rparr>"

definition ia_from_request :: "opid \<Rightarrow> inc_request \<Rightarrow> u64 \<Rightarrow> active" where
  "ia_from_request opid request now_us =
     (case request of
        RqInitialize \<Rightarrow> ia_new opid KInitialize 0 now_us
      | RqScan timeout \<Rightarrow> (ia_new opid KScan timeout now_us)\<lparr> ia_phase := PhScan \<rparr>
      | RqConnect c \<Rightarrow>
          (ia_new opid (KConnect \<lparr> ci_bssid = sc_bssid c, ci_frequency_mhz = channel_to_frequency (sc_channel c) \<rparr>)
             (sc_timeout_ms c) now_us)\<lparr> ia_phase := PhConnectConfigure c \<rparr>
      | RqDisconnect timeout \<Rightarrow> (ia_new opid KDisconnect timeout now_us)\<lparr> ia_phase := PhDisconnect \<rparr>)"

definition opt_min :: "u64 option \<Rightarrow> u64 \<Rightarrow> u64" where
  "opt_min d x = (case d of None \<Rightarrow> x | Some y \<Rightarrow> min y x)"

definition ia_next_deadline :: "active \<Rightarrow> u64" where
  "ia_next_deadline a =
     opt_min (ia_reconnect_deadline a)
       (opt_min (ia_auth_deadline a) (opt_min (ia_eapol_deadline a) (opt_min (ia_backend_deadline a) (ia_deadline a))))"

fun kind_connects :: "operation_kind \<Rightarrow> bool" where
  "kind_connects (KConnect _) = True"
| "kind_connects _ = False"

definition should_submit_first_eapol_reconnect :: "u32 \<Rightarrow> u64 \<Rightarrow> active \<Rightarrow> bool \<times> active" where
  "should_submit_first_eapol_reconnect recovery now_us a =
     (if \<not> kind_connects (ia_kind a) \<or> ia_cancel a \<or> ia_eapol_submitted a
         \<or> recovery AND FIRST_EAPOL_TIMEOUT_MASK = 0 \<or> recovery AND FIRST_EAPOL_RETRY_MASK = 0
         \<or> recovery AND FIRST_EAPOL_RETRY_PENDING \<noteq> 0
      then (False, a)
      else let d = (case ia_eapol_deadline a of Some d \<Rightarrow> d | None \<Rightarrow> sat_add now_us FIRST_EAPOL_RECONNECT_DELAY_US)
           in if now_us < d then (False, a\<lparr> ia_eapol_deadline := Some d \<rparr>)
              else (True, a\<lparr> ia_eapol_submitted := True, ia_eapol_deadline := None \<rparr>))"

definition should_submit_external_auth_reconnect :: "bool \<Rightarrow> u64 \<Rightarrow> active \<Rightarrow> bool \<times> active" where
  "should_submit_external_auth_reconnect stalled now_us a =
     (if \<not> kind_connects (ia_kind a) \<or> ia_cancel a \<or> ia_auth_submitted a then (False, a)
      else if \<not> stalled then (False, a\<lparr> ia_auth_deadline := None \<rparr>)
      else let d = (case ia_auth_deadline a of Some d \<Rightarrow> d | None \<Rightarrow> sat_add now_us FIRST_EAPOL_RECONNECT_DELAY_US)
           in if now_us < d then (False, a\<lparr> ia_auth_deadline := Some d \<rparr>)
              else (True, a\<lparr> ia_auth_submitted := True, ia_auth_deadline := None \<rparr>))"

definition observe_reconnect_disconnect :: "u8 \<Rightarrow> u64 \<Rightarrow> active \<Rightarrow> active" where
  "observe_reconnect_disconnect kind now_us a =
     (if ia_reconnect a \<and> \<not> ia_cancel a \<and> classify_native_connect_event kind = EvDisconnected
      then a\<lparr> ia_reconnect := False, ia_reconnect_deadline := Some (sat_add now_us RECONNECT_SETTLE_US) \<rparr>
      else a)"

definition take_reconnect_when_settled :: "u64 \<Rightarrow> active \<Rightarrow> bool \<times> active" where
  "take_reconnect_when_settled now_us a =
     (case ia_reconnect_deadline a of
        Some d \<Rightarrow> (if d \<le> now_us then (True, a\<lparr> ia_reconnect_deadline := None \<rparr>) else (False, a))
      | None \<Rightarrow> (False, a))"

definition ia_observe :: "u8 \<Rightarrow> i32 \<Rightarrow> active \<Rightarrow> outcome \<times> active" where
  "ia_observe kind status a0 =
     (let a = a0\<lparr> ia_last_event := kind \<rparr>
      in case ia_kind a of
           KInitialize \<Rightarrow> (OContinue, a)
         | KScan \<Rightarrow> (OContinue, a)
         | KConnect info \<Rightarrow>
             (case classify_native_connect_event kind of
                EvProgress \<Rightarrow> (OContinue, a)
              | EvAuthorized \<Rightarrow> (if ia_cancel a then OContinue else OComplete (CConnected info), a)
              | EvDisconnected \<Rightarrow>
                  (if ia_cancel a then (OCancelled, a)
                   else (OContinue, if status \<noteq> 0 then a\<lparr> ia_last_disconnect := Some status \<rparr> else a))
              | EvFailed \<Rightarrow> (OFailed status, a))
         | KDisconnect \<Rightarrow>
             (case classify_native_connect_event kind of
                EvDisconnected \<Rightarrow> (if ia_cancel a then OCancelled else OComplete CDisconnected, a)
              | EvFailed \<Rightarrow> (OFailed status, a)
              | _ \<Rightarrow> (OContinue, a)))"

definition ia_timeout_error :: "active \<Rightarrow> backend_error" where
  "ia_timeout_error a =
     with_trace TkVendorStatus (case ia_last_disconnect a of None \<Rightarrow> 0 | Some st \<Rightarrow> word_of_int st)
       (staged_error EcOperationTimeout (ERROR_OPERATION_TIMEOUT OR ucast (ia_last_event a))
         (case ia_kind a of KInitialize \<Rightarrow> StInitialize | KScan \<Rightarrow> StScan | KConnect _ \<Rightarrow> StConnect | KDisconnect \<Rightarrow> StDisconnect))"

section \<open>The backend\<close>

datatype wait_source = WBackend | WL2Rx | WTimer

datatype disposition = DPending "wait_source set" | DBudgetExhausted "wait_source set" | DComplete completion | DCancelled

record work_budget =
  wb_events :: u16
  wb_time_us :: u32

record work_report =
  wr_id :: opid
  wr_events :: u16
  wr_elapsed_us :: u32
  wr_progress :: bool
  wr_disposition :: disposition

record poll_result =
  pr_work_completed :: u32
  pr_output_pending :: u32
  pr_next_deadline_ms :: u64

record native_event =
  ne_kind :: u8
  ne_status :: i32

record ('p, 'r) sport =
  sp_start_scan :: "'p \<Rightarrow> (backend_error + unit) \<times> 'p"
  sp_poll_scan :: "'p \<Rightarrow> (backend_error + nat option) \<times> 'p"
  sp_scan_result :: "nat \<Rightarrow> 'p \<Rightarrow> 'r option"
  sp_scan_cache_pending :: "'p \<Rightarrow> bool \<times> 'p"
  sp_scan_cache_completion_observed :: "'p \<Rightarrow> bool \<times> 'p"
  sp_try_claim_scan_timeout :: "'p \<Rightarrow> bool \<times> 'p"
  sp_cancel_scan :: "'p \<Rightarrow> 'p"
  sp_configure :: "station_config \<Rightarrow> 'p \<Rightarrow> (backend_error + unit) \<times> 'p"
  sp_connect :: "'p \<Rightarrow> (backend_error + unit) \<times> 'p"
  sp_disconnect :: "'p \<Rightarrow> (backend_error + unit) \<times> 'p"
  sp_finish_disconnect :: "'p \<Rightarrow> (backend_error + unit) \<times> 'p"
  sp_poll :: "u32 \<Rightarrow> 'p \<Rightarrow> (backend_error + poll_result) \<times> 'p"
  sp_input_pending :: "'p \<Rightarrow> bool \<times> 'p"
  sp_next_event :: "'p \<Rightarrow> (backend_error + native_event option) \<times> 'p"
  sp_recovery_word :: "'p \<Rightarrow> u32 \<times> 'p"
  sp_context_word :: "'p \<Rightarrow> u32 \<times> 'p"
  sp_driver_word :: "'p \<Rightarrow> u32 \<times> 'p"
  sp_match_word :: "'p \<Rightarrow> u32 \<times> 'p"
  sp_external_auth_stalled :: "'p \<Rightarrow> bool \<times> 'p"

text \<open>\<open>ib_ticks\<close> counts the clock readings; \<open>ib_out\<close> is the caller's scan buffer.\<close>

record ('p, 'r) incb =
  ib_port :: 'p
  ib_ticks :: nat
  ib_active :: "active option"
  ib_out :: "'r list"
  ib_eapol_reconnects :: u32
  ib_auth_reconnects :: u32

type_synonym ('p, 'r, 'a) inc_call = "('p, 'r) incb \<Rightarrow> (backend_error + 'a) \<times> ('p, 'r) incb"

definition ib_now :: "(nat \<Rightarrow> u64) \<Rightarrow> ('p, 'r) incb \<Rightarrow> u64 \<times> ('p, 'r) incb" where
  "ib_now clk s = (clk (ib_ticks s), s\<lparr> ib_ticks := ib_ticks s + 1 \<rparr>)"

definition ib_call :: "('p \<Rightarrow> 'a \<times> 'p) \<Rightarrow> ('p, 'r) incb \<Rightarrow> 'a \<times> ('p, 'r) incb" where
  "ib_call f s = (case f (ib_port s) of (x, p) \<Rightarrow> (x, s\<lparr> ib_port := p \<rparr>))"

definition ib_on_active :: "(active \<Rightarrow> active) \<Rightarrow> ('p, 'r) incb \<Rightarrow> ('p, 'r) incb" where
  "ib_on_active f s = s\<lparr> ib_active := map_option f (ib_active s) \<rparr>"

abbreviation ib_act :: "('p, 'r) incb \<Rightarrow> active" where
  "ib_act s \<equiv> the (ib_active s)"

definition clear_with_error :: "('p, 'r) sport \<Rightarrow> backend_error \<Rightarrow> ('p, 'r, 'a) inc_call" where
  "clear_with_error P e s =
     (let s1 = (if map_option ia_kind (ib_active s) = Some KScan then s\<lparr> ib_port := sp_cancel_scan P (ib_port s) \<rparr> else s)
      in (Inl e, s1\<lparr> ib_active := None \<rparr>))"

text \<open>A call whose error clears the operation.\<close>

definition ib_clearing :: "('p, 'r) sport \<Rightarrow> ('p, 'r, 'a) inc_call \<Rightarrow> ('p, 'r, 'a) inc_call" where
  "ib_clearing P m s = (case m s of (Inl e, s1) \<Rightarrow> clear_with_error P e s1 | (Inr x, s1) \<Rightarrow> (Inr x, s1))"

definition ib_bind :: "('p, 'r, 'a) inc_call \<Rightarrow> ('a \<Rightarrow> ('p, 'r, 'b) inc_call) \<Rightarrow> ('p, 'r, 'b) inc_call" where
  "ib_bind m f s = (case m s of (Inl e, s1) \<Rightarrow> (Inl e, s1) | (Inr x, s1) \<Rightarrow> f x s1)"

type_synonym admits = "opid \<Rightarrow> work_budget \<Rightarrow> u16 \<Rightarrow> u32 \<Rightarrow> bool \<Rightarrow> disposition \<Rightarrow> bool"

definition bounded_step_report ::
  "('p, 'r) sport \<Rightarrow> (nat \<Rightarrow> u64) \<Rightarrow> admits \<Rightarrow> opid \<Rightarrow> work_budget \<Rightarrow> u64 \<Rightarrow> u16 \<Rightarrow> disposition
    \<Rightarrow> ('p, 'r, work_report) inc_call" where
  "bounded_step_report P clk ok opid budget started events disp s0 =
     (case ib_now clk s0 of
        (finished, s) \<Rightarrow>
          let elapsed = finished - started;
              disp1 = (if ucast (wb_time_us budget) \<le> elapsed
                       then (case disp of DPending w \<Rightarrow> DBudgetExhausted w | d \<Rightarrow> d) else disp)
          in if 0xffffffff < elapsed then clear_with_error P (operation_error ERROR_WORK_BUDGET) s
             else if ok opid budget events (ucast elapsed) True disp1
             then (Inr \<lparr> wr_id = opid, wr_events = events, wr_elapsed_us = ucast elapsed, wr_progress = True,
                         wr_disposition = disp1 \<rparr>, s)
             else clear_with_error P (operation_error ERROR_WORK_BUDGET) s)"

definition inc_start :: "(nat \<Rightarrow> u64) \<Rightarrow> opid \<Rightarrow> inc_request \<Rightarrow> ('p, 'r, unit) inc_call" where
  "inc_start clk opid request s =
     (if ib_active s \<noteq> None then (Inl (staged_error EcBusy 1 StControlPlane), s)
      else (case ib_now clk s of
              (now_us, s1) \<Rightarrow> (Inr (), s1\<lparr> ib_active := Some (ia_from_request opid request now_us) \<rparr>)))"

definition inc_cancel :: "opid \<Rightarrow> ('p, 'r, unit) inc_call" where
  "inc_cancel opid s =
     (case ib_active s of
        None \<Rightarrow> (Inl (operation_error ERROR_STALE_OPERATION), s)
      | Some a \<Rightarrow>
          (if ia_id a \<noteq> opid then (Inl (operation_error ERROR_STALE_OPERATION), s)
           else (Inr (), s\<lparr> ib_active := Some (a\<lparr> ia_cancel := True \<rparr>) \<rparr>)))"

definition inc_next_deadline :: "opid \<Rightarrow> ('p, 'r) incb \<Rightarrow> u64 option" where
  "inc_next_deadline opid s =
     (case ib_active s of
        None \<Rightarrow> None
      | Some a \<Rightarrow> if ia_id a = opid then Some (ia_next_deadline a) else None)"

subsection \<open>One poll\<close>

definition wait_backend_timer :: "wait_source set" where "wait_backend_timer = {WBackend, WTimer}"

definition inc_cancel_action ::
  "('p, 'r) sport \<Rightarrow> (nat \<Rightarrow> u64) \<Rightarrow> admits \<Rightarrow> opid \<Rightarrow> work_budget \<Rightarrow> u64 \<Rightarrow> ('p, 'r, work_report) inc_call" where
  "inc_cancel_action P clk ok opid budget started s =
     (case ia_kind (ib_act s) of
        KScan \<Rightarrow>
          bounded_step_report P clk ok opid budget started 1 DCancelled
            (s\<lparr> ib_port := sp_cancel_scan P (ib_port s), ib_active := None \<rparr>)
      | KConnect _ \<Rightarrow>
          ib_bind (ib_call (sp_disconnect P))
            (\<lambda>_ s1. bounded_step_report P clk ok opid budget started 1 (DPending wait_backend_timer)
               (ib_on_active (\<lambda>a. a\<lparr> ia_cancel_submitted := True \<rparr>) s1)) s
      | _ \<Rightarrow> bounded_step_report P clk ok opid budget started 1 DCancelled (s\<lparr> ib_active := None \<rparr>))"

text \<open>The start phase: \<open>None\<close> when there is nothing to submit.  An error of the port leaves the operation
  active, and its phase is already \<open>PhReady\<close>; only the last phase clears it.\<close>

definition inc_start_phase ::
  "('p, 'r) sport \<Rightarrow> (nat \<Rightarrow> u64) \<Rightarrow> admits \<Rightarrow> opid \<Rightarrow> work_budget \<Rightarrow> u64
    \<Rightarrow> ('p, 'r, work_report option) inc_call" where
  "inc_start_phase P clk ok opid budget started s =
     (let s1 = ib_on_active (\<lambda>a. a\<lparr> ia_phase := PhReady \<rparr>) s;
          report = (\<lambda>d s. case bounded_step_report P clk ok opid budget started 1 d s of
                      (Inl e, s2) \<Rightarrow> (Inl e, s2) | (Inr r, s2) \<Rightarrow> (Inr (Some r), s2))
      in case ia_phase (ib_act s) of
           PhReady \<Rightarrow> (Inr None, s1)
         | PhScan \<Rightarrow> ib_bind (ib_call (sp_start_scan P)) (\<lambda>_. report (DPending wait_backend_timer)) s1
         | PhConnectConfigure config \<Rightarrow>
             ib_bind (ib_call (sp_configure P config))
               (\<lambda>_ s2. report (DPending {}) (ib_on_active (\<lambda>a. a\<lparr> ia_phase := PhConnectSubmit \<rparr>) s2)) s1
         | PhConnectSubmit \<Rightarrow> ib_bind (ib_call (sp_connect P)) (\<lambda>_. report (DPending wait_backend_timer)) s1
         | PhDisconnect \<Rightarrow> ib_bind (ib_call (sp_disconnect P)) (\<lambda>_. report (DPending wait_backend_timer)) s1
         | PhFinishDisconnect \<Rightarrow>
             (if ia_deadline (ib_act s) \<le> started then clear_with_error P (ia_timeout_error (ib_act s1)) s1
              else ib_bind (ib_clearing P (ib_call (sp_finish_disconnect P)))
                     (\<lambda>_ s2. report (DComplete CDisconnected) (s2\<lparr> ib_active := None \<rparr>)) s1))"

text \<open>The event loop: \<open>room\<close> is what is left of the event budget, \<open>n\<close> the events consumed so far.\<close>

fun inc_events :: "('p, 'r) sport \<Rightarrow> (nat \<Rightarrow> u64) \<Rightarrow> nat \<Rightarrow> nat \<Rightarrow> ('p, 'r, outcome \<times> nat) inc_call" where
  "inc_events P clk 0 n s = (Inr (OContinue, n), s)"
| "inc_events P clk (Suc room) n s =
     (case ib_call (sp_next_event P) s of
        (Inl e, s1) \<Rightarrow> (Inl e, s1)
      | (Inr None, s1) \<Rightarrow> (Inr (OContinue, n), s1)
      | (Inr (Some event), s1) \<Rightarrow>
         (case ib_now clk s1 of
            (now_us, s2) \<Rightarrow>
             (case ia_observe (ne_kind event) (ne_status event) (ib_act s2) of
                (outc, a) \<Rightarrow>
                  let s3 = s2\<lparr> ib_active := Some (observe_reconnect_disconnect (ne_kind event) now_us a) \<rparr>
                  in if outc = OContinue then inc_events P clk room (n + 1) s3
                     else (Inr (outc, n + 1), s3))))"

text \<open>Copying scan results into the caller's buffer.\<close>

fun inc_copy :: "('p, 'r) sport \<Rightarrow> nat \<Rightarrow> nat \<Rightarrow> ('p, 'r) incb \<Rightarrow> nat \<times> ('p, 'r) incb" where
  "inc_copy P 0 n s = (n, s)"
| "inc_copy P (Suc room) n s =
     (let a = ib_act s
      in case ia_scan_total a of
           None \<Rightarrow> (n, s)
         | Some tot \<Rightarrow>
             (if tot \<le> ia_scan_seen a then (n, s)
              else let b = a\<lparr> ia_scan_seen := ia_scan_seen a + 1 \<rparr>
                   in inc_copy P room (n + 1)
                        (case sp_scan_result P (ia_scan_seen a) (ib_port s) of
                           Some r \<Rightarrow>
                             (if ia_scan_written b < length (ib_out s)
                              then s\<lparr> ib_out := (ib_out s)[ia_scan_written b := r],
                                      ib_active := Some (b\<lparr> ia_scan_written := ia_scan_written b + 1 \<rparr>) \<rparr>
                              else s\<lparr> ib_active := Some (b\<lparr> ia_scan_truncated := True \<rparr>) \<rparr>)
                         | None \<Rightarrow> s\<lparr> ib_active := Some (b\<lparr> ia_scan_truncated := True \<rparr>) \<rparr>)))"

definition inc_scan_done :: "outcome \<times> nat \<times> bool \<Rightarrow> active \<Rightarrow> outcome \<times> nat \<times> bool" where
  "inc_scan_done v a =
     (if ia_scan_total a = Some (ia_scan_seen a)
      then (OComplete (CScan (ia_scan_written a) (ia_scan_truncated a \<or> ia_scan_written a < ia_scan_seen a)), fst (snd v), True)
      else v)"

definition inc_scan_part ::
  "('p, 'r) sport \<Rightarrow> work_budget \<Rightarrow> outcome \<times> nat \<times> bool \<Rightarrow> ('p, 'r, outcome \<times> nat \<times> bool) inc_call" where
  "inc_scan_part P budget v s0 =
     (if ia_kind (ib_act s0) \<noteq> KScan \<or> fst v \<noteq> OContinue then (Inr v, s0)
      else ib_bind (ib_clearing P (ib_call (sp_poll_scan P)))
        (\<lambda>tot s1.
           case ib_call (sp_scan_cache_pending P)
                  (case tot of None \<Rightarrow> s1 | Some t \<Rightarrow> ib_on_active (\<lambda>a. a\<lparr> ia_scan_total := Some t \<rparr>) s1) of
             (pending, s2) \<Rightarrow>
               (if pending then (Inr v, s2)
                else if ia_cancel (ib_act s2) then (Inr (inc_scan_done (OCancelled, fst (snd v), True) (ib_act s2)), s2)
                else (case inc_copy P (unat (wb_events budget) - fst (snd v)) (fst (snd v)) s2 of
                        (n, s3) \<Rightarrow> (Inr (inc_scan_done (OContinue, n, snd (snd v) \<or> fst (snd v) < n) (ib_act s3)), s3)))) s0)"

definition inc_reconnect_submit ::
  "('p, 'r) sport \<Rightarrow> (nat \<Rightarrow> u64) \<Rightarrow> outcome \<times> nat \<times> bool \<Rightarrow> bool \<Rightarrow> ('p, 'r, outcome \<times> nat \<times> bool) inc_call" where
  "inc_reconnect_submit P clk v take1 s2 =
     (case ib_call (sp_recovery_word P) s2 of (recovery, s3) \<Rightarrow>
      case ib_call (sp_external_auth_stalled P) s3 of (stalled, s4) \<Rightarrow>
      case ib_now clk s4 of (now2, s5) \<Rightarrow>
      case should_submit_first_eapol_reconnect recovery now2 (ib_act s5) of (first, a2) \<Rightarrow>
      case should_submit_external_auth_reconnect stalled now2 a2 of (ext, a3) \<Rightarrow>
        (if first \<or> ext
         then ib_bind (ib_clearing P (ib_call (sp_disconnect P)))
                (\<lambda>_ s6. (Inr (OContinue, fst (snd v), True),
                   (ib_on_active (\<lambda>a. a\<lparr> ia_reconnect := True \<rparr>) s6)
                     \<lparr> ib_eapol_reconnects := ib_eapol_reconnects s6 + (if first then 1 else 0),
                       ib_auth_reconnects := ib_auth_reconnects s6 + (if ext then 1 else 0) \<rparr>))
                (s5\<lparr> ib_active := Some a3 \<rparr>)
         else (Inr (OContinue, fst (snd v), snd (snd v) \<or> take1), s5\<lparr> ib_active := Some a3 \<rparr>)))"

definition inc_reconnect_part ::
  "('p, 'r) sport \<Rightarrow> (nat \<Rightarrow> u64) \<Rightarrow> outcome \<times> nat \<times> bool \<Rightarrow> ('p, 'r, outcome \<times> nat \<times> bool) inc_call" where
  "inc_reconnect_part P clk v s0 =
     (if fst v \<noteq> OContinue then (Inr v, s0)
      else
        (case ib_now clk s0 of
           (now1, s1) \<Rightarrow>
             (case take_reconnect_when_settled now1 (ib_act s1) of
                (take1, a1) \<Rightarrow>
                  ib_bind (\<lambda>s. if take1 then ib_clearing P (ib_call (sp_connect P)) s else (Inr (), s))
                    (\<lambda>_. inc_reconnect_submit P clk v take1) (s1\<lparr> ib_active := Some a1 \<rparr>))))"

text \<open>The last look at the scan before its timeout.\<close>

definition inc_late_scan ::
  "('p, 'r) sport \<Rightarrow> (nat \<Rightarrow> u64) \<Rightarrow> u64 \<Rightarrow> outcome \<times> nat \<times> bool
    \<Rightarrow> ('p, 'r, (outcome \<times> nat \<times> bool) \<times> u64) inc_call" where
  "inc_late_scan P clk finished v s0 =
     (if ia_kind (ib_act s0) = KScan \<and> fst v = OContinue \<and> ia_deadline (ib_act s0) \<le> finished
         \<and> ia_scan_total (ib_act s0) = None
      then ib_bind (ib_clearing P (ib_call (sp_poll_scan P)))
        (\<lambda>tot s1.
           case tot of
             None \<Rightarrow> (Inr (v, finished), s1)
           | Some t \<Rightarrow>
              (case ib_now clk (ib_on_active (\<lambda>a. a\<lparr> ia_scan_total := Some t \<rparr>) s1) of
                 (finished1, s2) \<Rightarrow>
                   (if t = 0
                    then (case ib_call (sp_scan_cache_pending P) s2 of
                            (pending, s3) \<Rightarrow>
                              (Inr ((if pending then OContinue else OComplete (CScan 0 False), fst (snd v), True), finished1), s3))
                    else (Inr ((OContinue, fst (snd v), True), finished1), s2)))) s0
      else (Inr (v, finished), s0))"

definition inc_scan_state :: "('p, 'r) sport \<Rightarrow> ('p, 'r) incb \<Rightarrow> (bool \<times> bool) \<times> ('p, 'r) incb" where
  "inc_scan_state P s =
     (if ia_kind (ib_act s) = KScan
      then (case ib_call (sp_scan_cache_pending P) s of
              (pending, s1) \<Rightarrow>
                (case ib_call (sp_scan_cache_completion_observed P) s1 of
                   (observed, s2) \<Rightarrow>
                     let a = ib_act s2
                     in ((ia_scan_total a \<noteq> None \<or> observed,
                          observed \<or> pending \<or> (case ia_scan_total a of None \<Rightarrow> False | Some t \<Rightarrow> ia_scan_seen a < t)), s2)))
      else ((False, False), s))"

definition inc_claim_timeout ::
  "('p, 'r) sport \<Rightarrow> u64 \<Rightarrow> bool \<Rightarrow> outcome \<Rightarrow> ('p, 'r) incb \<Rightarrow> bool \<times> ('p, 'r) incb" where
  "inc_claim_timeout P finished observed outc s =
     (if ia_kind (ib_act s) = KScan \<and> outc = OContinue \<and> ia_deadline (ib_act s) \<le> finished
         \<and> ia_scan_total (ib_act s) = None \<and> \<not> observed
      then ib_call (sp_try_claim_scan_timeout P) s
      else (False, s))"

definition inc_timed_out :: "u64 \<Rightarrow> bool \<Rightarrow> outcome \<Rightarrow> active \<Rightarrow> bool" where
  "inc_timed_out finished claimed outc a \<longleftrightarrow>
     ia_deadline a \<le> finished \<and> outc = OContinue \<and>
     \<not> (ia_kind a = KScan \<and> (ia_scan_total a \<noteq> None \<or> \<not> claimed))"

definition inc_timeout ::
  "('p, 'r) sport \<Rightarrow> ('p, 'r, 'a) inc_call" where
  "inc_timeout P s0 =
     (case ib_call (sp_context_word P) s0 of (w1, s1) \<Rightarrow>
      case ib_call (sp_driver_word P) s1 of (w2, s2) \<Rightarrow>
      case ib_call (sp_match_word P) s2 of (w3, s3) \<Rightarrow>
        clear_with_error P
          (with_trace TkBackendStatus w3 (with_trace TkDriverContext w2
            (with_trace TkSupplicantContext w1 (ia_timeout_error (ib_act s0))))) s3)"

definition inc_conclude ::
  "('p, 'r) sport \<Rightarrow> admits \<Rightarrow> opid \<Rightarrow> work_budget \<Rightarrow> u32 \<Rightarrow> bool \<Rightarrow> u64 \<Rightarrow> outcome \<times> nat \<times> bool
    \<Rightarrow> ('p, 'r, work_report) inc_call" where
  "inc_conclude P ok opid budget output_pending scan_pending elapsed v s0 =
     (case ib_call (sp_input_pending P) s0 of
        (input_pending, s) \<Rightarrow>
          let n = fst (snd v);
              full = (n = unat (wb_events budget));
              wait = (if snd (snd v) \<and> (scan_pending \<or> input_pending \<or> (output_pending \<noteq> 0 \<and> full)) then {} else wait_backend_timer);
              finish = (\<lambda>d. if ok opid budget (word_of_nat n) (ucast elapsed) (snd (snd v)) d
                            then (Inr \<lparr> wr_id = opid, wr_events = word_of_nat n, wr_elapsed_us = ucast elapsed,
                                        wr_progress = snd (snd v), wr_disposition = d \<rparr>,
                                  if fst v \<noteq> OContinue then s\<lparr> ib_active := None \<rparr> else s)
                            else clear_with_error P (operation_error ERROR_WORK_BUDGET) s)
          in case fst v of
               OComplete c \<Rightarrow> finish (DComplete c)
             | OCancelled \<Rightarrow> finish DCancelled
             | OFailed status \<Rightarrow>
                 clear_with_error P (with_trace TkVendorStatus (word_of_int status)
                   (staged_error EcConnect (word_of_int status) StConnect)) s
             | OContinue \<Rightarrow>
                 finish (if full \<or> ucast (wb_time_us budget) \<le> elapsed then DBudgetExhausted wait else DPending wait))"

definition inc_deadlines ::
  "('p, 'r) sport \<Rightarrow> admits \<Rightarrow> opid \<Rightarrow> work_budget \<Rightarrow> poll_result \<Rightarrow> u64 \<Rightarrow> (outcome \<times> nat \<times> bool) \<times> u64
    \<Rightarrow> ('p, 'r, work_report) inc_call" where
  "inc_deadlines P ok opid budget result started vf s0 =
     (let v = fst vf; finished = snd vf; elapsed = finished - started
      in if 0xffffffff < elapsed then clear_with_error P (operation_error ERROR_WORK_BUDGET) s0
         else (case inc_scan_state P s0 of
                 ((observed, scan_pending), s1) \<Rightarrow>
                   (case inc_claim_timeout P finished observed (fst v) s1 of
                      (claimed, s2) \<Rightarrow>
                        let s3 = ib_on_active (\<lambda>a. a\<lparr> ia_backend_deadline :=
                              (if pr_next_deadline_ms result \<noteq> - 1 then Some (sat_mul (pr_next_deadline_ms result) 1000) else None) \<rparr>) s2
                        in if inc_timed_out finished claimed (fst v) (ib_act s3) then inc_timeout P s3
                           else inc_conclude P ok opid budget (pr_output_pending result) scan_pending elapsed v s3)))"

text \<open>After the start phase: native poll, events, scan, reconnects, deadlines.\<close>

definition inc_work ::
  "('p, 'r) sport \<Rightarrow> (nat \<Rightarrow> u64) \<Rightarrow> admits \<Rightarrow> opid \<Rightarrow> work_budget \<Rightarrow> u64 \<Rightarrow> ('p, 'r, work_report) inc_call" where
  "inc_work P clk ok opid budget started =
     ib_bind (ib_clearing P (ib_call (sp_poll P (ucast (wb_events budget)))))
       (\<lambda>result s1.
          if ucast (wb_events budget) < pr_work_completed result
          then clear_with_error P (operation_error ERROR_WORK_BUDGET) s1
          else
            let n0 = unat (pr_work_completed result)
            in ib_bind (ib_clearing P (inc_events P clk (if pr_output_pending result = 0 then 0 else unat (wb_events budget) - n0) n0))
                 (\<lambda>(outc, n) s2.
                    if outc = OComplete CDisconnected
                    then bounded_step_report P clk ok opid budget started (word_of_nat n) (DPending {})
                           (ib_on_active (\<lambda>a. a\<lparr> ia_phase := PhFinishDisconnect \<rparr>) s2)
                    else
                      ib_bind (inc_scan_part P budget (outc, n, n \<noteq> 0))
                        (\<lambda>v. ib_bind (inc_reconnect_part P clk v)
                           (\<lambda>v s3. case ib_now clk s3 of
                              (finished, s4) \<Rightarrow>
                                ib_bind (inc_late_scan P clk finished v)
                                  (inc_deadlines P ok opid budget result started) s4)) s2) s1)"

definition inc_poll ::
  "('p, 'r) sport \<Rightarrow> (nat \<Rightarrow> u64) \<Rightarrow> admits \<Rightarrow> opid \<Rightarrow> work_budget \<Rightarrow> ('p, 'r, work_report) inc_call" where
  "inc_poll P clk ok opid budget s0 =
     (case ib_now clk s0 of
        (started, s) \<Rightarrow>
         (case ib_active s of
            None \<Rightarrow> (Inl (operation_error ERROR_STALE_OPERATION), s)
          | Some a \<Rightarrow>
             (if ia_id a \<noteq> opid then (Inl (operation_error ERROR_STALE_OPERATION), s)
              else if ia_kind a = KInitialize
              then let d = (if ia_cancel a then DCancelled else DComplete CInitialized)
                   in (if ok opid budget 0 0 True d
                       then Inr \<lparr> wr_id = opid, wr_events = 0, wr_elapsed_us = 0, wr_progress = True, wr_disposition = d \<rparr>
                       else Inl (operation_error ERROR_WORK_BUDGET), s\<lparr> ib_active := None \<rparr>)
              else if ia_cancel a \<and> ia_phase a \<noteq> PhReady
              then bounded_step_report P clk ok opid budget started 0 DCancelled (s\<lparr> ib_active := None \<rparr>)
              else if ia_cancel a \<and> \<not> ia_cancel_submitted a
              then inc_cancel_action P clk ok opid budget started s
              else ib_bind (inc_start_phase P clk ok opid budget started)
                     (\<lambda>r. case r of Some report \<Rightarrow> (\<lambda>s1. (Inr report, s1))
                        | None \<Rightarrow> inc_work P clk ok opid budget started) s)))"

section \<open>Runs\<close>

text \<open>The caller passes the same scan buffer to every poll of an operation.  The source's budgets are
  \<open>NonZeroU16\<close> events: there is no poll with a budget of none.\<close>

datatype 'r inc_op = IStart opid inc_request "'r list" | IPoll opid work_budget | ICancel opid

definition inc_init :: "'p \<Rightarrow> ('p, 'r) incb" where
  "inc_init p = \<lparr> ib_port = p, ib_ticks = 0, ib_active = None, ib_out = [], ib_eapol_reconnects = 0, ib_auth_reconnects = 0 \<rparr>"

fun inc_step :: "('p, 'r) sport \<Rightarrow> (nat \<Rightarrow> u64) \<Rightarrow> admits \<Rightarrow> 'r inc_op \<Rightarrow> ('p, 'r) incb \<Rightarrow> ('p, 'r) incb" where
  "inc_step P clk ok (IStart opid request out) s =
     snd (inc_start clk opid request (if ib_active s = None then s\<lparr> ib_out := out \<rparr> else s))"
| "inc_step P clk ok (IPoll opid budget) s =
     (if wb_events budget = 0 then s else snd (inc_poll P clk ok opid budget s))"
| "inc_step P clk ok (ICancel opid) s = snd (inc_cancel opid s)"

definition inc_run :: "('p, 'r) sport \<Rightarrow> (nat \<Rightarrow> u64) \<Rightarrow> admits \<Rightarrow> 'r inc_op list \<Rightarrow> ('p, 'r) incb \<Rightarrow> ('p, 'r) incb" where
  "inc_run P clk ok ops s = fold (inc_step P clk ok) ops s"

text \<open>What a finished scan promises: the results the port had, in order, as far as the buffer reaches.\<close>

definition scan_exact :: "(nat \<Rightarrow> 'r option) \<Rightarrow> nat \<Rightarrow> 'r list \<Rightarrow> nat \<Rightarrow> bool \<Rightarrow> bool" where
  "scan_exact f tot out n trunc \<longleftrightarrow>
     (let found = somes (map f [0..<tot])
      in n = min (length found) (length out) \<and> take n out = take n found \<and> (trunc \<longleftrightarrow> n < tot))"

text \<open>A world in which the port reports \<open>fst w\<close> results, the \<open>i\<close>-th being \<open>snd w i\<close>.\<close>

type_synonym 'r scan_world = "nat \<times> (nat \<Rightarrow> 'r option)"

definition steady_port :: "('p, 'r) sport \<Rightarrow> 'r scan_world \<Rightarrow> bool" where
  "steady_port P w \<longleftrightarrow> (\<forall>i p. sp_scan_result P i p = snd w i) \<and>
     (\<forall>p t p'. sp_poll_scan P p = (Inr (Some t), p') \<longrightarrow> t = fst w)"

definition scan_ok :: "bool \<Rightarrow> 'r scan_world \<Rightarrow> active \<Rightarrow> 'r list \<Rightarrow> bool" where
  "scan_ok steady f a out \<longleftrightarrow>
     (steady \<longrightarrow> scan_exact (snd f) (ia_scan_seen a) out (ia_scan_written a) (ia_scan_truncated a)
        \<and> (ia_scan_total a = None \<or> ia_scan_total a = Some (fst f))) \<and>
     (ia_scan_total a = None \<longrightarrow> ia_scan_seen a = 0)"

definition act_inv :: "active \<Rightarrow> bool" where
  "act_inv a \<longleftrightarrow> (ia_kind a = KScan \<longrightarrow> \<not> ia_cancel_submitted a) \<and>
     (ia_phase a = PhFinishDisconnect \<longrightarrow> ia_kind a = KDisconnect)"

text \<open>What a poll keeps of the operation \<open>a0\<close> it found, and of the two reconnect counters.\<close>

definition counted :: "bool \<Rightarrow> bool \<Rightarrow> u32 \<Rightarrow> u32 \<Rightarrow> bool" where
  "counted before now c x \<longleftrightarrow> (if before then now \<and> x = c else x = (if now then c + 1 else c))"

definition counted_gone :: "bool \<Rightarrow> u32 \<Rightarrow> u32 \<Rightarrow> bool" where
  "counted_gone before c x \<longleftrightarrow> x = c \<or> (\<not> before \<and> x = c + 1)"

definition inc_rel :: "bool \<Rightarrow> 'r scan_world \<Rightarrow> active \<Rightarrow> u32 \<Rightarrow> u32 \<Rightarrow> ('p, 'r) incb \<Rightarrow> bool" where
  "inc_rel steady f a0 c d s \<longleftrightarrow>
     (case ib_active s of
        None \<Rightarrow> False
      | Some a \<Rightarrow> ia_id a = ia_id a0 \<and> ia_kind a = ia_kind a0 \<and> ia_cancel a = ia_cancel a0 \<and> act_inv a
          \<and> scan_ok steady f a (ib_out s)
          \<and> counted (ia_eapol_submitted a0) (ia_eapol_submitted a) c (ib_eapol_reconnects s)
          \<and> counted (ia_auth_submitted a0) (ia_auth_submitted a) d (ib_auth_reconnects s))"

definition inc_gone :: "active \<Rightarrow> u32 \<Rightarrow> u32 \<Rightarrow> ('p, 'r) incb \<Rightarrow> bool" where
  "inc_gone a0 c d s \<longleftrightarrow> ib_active s = None
     \<and> counted_gone (ia_eapol_submitted a0) c (ib_eapol_reconnects s)
     \<and> counted_gone (ia_auth_submitted a0) d (ib_auth_reconnects s)"

fun completes :: "bool \<Rightarrow> 'r scan_world \<Rightarrow> operation_kind \<Rightarrow> 'r list \<Rightarrow> completion \<Rightarrow> bool" where
  "completes steady f kind out CInitialized = (kind = KInitialize)"
| "completes steady f kind out (CScan n trunc) = (kind = KScan \<and> (steady \<longrightarrow> scan_exact (snd f) (fst f) out n trunc))"
| "completes steady f kind out (CConnected info) = (kind = KConnect info)"
| "completes steady f kind out CDisconnected = (kind = KDisconnect)"

definition outcome_ok :: "bool \<Rightarrow> 'r scan_world \<Rightarrow> active \<Rightarrow> 'r list \<Rightarrow> outcome \<Rightarrow> bool" where
  "outcome_ok steady f a0 out v \<longleftrightarrow>
     (case v of
        OComplete c \<Rightarrow> \<not> ia_cancel a0 \<and> completes steady f (ia_kind a0) out c
      | OCancelled \<Rightarrow> ia_cancel a0
      | _ \<Rightarrow> True)"

definition report_ok ::
  "bool \<Rightarrow> 'r scan_world \<Rightarrow> active \<Rightarrow> u32 \<Rightarrow> u32 \<Rightarrow> work_budget \<Rightarrow> work_report \<Rightarrow> ('p, 'r) incb \<Rightarrow> bool" where
  "report_ok steady f a0 c d budget r s \<longleftrightarrow>
     wr_id r = ia_id a0 \<and> wr_events r \<le> wb_events budget \<and>
     (case wr_disposition r of
        DComplete k \<Rightarrow> inc_gone a0 c d s \<and> \<not> ia_cancel a0 \<and> completes steady f (ia_kind a0) (ib_out s) k
      | DCancelled \<Rightarrow> inc_gone a0 c d s \<and> ia_cancel a0
      | _ \<Rightarrow> inc_rel steady f a0 c d s)"

definition ipost :: "(backend_error + 'a) \<times> 's \<Rightarrow> ('a \<Rightarrow> 's \<Rightarrow> bool) \<Rightarrow> ('s \<Rightarrow> bool) \<Rightarrow> bool" where
  "ipost r Q E \<longleftrightarrow> (case r of (Inl e, s) \<Rightarrow> E s | (Inr x, s) \<Rightarrow> Q x s)"

section \<open>What a poll keeps\<close>

lemma ipost_Inr [simp]: "ipost (Inr x, s) Q E = Q x s"
  and ipost_Inl [simp]: "ipost (Inl e, s) Q E = E s"
  by (simp_all add: ipost_def)

lemma ipost_bind:
  assumes "ipost (m s) Q E" and "\<And>x s'. Q x s' \<Longrightarrow> ipost (f x s') R E"
  shows "ipost (ib_bind m f s) R E"
proof -
  obtain r s' where m: "m s = (r, s')" by (cases "m s")
  show ?thesis
  proof (cases r)
    case (Inl e)
    then show ?thesis using assms(1) m by (simp add: ib_bind_def)
  next
    case (Inr x)
    then have "ipost (f x s') R E" using assms m by simp
    then show ?thesis using Inr m by (simp add: ib_bind_def)
  qed
qed

lemma ipost_weaken:
  assumes "ipost r Q E" and "\<And>x s. Q x s \<Longrightarrow> Q' x s" and "\<And>s. E s \<Longrightarrow> E' s"
  shows "ipost r Q' E'"
  using assms by (auto simp: ipost_def split: prod.splits sum.splits)

lemma ib_now_eq [simp]: "ib_now clk s = (clk (ib_ticks s), s\<lparr> ib_ticks := ib_ticks s + 1 \<rparr>)"
  by (simp add: ib_now_def)

lemma ib_call_eq: "ib_call f s = (fst (f (ib_port s)), s\<lparr> ib_port := snd (f (ib_port s)) \<rparr>)"
  by (simp add: ib_call_def split: prod.splits)

lemma inc_rel_frame [simp]:
  "inc_rel st f a0 c d (s\<lparr> ib_port := p \<rparr>) = inc_rel st f a0 c d s"
  "inc_rel st f a0 c d (s\<lparr> ib_ticks := t \<rparr>) = inc_rel st f a0 c d s"
  by (simp_all add: inc_rel_def split: option.split)

lemma inc_gone_frame [simp]:
  "inc_gone a0 c d (s\<lparr> ib_port := p \<rparr>) = inc_gone a0 c d s"
  "inc_gone a0 c d (s\<lparr> ib_ticks := t \<rparr>) = inc_gone a0 c d s"
  by (simp_all add: inc_gone_def)

lemma inc_rel_active: "inc_rel st f a0 c d s \<Longrightarrow> \<exists>a. ib_active s = Some a"
  by (auto simp: inc_rel_def split: option.splits)

lemma counted_goneI: "counted b now c x \<Longrightarrow> counted_gone b c x"
  by (auto simp: counted_def counted_gone_def split: if_splits)

lemma inc_rel_gone: "inc_rel st f a0 c d s \<Longrightarrow> inc_gone a0 c d (s\<lparr> ib_active := None \<rparr>)"
  by (auto simp: inc_rel_def inc_gone_def split: option.splits dest: counted_goneI)

text \<open>Whatever cleared the operation, the counters still bound the reconnects.\<close>

lemma clear_with_error_gone:
  assumes "inc_gone a0 c d (s\<lparr> ib_active := None \<rparr>)"
  shows "ipost (clear_with_error P e s) Q (inc_gone a0 c d)"
  using assms by (auto simp: clear_with_error_def Let_def inc_gone_def)

lemma ipost_clearing:
  assumes "ipost (m s) Q (\<lambda>s. inc_gone a0 c d (s\<lparr> ib_active := None \<rparr>))"
  shows "ipost (ib_clearing P m s) Q (inc_gone a0 c d)"
proof -
  obtain r s' where m: "m s = (r, s')" by (cases "m s")
  show ?thesis
  proof (cases r)
    case (Inl e)
    then show ?thesis using assms m by (simp add: ib_clearing_def clear_with_error_gone)
  next
    case (Inr x)
    then show ?thesis using assms m by (simp add: ib_clearing_def)
  qed
qed

lemma ipost_call:
  assumes "inc_rel st f a0 c d s"
  shows "ipost (ib_call g s) (\<lambda>x s. inc_rel st f a0 c d s \<and> (\<exists>p p'. g p = (Inr x, p')))
    (\<lambda>s. inc_gone a0 c d (s\<lparr> ib_active := None \<rparr>))"
  using assms inc_rel_gone[OF assms] by (cases "g (ib_port s)") (auto simp: ib_call_eq ipost_def inc_gone_def split: sum.splits)

lemma ipost_clearing_call:
  assumes "inc_rel st f a0 c d s"
    and "\<And>x s'. inc_rel st f a0 c d s' \<Longrightarrow> \<exists>p p'. g p = (Inr x, p') \<Longrightarrow> ipost (h x s') R (inc_gone a0 c d)"
  shows "ipost (ib_bind (ib_clearing P (ib_call g)) h s) R (inc_gone a0 c d)"
proof (rule ipost_bind)
  show "ipost (ib_clearing P (ib_call g) s) (\<lambda>x s. inc_rel st f a0 c d s \<and> (\<exists>p p'. g p = (Inr x, p'))) (inc_gone a0 c d)"
    by (rule ipost_clearing) (rule ipost_call[OF assms(1)])
qed (use assms(2) in blast)

lemma inc_gone_none: "inc_gone a0 c d s \<Longrightarrow> inc_gone a0 c d (s\<lparr> ib_active := None \<rparr>)"
  by (simp add: inc_gone_def)

lemma inc_rel_on_active:
  assumes "inc_rel st f a0 c d s" and "ib_active s = Some a"
    and "ia_id (g a) = ia_id a" "ia_kind (g a) = ia_kind a" "ia_cancel (g a) = ia_cancel a"
    and "ia_eapol_submitted (g a) = ia_eapol_submitted a" "ia_auth_submitted (g a) = ia_auth_submitted a"
    and "act_inv a \<Longrightarrow> act_inv (g a)"
    and "scan_ok st f a (ib_out s) \<Longrightarrow> scan_ok st f (g a) (ib_out s)"
  shows "inc_rel st f a0 c d (ib_on_active g s)"
  using assms by (simp add: inc_rel_def ib_on_active_def)

lemma bounded_report:
  assumes "opid = ia_id a0" and "events \<le> wb_events budget"
    and "case disp of
           DComplete k \<Rightarrow> inc_gone a0 c d s \<and> \<not> ia_cancel a0 \<and> completes st f (ia_kind a0) (ib_out s) k
         | DCancelled \<Rightarrow> inc_gone a0 c d s \<and> ia_cancel a0
         | _ \<Rightarrow> inc_rel st f a0 c d s"
  shows "ipost (bounded_step_report P clk ok opid budget started events disp s)
           (report_ok st f a0 c d budget) (inc_gone a0 c d)"
proof -
  have gone: "inc_gone a0 c d (s\<lparr> ib_active := None \<rparr>)"
    using assms(3) by (cases disp) (simp_all add: inc_rel_gone inc_gone_none)
  then have gone1: "inc_gone a0 c d (s\<lparr> ib_ticks := t, ib_active := None \<rparr>)" for t
    by (simp add: inc_gone_def)
  show ?thesis
    unfolding bounded_step_report_def Let_def ib_now_eq prod.case
    using assms by (cases disp) (simp_all add: report_ok_def clear_with_error_gone[OF gone1])
qed

lemma ia_observe_keeps:
  assumes "ia_observe k v a = (outc, b)"
  shows "ia_id b = ia_id a \<and> ia_kind b = ia_kind a \<and> ia_cancel b = ia_cancel a
    \<and> ia_eapol_submitted b = ia_eapol_submitted a \<and> ia_auth_submitted b = ia_auth_submitted a
    \<and> (act_inv a \<longrightarrow> act_inv b) \<and> (scan_ok st f a out \<longrightarrow> scan_ok st f b out)
    \<and> outcome_ok st f a out outc"
  using assms unfolding ia_observe_def Let_def
  by (auto simp: act_inv_def scan_ok_def outcome_ok_def split: operation_kind.splits connect_event.splits if_splits)

lemma observe_reconnect_keeps:
  "ia_id (observe_reconnect_disconnect k t a) = ia_id a \<and> ia_kind (observe_reconnect_disconnect k t a) = ia_kind a
    \<and> ia_cancel (observe_reconnect_disconnect k t a) = ia_cancel a
    \<and> ia_eapol_submitted (observe_reconnect_disconnect k t a) = ia_eapol_submitted a
    \<and> ia_auth_submitted (observe_reconnect_disconnect k t a) = ia_auth_submitted a
    \<and> (act_inv a \<longrightarrow> act_inv (observe_reconnect_disconnect k t a))
    \<and> (scan_ok st f a out \<longrightarrow> scan_ok st f (observe_reconnect_disconnect k t a) out)"
  by (simp add: observe_reconnect_disconnect_def act_inv_def scan_ok_def)

lemma outcome_ok_cong:
  "ia_cancel a = ia_cancel b \<Longrightarrow> ia_kind a = ia_kind b \<Longrightarrow> outcome_ok st f a out v = outcome_ok st f b out v"
  by (simp add: outcome_ok_def split: outcome.split)

lemma outcome_ok_Continue [simp]: "outcome_ok st f a0 out OContinue"
  by (simp add: outcome_ok_def)

lemma inc_events_post:
  assumes "inc_rel st f a0 c d s" and "n + room \<le> N"
  shows "ipost (inc_events P clk room n s)
           (\<lambda>(outc, n') s'. inc_rel st f a0 c d s' \<and> n' \<le> N \<and> outcome_ok st f a0 (ib_out s') outc
              \<and> (\<forall>k tr. outc \<noteq> OComplete (CScan k tr)))
           (\<lambda>s. inc_gone a0 c d (s\<lparr> ib_active := None \<rparr>))"
  using assms
proof (induction room arbitrary: n s)
  case 0
  then show ?case by simp
next
  case (Suc room)
  obtain r p where r: "sp_next_event P (ib_port s) = (r, p)" by (cases "sp_next_event P (ib_port s)")
  note gone = inc_rel_gone[OF Suc.prems(1)]
  show ?case
  proof (cases r)
    case (Inl e)
    then show ?thesis using r gone by (simp add: ib_call_eq inc_gone_def)
  next
    case (Inr eo)
    show ?thesis
    proof (cases eo)
      case None
      then show ?thesis using r Inr Suc.prems by (simp add: ib_call_eq)
    next
      case (Some ev)
      define s2 where "s2 = s\<lparr> ib_port := p, ib_ticks := ib_ticks s + 1 \<rparr>"
      obtain a where a: "ib_active s = Some a" using inc_rel_active[OF Suc.prems(1)] by blast
      obtain outc b where ob: "ia_observe (ne_kind ev) (ne_status ev) a = (outc, b)"
        by (cases "ia_observe (ne_kind ev) (ne_status ev) a")
      define s3 where "s3 = s2\<lparr> ib_active := Some (observe_reconnect_disconnect (ne_kind ev) (clk (ib_ticks s)) b) \<rparr>"
      have same: "ia_kind a = ia_kind a0" "ia_cancel a = ia_cancel a0"
        using Suc.prems(1) a by (simp_all add: inc_rel_def)
      have rel: "inc_rel st f a0 c d s3"
        using Suc.prems(1) a ia_observe_keeps[OF ob, of st f "ib_out s"]
          observe_reconnect_keeps[of "ne_kind ev" "clk (ib_ticks s)" b st f "ib_out s"]
        by (simp add: s3_def s2_def inc_rel_def)
      have ok: "outcome_ok st f a0 (ib_out s) outc"
        using ia_observe_keeps[OF ob, of st f "ib_out s"] outcome_ok_cong[OF same(2,1)] by blast
      have ns: "outc \<noteq> OComplete (CScan k tr)" for k tr
        using ob by (auto simp: ia_observe_def Let_def split: operation_kind.splits connect_event.splits if_splits)
      have step: "inc_events P clk (Suc room) n s =
          (if outc = OContinue then inc_events P clk room (n + 1) s3 else (Inr (outc, n + 1), s3))"
        using r Inr Some a ob by (simp add: ib_call_eq s3_def s2_def)
      have N: "n + 1 \<le> N" "n + 1 + room \<le> N" using Suc.prems(2) by simp_all
      show ?thesis
      proof (cases "outc = OContinue")
        case True
        then show ?thesis unfolding step using Suc.IH[OF rel N(2)] by simp
      next
        case False
        moreover have "ib_out s3 = ib_out s" by (simp add: s3_def s2_def)
        ultimately show ?thesis unfolding step using rel ok N(1) ns by simp
      qed
    qed
  qed
qed

lemma scan_exact_0 [simp]: "scan_exact f 0 out 0 False"
  by (simp add: scan_exact_def somes_def)

lemma length_found: "length (somes (map f [0..<k])) \<le> k"
  using length_filter_le[of _ "map f [0..<k]"] by (simp add: length_somes occupied_def)

lemma found_Suc:
  "somes (map f [0..<Suc k]) = somes (map f [0..<k]) @ (case f k of None \<Rightarrow> [] | Some r \<Rightarrow> [r])"
  by (simp split: option.split)

lemma scan_exact_iff:
  "scan_exact f k out w tr \<longleftrightarrow>
     w = min (length (somes (map f [0..<k]))) (length out) \<and> take w out = take w (somes (map f [0..<k])) \<and> (tr \<longleftrightarrow> w < k)"
  by (simp add: scan_exact_def Let_def)

lemma scan_exact_write:
  assumes e: "scan_exact f k out w tr" and fk: "f k = Some r" and w: "w < length out"
  shows "scan_exact f (Suc k) (out[w := r]) (Suc w) tr"
proof -
  define found where "found = somes (map f [0..<k])"
  have e1: "w = min (length found) (length out)" "take w out = take w found" and tr: "tr \<longleftrightarrow> w < k"
    using e unfolding scan_exact_iff found_def by blast+
  have n: "w = length found" using e1(1) w by linarith
  have pre: "take w out = found" using e1(2) n by simp
  have "take (Suc w) (out[w := r]) = found @ [r]"
    using w pre by (simp add: take_Suc_conv_app_nth)
  then show ?thesis
    unfolding scan_exact_iff found_Suc using n w tr by (simp add: fk found_def[symmetric])
qed

lemma scan_exact_full:
  assumes e: "scan_exact f k out w tr" and w: "f k = None \<or> \<not> w < length out"
  shows "scan_exact f (Suc k) out w True"
proof -
  define found where "found = somes (map f [0..<k])"
  have n: "w = min (length found) (length out)" and pre: "take w out = take w found"
    using e unfolding scan_exact_iff found_def by blast+
  have le: "w \<le> length found" "length found \<le> k"
    using n length_found[of f k] by (simp_all add: found_def)
  show ?thesis
  proof (cases "f k")
    case None
    then show ?thesis
      unfolding scan_exact_iff found_Suc using n pre le by (simp add: found_def[symmetric])
  next
    case (Some r)
    have "w = length out" using w Some n by (simp add: min_def split: if_splits)
    moreover have "take w (found @ [r]) = take w found" using le by simp
    ultimately show ?thesis
      unfolding scan_exact_iff found_Suc using pre le by (simp add: Some found_def[symmetric])
  qed
qed

lemma steady_total: "steady_port P w \<Longrightarrow> \<exists>p p'. sp_poll_scan P p = (Inr (Some t), p') \<Longrightarrow> t = fst w"
  unfolding steady_port_def by blast

lemma inc_copy_post:
  assumes "inc_rel st f a0 c d s" and "st \<Longrightarrow> steady_port P f"
    and "inc_copy P room n s = (n', s')"
  shows "inc_rel st f a0 c d s' \<and> n' \<le> n + room"
  using assms(1,3)
proof (induction room arbitrary: n s)
  case 0
  then show ?case by simp
next
  case (Suc room)
  obtain a where a: "ib_active s = Some a" using inc_rel_active[OF Suc.prems(1)] by blast
  show ?case
  proof (cases "\<exists>tot. ia_scan_total a = Some tot \<and> ia_scan_seen a < tot")
    case False
    then show ?thesis using Suc.prems a by (auto simp: Let_def split: option.splits)
  next
    case True
    define w where "w = ia_scan_written a"
    define k where "k = ia_scan_seen a"
    define res where "res = sp_scan_result P k (ib_port s)"
    define s1 where "s1 = (case res of
        Some r \<Rightarrow> (if w < length (ib_out s)
          then s\<lparr> ib_out := (ib_out s)[w := r], ib_active := Some (a\<lparr> ia_scan_seen := k + 1, ia_scan_written := w + 1 \<rparr>) \<rparr>
          else s\<lparr> ib_active := Some (a\<lparr> ia_scan_seen := k + 1, ia_scan_truncated := True \<rparr>) \<rparr>)
      | None \<Rightarrow> s\<lparr> ib_active := Some (a\<lparr> ia_scan_seen := k + 1, ia_scan_truncated := True \<rparr>) \<rparr>)"
    have step: "inc_copy P (Suc room) n s = inc_copy P room (n + 1) s1"
      using True a by (auto simp: Let_def s1_def res_def k_def w_def split: option.splits)
    have res: "st \<Longrightarrow> snd f k = res" using assms(2) by (simp add: res_def steady_port_def)
    have ex: "st \<Longrightarrow> scan_exact (snd f) k (ib_out s) w (ia_scan_truncated a)"
      using Suc.prems(1) a by (simp add: inc_rel_def scan_ok_def k_def w_def)
    have "inc_rel st f a0 c d s1"
    proof (cases "\<exists>r. res = Some r \<and> w < length (ib_out s)")
      case full: True
      then obtain r where r: "res = Some r" "w < length (ib_out s)" by blast
      have "st \<Longrightarrow> scan_exact (snd f) (Suc k) ((ib_out s)[w := r]) (Suc w) (ia_scan_truncated a)"
        using scan_exact_write ex res r by metis
      then show ?thesis
        using Suc.prems(1) a True r by (auto simp: inc_rel_def s1_def act_inv_def scan_ok_def)
    next
      case nofit: False
      have s1: "s1 = s\<lparr> ib_active := Some (a\<lparr> ia_scan_seen := k + 1, ia_scan_truncated := True \<rparr>) \<rparr>"
        using nofit by (auto simp: s1_def split: option.splits)
      have "st \<Longrightarrow> scan_exact (snd f) (Suc k) (ib_out s) w True"
        using scan_exact_full[OF ex] res nofit by (cases res) auto
      then show ?thesis
        using Suc.prems(1) a True by (auto simp: inc_rel_def s1 act_inv_def scan_ok_def w_def)
    qed
    then show ?thesis using Suc.IH[of s1 "n + 1"] Suc.prems(2) unfolding step by simp
  qed
qed

text \<open>The value the parts of a poll hand on: outcome, events consumed, progress.\<close>

definition inc_mid ::
  "bool \<Rightarrow> 'r scan_world \<Rightarrow> active \<Rightarrow> u32 \<Rightarrow> u32 \<Rightarrow> nat \<Rightarrow> outcome \<times> nat \<times> bool \<Rightarrow> ('p, 'r) incb \<Rightarrow> bool" where
  "inc_mid st f a0 c d N v s \<longleftrightarrow>
     inc_rel st f a0 c d s \<and> outcome_ok st f a0 (ib_out s) (fst v) \<and> fst (snd v) \<le> N"

lemma inc_mid_frame [simp]:
  "inc_mid st f a0 c d N v (s\<lparr> ib_port := p \<rparr>) = inc_mid st f a0 c d N v s"
  "inc_mid st f a0 c d N v (s\<lparr> ib_ticks := t \<rparr>) = inc_mid st f a0 c d N v s"
  by (simp_all add: inc_mid_def)

lemma inc_rel_scan_total:
  assumes "inc_rel st f a0 c d s" and "st \<Longrightarrow> t = fst f"
  shows "inc_rel st f a0 c d (ib_on_active (\<lambda>a. a\<lparr> ia_scan_total := Some t \<rparr>) s)"
  using inc_rel_active[OF assms(1)] assms by (auto simp: inc_rel_def ib_on_active_def act_inv_def scan_ok_def)

lemma ib_on_active_out [simp]: "ib_out (ib_on_active g s) = ib_out s"
  by (simp add: ib_on_active_def)

lemma inc_scan_done_mid:
  assumes "inc_mid st f a0 c d N v s" and "ia_kind a0 = KScan" and "\<not> ia_cancel a0"
  shows "inc_mid st f a0 c d N (inc_scan_done v (ib_act s)) s"
proof -
  obtain a where a: "ib_active s = Some a" using assms(1) inc_rel_active unfolding inc_mid_def by blast
  have ex: "st \<Longrightarrow> scan_exact (snd f) (ia_scan_seen a) (ib_out s) (ia_scan_written a) (ia_scan_truncated a)"
    and tot: "st \<Longrightarrow> ia_scan_total a = None \<or> ia_scan_total a = Some (fst f)"
    using assms(1) a by (simp_all add: inc_mid_def inc_rel_def scan_ok_def)
  have "st \<Longrightarrow> (ia_scan_truncated a \<or> ia_scan_written a < ia_scan_seen a) = ia_scan_truncated a"
    using ex by (auto simp: scan_exact_iff)
  then have "st \<Longrightarrow> ia_scan_total a = Some (ia_scan_seen a) \<Longrightarrow>
      scan_exact (snd f) (fst f) (ib_out s) (ia_scan_written a) (ia_scan_truncated a \<or> ia_scan_written a < ia_scan_seen a)"
    using ex tot by auto
  then show ?thesis
    using assms a by (auto simp: inc_scan_done_def inc_mid_def outcome_ok_def)
qed

lemma inc_scan_part_post:
  assumes mid: "inc_mid st f a0 c d (unat (wb_events budget)) v s"
    and sr: "st \<Longrightarrow> steady_port P f" and nc: "ia_kind a0 = KScan \<Longrightarrow> \<not> ia_cancel a0"
  shows "ipost (inc_scan_part P budget v s) (inc_mid st f a0 c d (unat (wb_events budget))) (inc_gone a0 c d)"
proof (cases "ia_kind (ib_act s) \<noteq> KScan \<or> fst v \<noteq> OContinue")
  case True
  then show ?thesis using mid by (simp add: inc_scan_part_def)
next
  case False
  have rel: "inc_rel st f a0 c d s" and n: "fst (snd v) \<le> unat (wb_events budget)"
    using mid by (simp_all add: inc_mid_def)
  obtain a where a: "ib_active s = Some a" using inc_rel_active[OF rel] by blast
  have kind: "ia_kind a0 = KScan" using False rel a by (simp add: inc_rel_def)
  have nca: "\<not> ia_cancel a0" using nc kind by simp
  define rest where "rest = (\<lambda>tot s1.
           case ib_call (sp_scan_cache_pending P)
                  (case tot of None \<Rightarrow> s1 | Some t \<Rightarrow> ib_on_active (\<lambda>a. a\<lparr> ia_scan_total := Some t \<rparr>) s1) of
             (pending, s2) \<Rightarrow>
               (if pending then (Inr v, s2)
                else if ia_cancel (ib_act s2) then (Inr (inc_scan_done (OCancelled, fst (snd v), True) (ib_act s2)), s2)
                else (case inc_copy P (unat (wb_events budget) - fst (snd v)) (fst (snd v)) s2 of
                        (n, s3) \<Rightarrow> (Inr (inc_scan_done (OContinue, n, snd (snd v) \<or> fst (snd v) < n) (ib_act s3)) :: backend_error + _, s3))))"
  have "ipost (rest tot s1) (inc_mid st f a0 c d (unat (wb_events budget))) (inc_gone a0 c d)"
    if r1: "inc_rel st f a0 c d s1" and tot: "\<exists>p p'. sp_poll_scan P p = (Inr tot, p')" for tot s1
  proof -
    define s2 where "s2 = (case tot of None \<Rightarrow> s1 | Some t \<Rightarrow> ib_on_active (\<lambda>a. a\<lparr> ia_scan_total := Some t \<rparr>) s1)"
    obtain pending p where c2: "ib_call (sp_scan_cache_pending P) s2 = (pending, s2\<lparr> ib_port := p \<rparr>)"
      by (simp add: ib_call_eq)
    have r2: "inc_rel st f a0 c d (s2\<lparr> ib_port := p \<rparr>)"
      using r1 tot sr steady_total[of P f] by (cases tot) (auto simp: s2_def intro!: inc_rel_scan_total)
    obtain b where b: "ib_active (s2\<lparr> ib_port := p \<rparr>) = Some b" using inc_rel_active[OF r2] by blast
    then have nb: "\<not> ia_cancel b" using r2 nca by (simp add: inc_rel_def)
    obtain m s3 where cp: "inc_copy P (unat (wb_events budget) - fst (snd v)) (fst (snd v)) (s2\<lparr> ib_port := p \<rparr>) = (m, s3)"
      by (cases "inc_copy P (unat (wb_events budget) - fst (snd v)) (fst (snd v)) (s2\<lparr> ib_port := p \<rparr>)")
    have r3: "inc_rel st f a0 c d s3 \<and> m \<le> unat (wb_events budget)"
      using inc_copy_post[OF r2 sr cp] n by simp
    have e: "rest tot s1 = (if pending then (Inr v, s2\<lparr> ib_port := p \<rparr>)
        else (Inr (inc_scan_done (OContinue, m, snd (snd v) \<or> fst (snd v) < m) (ib_act s3)), s3))"
      using b nb by (simp add: rest_def s2_def[symmetric] c2 cp)
    show ?thesis
    proof (cases pending)
      case True
      then show ?thesis unfolding e using r2 n False by (simp add: inc_mid_def outcome_ok_def)
    next
      case np: False
      have "inc_mid st f a0 c d (unat (wb_events budget)) (OContinue, m, snd (snd v) \<or> fst (snd v) < m) s3"
        using r3 by (simp add: inc_mid_def)
      from inc_scan_done_mid[OF this kind nca] show ?thesis unfolding e using np by simp
    qed
  qed
  then show ?thesis
    using False unfolding inc_scan_part_def rest_def[symmetric] by (simp add: ipost_clearing_call[OF rel])
qed

definition same_op :: "active \<Rightarrow> active \<Rightarrow> bool" where
  "same_op a b \<longleftrightarrow> ia_id b = ia_id a \<and> ia_kind b = ia_kind a \<and> ia_cancel b = ia_cancel a \<and> ia_phase b = ia_phase a
     \<and> ia_cancel_submitted b = ia_cancel_submitted a \<and> ia_scan_total b = ia_scan_total a
     \<and> ia_scan_seen b = ia_scan_seen a \<and> ia_scan_written b = ia_scan_written a \<and> ia_scan_truncated b = ia_scan_truncated a"

lemma take_reconnect_same:
  "take_reconnect_when_settled t a = (b, a') \<Longrightarrow> same_op a a' \<and> ia_eapol_submitted a' = ia_eapol_submitted a
     \<and> ia_auth_submitted a' = ia_auth_submitted a"
  by (auto simp: take_reconnect_when_settled_def same_op_def split: option.splits if_splits)

lemma first_eapol_same:
  "should_submit_first_eapol_reconnect w t a = (b, a') \<Longrightarrow> same_op a a'
     \<and> ia_auth_submitted a' = ia_auth_submitted a
     \<and> ia_eapol_submitted a' = (b \<or> ia_eapol_submitted a) \<and> (b \<longrightarrow> \<not> ia_eapol_submitted a)"
  by (auto simp: should_submit_first_eapol_reconnect_def same_op_def Let_def split: option.splits if_splits)

lemma external_auth_same:
  "should_submit_external_auth_reconnect w t a = (b, a') \<Longrightarrow> same_op a a'
     \<and> ia_eapol_submitted a' = ia_eapol_submitted a
     \<and> ia_auth_submitted a' = (b \<or> ia_auth_submitted a) \<and> (b \<longrightarrow> \<not> ia_auth_submitted a)"
  by (auto simp: should_submit_external_auth_reconnect_def same_op_def Let_def split: option.splits if_splits)

lemma same_op_trans: "same_op a b \<Longrightarrow> same_op b x \<Longrightarrow> same_op a x"
  by (simp add: same_op_def)

lemma inc_rel_same:
  assumes "inc_rel st f a0 c d s" and "ib_active s = Some a" and "same_op a b"
    and "ib_active s' = Some b" and "ib_out s' = ib_out s"
    and "ia_eapol_submitted b = (b1 \<or> ia_eapol_submitted a)" "b1 \<longrightarrow> \<not> ia_eapol_submitted a"
    and "ia_auth_submitted b = (b2 \<or> ia_auth_submitted a)" "b2 \<longrightarrow> \<not> ia_auth_submitted a"
    and "ib_eapol_reconnects s' = ib_eapol_reconnects s + (if b1 then 1 else 0)"
    and "ib_auth_reconnects s' = ib_auth_reconnects s + (if b2 then 1 else 0)"
  shows "inc_rel st f a0 c d s'"
proof -
  have "act_inv b" "scan_ok st f b (ib_out s')"
    using assms(1-5) by (auto simp: inc_rel_def same_op_def act_inv_def scan_ok_def)
  moreover have "counted (ia_eapol_submitted a0) (ia_eapol_submitted b) c (ib_eapol_reconnects s')"
    using assms(1,2,6,7,10) by (cases b1) (auto simp: inc_rel_def counted_def split: if_splits)
  moreover have "counted (ia_auth_submitted a0) (ia_auth_submitted b) d (ib_auth_reconnects s')"
    using assms(1,2,8,9,11) by (cases b2) (auto simp: inc_rel_def counted_def split: if_splits)
  ultimately show ?thesis
    using assms(1-4) by (simp add: inc_rel_def same_op_def)
qed

lemma inc_reconnect_submit_post:
  fixes s :: "('p, 'r) incb"
  assumes rel: "inc_rel st f a0 c d s" and n: "fst (snd v) \<le> N"
  shows "ipost (inc_reconnect_submit P clk v take1 s) (inc_mid st f a0 c d N) (inc_gone a0 c d)"
proof -
  obtain a where a: "ib_active s = Some a" using inc_rel_active[OF rel] by blast
  obtain w p1 where w: "sp_recovery_word P (ib_port s) = (w, p1)" by (cases "sp_recovery_word P (ib_port s)")
  obtain x p2 where x: "sp_external_auth_stalled P p1 = (x, p2)" by (cases "sp_external_auth_stalled P p1")
  define s5 where "s5 = s\<lparr> ib_port := p2, ib_ticks := ib_ticks s + 1 \<rparr>"
  define t where "t = clk (ib_ticks s)"
  obtain b1 a2 where one: "should_submit_first_eapol_reconnect w t a = (b1, a2)"
    by (cases "should_submit_first_eapol_reconnect w t a")
  obtain b2 a3 where two: "should_submit_external_auth_reconnect x t a2 = (b2, a3)"
    by (cases "should_submit_external_auth_reconnect x t a2")
  define fin where "fin = (\<lambda>s6 :: ('p, 'r) incb. (ib_on_active (\<lambda>a. a\<lparr> ia_reconnect := True \<rparr>) s6)
      \<lparr> ib_eapol_reconnects := ib_eapol_reconnects s6 + (if b1 then 1 else 0),
        ib_auth_reconnects := ib_auth_reconnects s6 + (if b2 then 1 else 0) \<rparr>)"
  have same: "same_op a a3" "ia_eapol_submitted a3 = (b1 \<or> ia_eapol_submitted a)" "b1 \<longrightarrow> \<not> ia_eapol_submitted a"
      "ia_auth_submitted a3 = (b2 \<or> ia_auth_submitted a)" "b2 \<longrightarrow> \<not> ia_auth_submitted a"
    using first_eapol_same[OF one] external_auth_same[OF two] same_op_trans by auto
  have e: "inc_reconnect_submit P clk v take1 s =
      (if b1 \<or> b2
       then ib_bind (ib_clearing P (ib_call (sp_disconnect P))) (\<lambda>_ s6. (Inr (OContinue, fst (snd v), True), fin s6))
              (s5\<lparr> ib_active := Some a3 \<rparr>)
       else (Inr (OContinue, fst (snd v), snd (snd v) \<or> take1), s5\<lparr> ib_active := Some a3 \<rparr>))"
    using w x a one two by (simp add: inc_reconnect_submit_def ib_call_eq s5_def t_def fin_def)
  show ?thesis
  proof (cases "b1 \<or> b2")
    case False
    have "inc_rel st f a0 c d (s5\<lparr> ib_active := Some a3 \<rparr>)"
      by (rule inc_rel_same[OF rel a same(1) _ _ same(2-5)]) (use False in \<open>simp_all add: s5_def\<close>)
    then show ?thesis unfolding e using False n by (simp add: inc_mid_def)
  next
    case True
    have gone: "inc_gone a0 c d (s5\<lparr> ib_port := p, ib_active := None \<rparr>)" for p
      using inc_rel_gone[OF rel] by (simp add: inc_gone_def s5_def)
    define s6 where "s6 = s5\<lparr> ib_active := Some a3 \<rparr>"
    have "ipost (ib_clearing P (ib_call (sp_disconnect P)) s6)
        (\<lambda>_ s7. \<exists>p. s7 = s6\<lparr> ib_port := p \<rparr>) (inc_gone a0 c d)"
    proof (rule ipost_clearing)
      show "ipost (ib_call (sp_disconnect P) s6) (\<lambda>_ s7. \<exists>p. s7 = s6\<lparr> ib_port := p \<rparr>)
          (\<lambda>s. inc_gone a0 c d (s\<lparr> ib_active := None \<rparr>))"
        using gone by (auto simp: ib_call_eq ipost_def s6_def inc_gone_def split: sum.splits)
    qed
    moreover have "inc_mid st f a0 c d N (OContinue, fst (snd v), True) (fin (s6\<lparr> ib_port := p \<rparr>))" for p
    proof -
      have "inc_rel st f a0 c d (fin (s6\<lparr> ib_port := p \<rparr>))"
        by (rule inc_rel_same[OF rel a, of "a3\<lparr> ia_reconnect := True \<rparr>" _ b1 b2])
          (use same in \<open>simp_all add: fin_def s6_def s5_def ib_on_active_def same_op_def\<close>)
      then show ?thesis using n by (simp add: inc_mid_def)
    qed
    ultimately show ?thesis
      unfolding e s6_def[symmetric] using True by (auto intro!: ipost_bind)
  qed
qed

lemma inc_reconnect_part_post:
  assumes mid: "inc_mid st f a0 c d N v s"
  shows "ipost (inc_reconnect_part P clk v s) (inc_mid st f a0 c d N) (inc_gone a0 c d)"
proof (cases "fst v = OContinue")
  case False
  then show ?thesis using mid by (simp add: inc_reconnect_part_def)
next
  case True
  have rel: "inc_rel st f a0 c d s" and n: "fst (snd v) \<le> N" using mid by (simp_all add: inc_mid_def)
  obtain a where a: "ib_active s = Some a" using inc_rel_active[OF rel] by blast
  obtain b a1 where t: "take_reconnect_when_settled (clk (ib_ticks s)) a = (b, a1)"
    by (cases "take_reconnect_when_settled (clk (ib_ticks s)) a")
  define s1 where "s1 = s\<lparr> ib_ticks := ib_ticks s + 1, ib_active := Some a1 \<rparr>"
  have r1: "inc_rel st f a0 c d s1"
    by (rule inc_rel_same[OF rel a, of a1 _ False False])
      (use take_reconnect_same[OF t] in \<open>simp_all add: s1_def\<close>)
  have e: "inc_reconnect_part P clk v s =
      ib_bind (\<lambda>s. if b then ib_clearing P (ib_call (sp_connect P)) s else (Inr (), s))
        (\<lambda>_. inc_reconnect_submit P clk v b) s1"
    using True a t by (simp add: inc_reconnect_part_def s1_def)
  show ?thesis
  proof (cases b)
    case True
    then show ?thesis
      unfolding e using ipost_clearing_call[OF r1 inc_reconnect_submit_post[OF _ n]] by (simp add: ib_bind_def)
  next
    case False
    then show ?thesis unfolding e using inc_reconnect_submit_post[OF r1 n] by (simp add: ib_bind_def)
  qed
qed

lemma inc_late_scan_post:
  assumes mid: "inc_mid st f a0 c d N v s" and sr: "st \<Longrightarrow> steady_port P f" and nc: "ia_kind a0 = KScan \<Longrightarrow> \<not> ia_cancel a0"
  shows "ipost (inc_late_scan P clk finished v s) (\<lambda>vf. inc_mid st f a0 c d N (fst vf)) (inc_gone a0 c d)"
proof (cases "ia_kind (ib_act s) = KScan \<and> fst v = OContinue \<and> ia_deadline (ib_act s) \<le> finished
    \<and> ia_scan_total (ib_act s) = None")
  case False
  show ?thesis unfolding inc_late_scan_def if_not_P[OF False] using mid by simp
next
  case True
  have rel: "inc_rel st f a0 c d s" and n: "fst (snd v) \<le> N" using mid by (simp_all add: inc_mid_def)
  obtain a where a: "ib_active s = Some a" using inc_rel_active[OF rel] by blast
  have kind: "ia_kind a0 = KScan" using True rel a by (simp add: inc_rel_def)
  have m1: "inc_mid st f a0 c d N v s1" if "inc_rel st f a0 c d s1" for s1
    using that n True by (simp add: inc_mid_def)
  show ?thesis
    unfolding inc_late_scan_def if_P[OF True]
  proof (rule ipost_clearing_call[OF rel], goal_cases)
    case (1 tot s1)
    show ?case
    proof (cases tot)
      case None
      then show ?thesis using m1[OF 1(1)] by simp
    next
      case (Some t)
      then have t: "st \<Longrightarrow> t = fst f" using 1(2) sr steady_total[of P f] by blast
      have r2: "inc_rel st f a0 c d (ib_on_active (\<lambda>a. a\<lparr> ia_scan_total := Some t \<rparr>) s1)"
        by (rule inc_rel_scan_total[OF 1(1) t])
      have zero: "st \<Longrightarrow> t = 0 \<Longrightarrow> scan_exact (snd f) (fst f) (ib_out s1) 0 False"
        using t scan_exact_0[of "snd f"] by auto
      show ?thesis
        using Some n nc[OF kind] kind zero r2 by (auto simp: ib_call_eq inc_mid_def outcome_ok_def)
    qed
  qed
qed

lemma ib_call_rel:
  "ib_call g s = (x, s') \<Longrightarrow> ib_active s' = ib_active s \<and> ib_out s' = ib_out s
     \<and> inc_mid st f a0 c d N v s' = inc_mid st f a0 c d N v s"
  by (auto simp: ib_call_eq)

lemma inc_scan_state_mid:
  assumes "inc_scan_state P s = (x, s')"
  shows "ib_active s' = ib_active s \<and> inc_mid st f a0 c d N v s' = inc_mid st f a0 c d N v s"
  using assms by (auto simp: inc_scan_state_def ib_call_eq Let_def split: if_splits)

lemma inc_claim_timeout_mid:
  assumes "inc_claim_timeout P t o1 v1 s = (x, s')"
  shows "ib_active s' = ib_active s \<and> inc_mid st f a0 c d N v s' = inc_mid st f a0 c d N v s"
  using assms by (auto simp: inc_claim_timeout_def ib_call_eq split: if_splits)

lemma inc_mid_gone: "inc_mid st f a0 c d N v s \<Longrightarrow> inc_gone a0 c d (s\<lparr> ib_active := None \<rparr>)"
  unfolding inc_mid_def using inc_rel_gone by blast

lemma inc_timeout_post:
  assumes "inc_mid st f a0 c d N v s"
  shows "ipost (inc_timeout P s) Q (inc_gone a0 c d)"
  unfolding inc_timeout_def ib_call_eq prod.case
  by (rule clear_with_error_gone) (use inc_mid_gone[OF assms] in \<open>simp add: inc_gone_def\<close>)

lemma unat_events: "unat (ucast (x :: u16) :: u32) = unat x"
proof -
  have "unat x < 2 ^ 16" using unsigned_less[of x, where 'a = nat] by simp
  then show ?thesis by (simp add: unsigned_ucast_eq take_bit_nat_eq_self)
qed

lemma consumed_fits: "n \<le> unat x \<Longrightarrow> word_of_nat n \<le> x"
  unfolding word_le_nat_alt unat_of_nat by (rule le_trans[OF mod_less_eq_dividend])

lemma inc_conclude_post:
  assumes mid: "inc_mid st f a0 c d (unat (wb_events budget)) v s" and opid: "opid = ia_id a0"
  shows "ipost (inc_conclude P ok opid budget op sp el v s) (report_ok st f a0 c d budget) (inc_gone a0 c d)"
proof -
  obtain x p where ip: "ib_call (sp_input_pending P) s = (x, s\<lparr> ib_port := p \<rparr>)" by (simp add: ib_call_eq)
  define s1 where "s1 = s\<lparr> ib_port := p \<rparr>"
  have m: "inc_mid st f a0 c d (unat (wb_events budget)) v s1" using mid by (simp add: s1_def)
  have gone: "inc_gone a0 c d (s1\<lparr> ib_active := None \<rparr>)" using inc_mid_gone[OF m] .
  have n: "word_of_nat (fst (snd v)) \<le> wb_events budget"
    using m unfolding inc_mid_def by (blast intro: consumed_fits)
  obtain outc n1 pr where v: "v = (outc, n1, pr)" by (cases v)
  have ok: "outcome_ok st f a0 (ib_out s1) outc" and rel: "inc_rel st f a0 c d s1"
    using m v by (simp_all add: inc_mid_def)
  show ?thesis
    unfolding inc_conclude_def ip prod.case s1_def[symmetric]
    using clear_with_error_gone[OF gone] gone n ok rel opid
    by (cases outc) (auto simp: v Let_def report_ok_def outcome_ok_def)
qed

lemma inc_deadlines_post:
  assumes mid: "inc_mid st f a0 c d (unat (wb_events budget)) (fst vf) s" and opid: "opid = ia_id a0"
  shows "ipost (inc_deadlines P ok opid budget result started vf s) (report_ok st f a0 c d budget) (inc_gone a0 c d)"
proof -
  obtain ob sp s1 where s1: "inc_scan_state P s = ((ob, sp), s1)" by (metis surj_pair)
  obtain cl s2 where s2: "inc_claim_timeout P (snd vf) ob (fst (fst vf)) s1 = (cl, s2)" by (metis surj_pair)
  define bd where "bd = (if pr_next_deadline_ms result \<noteq> - 1 then Some (sat_mul (pr_next_deadline_ms result) 1000) else None)"
  define s3 where "s3 = ib_on_active (\<lambda>a. a\<lparr> ia_backend_deadline := bd \<rparr>) s2"
  have m2: "inc_mid st f a0 c d (unat (wb_events budget)) (fst vf) s2"
    using mid inc_scan_state_mid[OF s1] inc_claim_timeout_mid[OF s2] by metis
  then have "inc_rel st f a0 c d s3"
    using inc_rel_active[of st f a0 c d s2]
    by (auto simp: inc_mid_def s3_def inc_rel_def ib_on_active_def act_inv_def scan_ok_def)
  then have m3: "inc_mid st f a0 c d (unat (wb_events budget)) (fst vf) s3"
    using m2 by (simp add: inc_mid_def s3_def)
  show ?thesis
    unfolding inc_deadlines_def Let_def s1 s2 prod.case bd_def[symmetric] s3_def[symmetric]
    by (simp add: clear_with_error_gone[OF inc_mid_gone[OF mid]] inc_timeout_post[OF m3] inc_conclude_post[OF m3 opid])
qed

lemma inc_work_post:
  assumes rel: "inc_rel st f a0 c d s" and opid: "opid = ia_id a0"
    and sr: "st \<Longrightarrow> steady_port P f" and nc: "ia_kind a0 = KScan \<Longrightarrow> \<not> ia_cancel a0"
  shows "ipost (inc_work P clk ok opid budget started s) (report_ok st f a0 c d budget) (inc_gone a0 c d)"
  unfolding inc_work_def
proof (rule ipost_clearing_call[OF rel], goal_cases)
  case (1 result s1)
  note r1 = 1(1)
  define N where "N = unat (wb_events budget)"
  show ?case
  proof (cases "ucast (wb_events budget) < pr_work_completed result")
    case True
    then show ?thesis by (simp add: clear_with_error_gone[OF inc_rel_gone[OF r1]])
  next
    case False
    define n0 where "n0 = unat (pr_work_completed result)"
    have n0: "n0 \<le> N"
      using False by (simp add: n0_def N_def word_le_nat_alt not_less unat_events)
    show ?thesis
      unfolding if_not_P[OF False] Let_def n0_def[symmetric]
    proof (rule ipost_bind, rule ipost_clearing, rule inc_events_post[OF r1, where N = N], goal_cases)
      case 1
      then show ?case using n0 by (simp add: N_def[symmetric])
    next
      case (2 x s2)
      obtain outc n where x: "x = (outc, n)" by (cases x)
      have r2: "inc_rel st f a0 c d s2" and n: "n \<le> N" and ok: "outcome_ok st f a0 (ib_out s2) outc"
        using 2 x by simp_all
      have mid: "inc_mid st f a0 c d N (outc, n, n \<noteq> 0) s2" using r2 n ok by (simp add: inc_mid_def)
      show ?case
      proof (cases "outc = OComplete CDisconnected")
        case True
        obtain a where a: "ib_active s2 = Some a" using inc_rel_active[OF r2] by blast
        have k: "ia_kind a = KDisconnect" "\<not> ia_cancel a"
          using ok True r2 a by (auto simp: outcome_ok_def inc_rel_def)
        have "inc_rel st f a0 c d (ib_on_active (\<lambda>a. a\<lparr> ia_phase := PhFinishDisconnect \<rparr>) s2)"
          using r2 a k by (simp add: inc_rel_def ib_on_active_def act_inv_def scan_ok_def)
        moreover have "word_of_nat n \<le> wb_events budget"
          using n unfolding N_def by (rule consumed_fits)
        ultimately show ?thesis
          using True by (simp add: x bounded_report[OF opid])
      next
        case False
        have "ipost (ib_bind (inc_scan_part P budget (outc, n, n \<noteq> 0))
                        (\<lambda>v. ib_bind (inc_reconnect_part P clk v)
                           (\<lambda>v s3. case ib_now clk s3 of
                              (finished, s4) \<Rightarrow>
                                ib_bind (inc_late_scan P clk finished v)
                                  (inc_deadlines P ok opid budget result started) s4)) s2)
            (report_ok st f a0 c d budget) (inc_gone a0 c d)"
        proof (rule ipost_bind, rule inc_scan_part_post[OF mid[unfolded N_def] sr nc], assumption, assumption,
            rule ipost_bind, erule inc_reconnect_part_post, goal_cases)
          case (1 v s3 v1 s4)
          then show ?case
            by (auto intro!: ipost_bind[OF inc_late_scan_post] inc_deadlines_post simp: nc sr opid)
        qed
        then show ?thesis using False by (simp add: x)
      qed
    qed
  qed
qed

lemma inc_rel_refl:
  assumes "ib_active s = Some a0" and "act_inv a0" and "scan_ok st f a0 (ib_out s)"
  shows "inc_rel st f a0 (ib_eapol_reconnects s) (ib_auth_reconnects s) s"
  using assms by (simp add: inc_rel_def counted_def)

lemma inc_rel_phase:
  assumes "inc_rel st f a0 c d s" and "ph \<noteq> PhFinishDisconnect"
  shows "inc_rel st f a0 c d (ib_on_active (\<lambda>a. a\<lparr> ia_phase := ph \<rparr>) s)"
  using inc_rel_active[OF assms(1)] assms by (auto simp: inc_rel_def ib_on_active_def act_inv_def scan_ok_def)

lemma ipost_call_keep:
  assumes "inc_rel st f a0 c d s"
    and "\<And>x s'. inc_rel st f a0 c d s' \<Longrightarrow> ipost (h x s') R (\<lambda>s. inc_gone a0 c d s \<or> inc_rel st f a0 c d s)"
  shows "ipost (ib_bind (ib_call g) h s) R (\<lambda>s. inc_gone a0 c d s \<or> inc_rel st f a0 c d s)"
proof (rule ipost_bind[where Q = "\<lambda>_. inc_rel st f a0 c d"])
  show "ipost (ib_call g s) (\<lambda>_. inc_rel st f a0 c d) (\<lambda>s. inc_gone a0 c d s \<or> inc_rel st f a0 c d s)"
    using assms(1) by (simp add: ib_call_eq ipost_def split: sum.split)
qed (rule assms(2))

lemma bounded_report_keep:
  assumes "opid = ia_id a0" and "events \<le> wb_events budget" and "inc_rel st f a0 c d s"
  shows "ipost (bounded_step_report P clk ok opid budget started events (DPending w) s)
           (report_ok st f a0 c d budget) (\<lambda>s. inc_gone a0 c d s \<or> inc_rel st f a0 c d s)"
  by (rule ipost_weaken[OF bounded_report[OF assms(1,2), where disp = "DPending w"]]) (use assms(3) in auto)

lemma inc_cancel_action_post:
  assumes rel: "inc_rel st f a0 c d s" and opid: "opid = ia_id a0" and b: "1 \<le> wb_events budget"
    and cancel: "ia_cancel a0"
  shows "ipost (inc_cancel_action P clk ok opid budget started s) (report_ok st f a0 c d budget)
           (\<lambda>s. inc_gone a0 c d s \<or> inc_rel st f a0 c d s)"
proof -
  obtain a where a: "ib_active s = Some a" using inc_rel_active[OF rel] by blast
  have quit: "ipost (bounded_step_report P clk ok opid budget started 1 DCancelled s1) (report_ok st f a0 c d budget)
           (\<lambda>s. inc_gone a0 c d s \<or> inc_rel st f a0 c d s)"
    if "inc_gone a0 c d s1" for s1
    by (rule ipost_weaken[OF bounded_report[OF opid b]]) (use that cancel in auto)
  have gone: "inc_gone a0 c d (s\<lparr> ib_port := p, ib_active := None \<rparr>)" "inc_gone a0 c d (s\<lparr> ib_active := None \<rparr>)" for p
    using inc_rel_gone[OF rel] by (simp_all add: inc_gone_def)
  have sub: "inc_rel st f a0 c d (ib_on_active (\<lambda>a. a\<lparr> ia_cancel_submitted := True \<rparr>) s1)"
    if "inc_rel st f a0 c d s1" "ia_kind a = KConnect i" for s1 i
    using inc_rel_active[OF that(1)] that a rel
    by (auto simp: inc_rel_def ib_on_active_def act_inv_def scan_ok_def)
  show ?thesis
  proof (cases "ia_kind a")
    case (KConnect i)
    then show ?thesis
      using a by (auto simp: inc_cancel_action_def intro!: ipost_call_keep[OF rel] bounded_report_keep[OF opid b] sub)
  qed (use a quit gone in \<open>simp_all add: inc_cancel_action_def\<close>)
qed

lemma inc_start_phase_post:
  fixes s :: "('p, 'r) incb"
  assumes rel: "inc_rel st f a0 c d s" and opid: "opid = ia_id a0" and b: "1 \<le> wb_events budget"
    and nc: "ia_phase (ib_act s) = PhFinishDisconnect \<Longrightarrow> \<not> ia_cancel a0"
  shows "ipost (inc_start_phase P clk ok opid budget started s)
           (\<lambda>r s'. case r of None \<Rightarrow> inc_rel st f a0 c d s' | Some rep \<Rightarrow> report_ok st f a0 c d budget rep s')
           (\<lambda>s. inc_gone a0 c d s \<or> inc_rel st f a0 c d s)"
proof -
  define E where "E = (\<lambda>s :: ('p, 'r) incb. inc_gone a0 c d s \<or> inc_rel st f a0 c d s)"
  define report where "report = (\<lambda>d s. case bounded_step_report P clk ok opid budget started 1 d s of
      (Inl e, s2) \<Rightarrow> (Inl e, s2) | (Inr r, s2) \<Rightarrow> (Inr (Some r), s2))"
  define s1 where "s1 = ib_on_active (\<lambda>a. a\<lparr> ia_phase := PhReady \<rparr>) s"
  have r1: "inc_rel st f a0 c d s1" using rel by (simp add: s1_def inc_rel_phase)
  have lift: "ipost (report dd s2) (\<lambda>r s'. case r of None \<Rightarrow> inc_rel st f a0 c d s' | Some rep \<Rightarrow> report_ok st f a0 c d budget rep s') E"
    if "ipost (bounded_step_report P clk ok opid budget started 1 dd s2) (report_ok st f a0 c d budget) E'"
       "\<And>s. E' s \<Longrightarrow> E s" for dd s2 E'
    using that by (auto simp: report_def ipost_def split: prod.splits sum.splits)
  have pend: "ipost (report (DPending w) s2) (\<lambda>r s'. case r of None \<Rightarrow> inc_rel st f a0 c d s' | Some rep \<Rightarrow> report_ok st f a0 c d budget rep s') E"
    if "inc_rel st f a0 c d s2" for w s2
    using lift[OF bounded_report_keep[OF opid b that]] by (simp add: E_def)
  have fin: "ipost (report (DComplete CDisconnected) (s2\<lparr> ib_active := None \<rparr>))
      (\<lambda>r s'. case r of None \<Rightarrow> inc_rel st f a0 c d s' | Some rep \<Rightarrow> report_ok st f a0 c d budget rep s') (inc_gone a0 c d)"
    if "inc_rel st f a0 c d s2" "ia_phase (ib_act s) = PhFinishDisconnect" for s2
  proof -
    obtain a where a: "ib_active s = Some a" using inc_rel_active[OF rel] by blast
    have "ia_kind a0 = KDisconnect" using that(2) rel a by (auto simp: inc_rel_def act_inv_def)
    then have "ipost (bounded_step_report P clk ok opid budget started 1 (DComplete CDisconnected) (s2\<lparr> ib_active := None \<rparr>))
        (report_ok st f a0 c d budget) (inc_gone a0 c d)"
      using bounded_report[OF opid b, where disp = "DComplete CDisconnected"] inc_rel_gone[OF that(1)] nc[OF that(2)] by simp
    then show ?thesis by (auto simp: report_def ipost_def split: prod.splits sum.splits)
  qed
  have weak: "ipost r Q E" if "ipost r Q (inc_gone a0 c d)" for r and Q :: "work_report option \<Rightarrow> _"
    using that by (rule ipost_weaken) (auto simp: E_def)
  show ?thesis
    unfolding inc_start_phase_def Let_def s1_def[symmetric] report_def[symmetric] E_def[symmetric]
  proof (cases "ia_phase (ib_act s)", goal_cases)
    case 6
    have "ipost (ib_bind (ib_clearing P (ib_call (sp_finish_disconnect P)))
          (\<lambda>_ s2. report (DComplete CDisconnected) (s2\<lparr> ib_active := None \<rparr>)) s1)
        (\<lambda>r s'. case r of None \<Rightarrow> inc_rel st f a0 c d s' | Some rep \<Rightarrow> report_ok st f a0 c d budget rep s') E"
      by (rule weak, rule ipost_clearing_call[OF r1], rule fin[OF _ 6])
    then show ?case
      using 6 weak[OF clear_with_error_gone[OF inc_rel_gone[OF r1]]] by simp
  qed (use r1 in \<open>auto simp: E_def intro!: ipost_call_keep pend[unfolded E_def] inc_rel_phase\<close>)
qed

lemma inc_poll_post:
  fixes s :: "('p, 'r) incb"
  assumes act: "ib_active s = Some a0" and inv: "act_inv a0" "scan_ok st f a0 (ib_out s)"
    and b: "wb_events budget \<noteq> 0" and sr: "st \<Longrightarrow> steady_port P f"
  shows "ipost (inc_poll P clk ok (ia_id a0) budget s)
           (report_ok st f a0 (ib_eapol_reconnects s) (ib_auth_reconnects s) budget)
           (\<lambda>s'. inc_gone a0 (ib_eapol_reconnects s) (ib_auth_reconnects s) s'
              \<or> inc_rel st f a0 (ib_eapol_reconnects s) (ib_auth_reconnects s) s')"
proof -
  define c where "c = ib_eapol_reconnects s"
  define d where "d = ib_auth_reconnects s"
  define s1 where "s1 = s\<lparr> ib_ticks := ib_ticks s + 1 \<rparr>"
  define started where "started = clk (ib_ticks s)"
  define E where "E = (\<lambda>s' :: ('p, 'r) incb. inc_gone a0 c d s' \<or> inc_rel st f a0 c d s')"
  have b1: "1 \<le> wb_events budget" using b by (simp add: word_le_nat_alt) (metis One_nat_def Suc_leI unat_gt_0)
  have rel: "inc_rel st f a0 c d s1"
    using inc_rel_refl[OF act inv] by (simp add: s1_def c_def d_def)
  have gone: "inc_gone a0 c d (s1\<lparr> ib_active := None \<rparr>)" by (rule inc_rel_gone[OF rel])
  have a1: "ib_active s1 = Some a0" using act by (simp add: s1_def)
  have weak: "ipost r Q E" if "ipost r Q (inc_gone a0 c d)" for r and Q :: "work_report \<Rightarrow> _"
    using that by (rule ipost_weaken) (auto simp: E_def)
  have poll: "inc_poll P clk ok (ia_id a0) budget s =
      (if ia_kind a0 = KInitialize
       then let dd = (if ia_cancel a0 then DCancelled else DComplete CInitialized)
            in (if ok (ia_id a0) budget 0 0 True dd
                then Inr \<lparr> wr_id = ia_id a0, wr_events = 0, wr_elapsed_us = 0, wr_progress = True, wr_disposition = dd \<rparr>
                else Inl (operation_error ERROR_WORK_BUDGET), s1\<lparr> ib_active := None \<rparr>)
       else if ia_cancel a0 \<and> ia_phase a0 \<noteq> PhReady
       then bounded_step_report P clk ok (ia_id a0) budget started 0 DCancelled (s1\<lparr> ib_active := None \<rparr>)
       else if ia_cancel a0 \<and> \<not> ia_cancel_submitted a0
       then inc_cancel_action P clk ok (ia_id a0) budget started s1
       else ib_bind (inc_start_phase P clk ok (ia_id a0) budget started)
              (\<lambda>r. case r of Some report \<Rightarrow> (\<lambda>s1. (Inr report, s1))
                 | None \<Rightarrow> inc_work P clk ok (ia_id a0) budget started) s1)"
    using act by (simp add: inc_poll_def s1_def started_def)
  consider (initialize) "ia_kind a0 = KInitialize"
    | (unstarted) "ia_kind a0 \<noteq> KInitialize" "ia_cancel a0 \<and> ia_phase a0 \<noteq> PhReady"
    | (cancel) "ia_kind a0 \<noteq> KInitialize" "\<not> (ia_cancel a0 \<and> ia_phase a0 \<noteq> PhReady)" "ia_cancel a0 \<and> \<not> ia_cancel_submitted a0"
    | (work) "ia_kind a0 \<noteq> KInitialize" "\<not> (ia_cancel a0 \<and> ia_phase a0 \<noteq> PhReady)" "\<not> (ia_cancel a0 \<and> \<not> ia_cancel_submitted a0)"
    by blast
  then have "ipost (inc_poll P clk ok (ia_id a0) budget s) (report_ok st f a0 c d budget) E"
  proof cases
    case initialize
    then show ?thesis using gone by (simp add: poll Let_def E_def report_ok_def)
  next
    case unstarted
    then show ?thesis using weak[OF bounded_report[OF refl, where disp = DCancelled]] gone by (simp add: poll)
  next
    case cancel
    then show ?thesis
      unfolding poll if_not_P[OF cancel(1)] if_not_P[OF cancel(2)] if_P[OF cancel(3)]
      using inc_cancel_action_post[OF rel refl b1] by (simp add: E_def)
  next
    case work
    have nc: "ia_kind a0 = KScan \<Longrightarrow> \<not> ia_cancel a0" using work(3) inv(1) by (auto simp: act_inv_def)
    have nf: "ia_phase (ib_act s1) = PhFinishDisconnect \<Longrightarrow> \<not> ia_cancel a0" using work(2) a1 by auto
    show ?thesis
      unfolding poll if_not_P[OF work(1)] if_not_P[OF work(2)] if_not_P[OF work(3)]
      by (rule ipost_bind, rule inc_start_phase_post[OF rel refl b1 nf, folded E_def], assumption)
        (auto intro!: weak inc_work_post nc sr split: option.splits)
  qed
  then show ?thesis by (simp add: E_def c_def d_def)
qed

definition inc_inv :: "('p, 'r) sport \<Rightarrow> 'r scan_world \<Rightarrow> ('p, 'r) incb \<Rightarrow> bool" where
  "inc_inv P w s \<longleftrightarrow>
     (case ib_active s of None \<Rightarrow> True | Some a \<Rightarrow> act_inv a \<and> scan_ok (steady_port P w) w a (ib_out s))"

lemma inc_rel_inv: "inc_rel (steady_port P w) w a0 c d s \<Longrightarrow> inc_inv P w s"
  by (auto simp: inc_rel_def inc_inv_def split: option.splits)

lemma inc_gone_inv: "inc_gone a0 c d s \<Longrightarrow> inc_inv P w s"
  by (simp add: inc_gone_def inc_inv_def)

lemma report_ok_state:
  "report_ok st f a0 c d budget r s \<Longrightarrow> inc_gone a0 c d s \<or> inc_rel st f a0 c d s"
  by (auto simp: report_ok_def split: disposition.splits)

text \<open>What is left of the operation after a poll: nothing, or the same operation.\<close>

lemma inc_poll_state:
  assumes "ib_active s = Some a" and "inc_inv P w s" and "wb_events budget \<noteq> 0"
  shows "inc_gone a (ib_eapol_reconnects s) (ib_auth_reconnects s) (snd (inc_poll P clk ok (ia_id a) budget s))
    \<or> inc_rel (steady_port P w) w a (ib_eapol_reconnects s) (ib_auth_reconnects s) (snd (inc_poll P clk ok (ia_id a) budget s))"
proof -
  have "act_inv a" "scan_ok (steady_port P w) w a (ib_out s)" using assms by (simp_all add: inc_inv_def)
  from inc_poll_post[OF assms(1) this assms(3), of P clk ok] show ?thesis
    by (cases "inc_poll P clk ok (ia_id a) budget s") (auto simp: ipost_def split: sum.splits dest: report_ok_state)
qed

lemma inc_poll_stale:
  assumes "\<And>a. ib_active s = Some a \<Longrightarrow> ia_id a \<noteq> opid"
  shows "inc_poll P clk ok opid budget s = (Inl (operation_error ERROR_STALE_OPERATION), s\<lparr> ib_ticks := ib_ticks s + 1 \<rparr>)"
  using assms by (simp add: inc_poll_def split: option.split)

lemma inc_step_stale:
  assumes "\<not> (\<exists>a. ib_active s = Some a \<and> ia_id a = opid \<and> wb_events budget \<noteq> 0)"
  shows "\<exists>t. inc_step P clk ok (IPoll opid budget) s = s\<lparr> ib_ticks := t \<rparr>"
proof (cases "wb_events budget = 0")
  case True
  then have "inc_step P clk ok (IPoll opid budget) s = s\<lparr> ib_ticks := ib_ticks s \<rparr>" by simp
  then show ?thesis by blast
next
  case False
  then have "inc_poll P clk ok opid budget s
      = (Inl (operation_error ERROR_STALE_OPERATION), s\<lparr> ib_ticks := ib_ticks s + 1 \<rparr>)"
    using assms by (intro inc_poll_stale) blast
  then show ?thesis using False by auto
qed

lemma from_request_fresh:
  "act_inv (ia_from_request opid rq t)" "scan_ok st w (ia_from_request opid rq t) out"
  by (cases rq; simp add: ia_from_request_def ia_new_def act_inv_def scan_ok_def)+

lemma inc_inv_step: "inc_inv P w s \<Longrightarrow> inc_inv P w (inc_step P clk ok op s)"
proof (cases op)
  case (IStart opid rq out)
  assume "inc_inv P w s"
  then show ?thesis
    using IStart from_request_fresh by (cases "ib_active s") (simp_all add: inc_start_def inc_inv_def)
next
  case (IPoll opid budget)
  assume inv: "inc_inv P w s"
  show ?thesis
  proof (cases "\<exists>a. ib_active s = Some a \<and> ia_id a = opid \<and> wb_events budget \<noteq> 0")
    case True
    then obtain a where a: "ib_active s = Some a" "ia_id a = opid" "wb_events budget \<noteq> 0" by blast
    then have e: "inc_step P clk ok op s = snd (inc_poll P clk ok (ia_id a) budget s)" using IPoll by simp
    show ?thesis
      unfolding e using inc_poll_state[OF a(1) inv a(3), of clk ok] by (blast intro: inc_gone_inv inc_rel_inv)
  next
    case False
    then obtain t where "inc_step P clk ok op s = s\<lparr> ib_ticks := t \<rparr>" using IPoll inc_step_stale by blast
    then show ?thesis using inv by (simp add: inc_inv_def split: option.splits)
  qed
next
  case (ICancel opid)
  assume "inc_inv P w s"
  then show ?thesis
    using ICancel by (cases "ib_active s") (auto simp: inc_cancel_def inc_inv_def act_inv_def scan_ok_def)
qed

interpretation inc_runs: machine "inc_step P clk ok" "inc_inv P w" for P clk ok w
  by unfold_locales (rule inc_inv_step)

lemma inc_run_inv: "inc_inv P w (inc_run P clk ok ops (inc_init p))"
  unfolding inc_run_def by (rule inc_runs.run_inv) (simp add: inc_inv_def inc_init_def)

lemma inc_run_poll:
  assumes "ib_active s = Some a" and "s = inc_run P clk ok ops (inc_init p)" and "wb_events budget \<noteq> 0"
    and "inc_poll P clk ok (ia_id a) budget s = (Inr r, s')"
  shows "report_ok (steady_port P w) w a (ib_eapol_reconnects s) (ib_auth_reconnects s) budget r s'"
proof -
  have "act_inv a" "scan_ok (steady_port P w) w a (ib_out s)"
    using inc_run_inv[of P w clk ok ops p] assms(1,2) by (simp_all add: inc_inv_def)
  from inc_poll_post[OF assms(1) this assms(3), of P clk ok] show ?thesis using assms(4) by simp
qed

section \<open>At most one reconnect of each kind\<close>

fun is_istart :: "'r inc_op \<Rightarrow> bool" where
  "is_istart (IStart _ _ _) = True"
| "is_istart _ = False"

text \<open>The counters against the flags of the operation that was active when the count was \<open>c\<close> and \<open>d\<close>.\<close>

definition once :: "bool \<times> bool \<Rightarrow> u32 \<Rightarrow> u32 \<Rightarrow> ('p, 'r) incb \<Rightarrow> bool" where
  "once b c d s \<longleftrightarrow>
     (case ib_active s of
        None \<Rightarrow> counted_gone (fst b) c (ib_eapol_reconnects s) \<and> counted_gone (snd b) d (ib_auth_reconnects s)
      | Some a \<Rightarrow> counted (fst b) (ia_eapol_submitted a) c (ib_eapol_reconnects s)
          \<and> counted (snd b) (ia_auth_submitted a) d (ib_auth_reconnects s))"

lemma counted_trans: "counted b b1 c x \<Longrightarrow> counted b1 b2 x y \<Longrightarrow> counted b b2 c y"
  by (auto simp: counted_def split: if_splits)

lemma counted_gone_trans: "counted b b1 c x \<Longrightarrow> counted_gone b1 x y \<Longrightarrow> counted_gone b c y"
  by (auto simp: counted_def counted_gone_def split: if_splits)

lemma once_step:
  assumes inv: "inc_inv P w s" and once: "once b c d s" and "\<not> is_istart op"
  shows "once b c d (inc_step P clk ok op s)"
proof (cases op)
  case (IPoll opid budget)
  show ?thesis
  proof (cases "\<exists>a. ib_active s = Some a \<and> ia_id a = opid \<and> wb_events budget \<noteq> 0")
    case True
    then obtain a where a: "ib_active s = Some a" "ia_id a = opid" "wb_events budget \<noteq> 0" by blast
    then have e: "inc_step P clk ok op s = snd (inc_poll P clk ok (ia_id a) budget s)" using IPoll by simp
    show ?thesis
      unfolding e using inc_poll_state[OF a(1) inv a(3), of clk ok] once a(1)
      by (auto simp: once_def inc_gone_def inc_rel_def split: option.splits dest: counted_trans counted_gone_trans)
  next
    case False
    then obtain t where "inc_step P clk ok op s = s\<lparr> ib_ticks := t \<rparr>" using IPoll inc_step_stale by blast
    then show ?thesis using once by (simp add: once_def split: option.splits)
  qed
next
  case (ICancel opid)
  then show ?thesis using once by (cases "ib_active s") (auto simp: inc_cancel_def once_def)
qed (use assms(3) in simp)

lemma once_run:
  "inc_inv P w s \<Longrightarrow> once b c d s \<Longrightarrow> list_all (\<lambda>op. \<not> is_istart op) ops
    \<Longrightarrow> once b c d (inc_run P clk ok ops s)"
  unfolding inc_run_def by (induction ops arbitrary: s) (auto simp: once_step inc_inv_step)

lemma once_bound:
  assumes "once b c d s"
  shows "(ib_eapol_reconnects s = c \<or> ib_eapol_reconnects s = c + 1)
    \<and> (ib_auth_reconnects s = d \<or> ib_auth_reconnects s = d + 1)"
  using assms by (auto simp: once_def counted_def counted_gone_def split: option.splits if_splits)

lemma once_refl: "\<exists>b. once b (ib_eapol_reconnects s) (ib_auth_reconnects s) s"
  by (cases "ib_active s") (auto simp: once_def counted_def counted_gone_def)

section \<open>Terminal work\<close>

lemma inc_events_finish [simp]: "inc_events (P\<lparr> sp_finish_disconnect := g \<rparr>) clk room n s = inc_events P clk room n s"
  by (induction room arbitrary: n s) (simp_all add: Let_def split: prod.split sum.split option.split)

lemma inc_events_finish_eta [simp]: "inc_events (P\<lparr> sp_finish_disconnect := g \<rparr>) clk room n = inc_events P clk room n"
  by (intro ext) simp

lemma inc_copy_finish [simp]: "inc_copy (P\<lparr> sp_finish_disconnect := g \<rparr>) room n s = inc_copy P room n s"
  by (induction room arbitrary: n s) (simp_all add: Let_def split: option.split)

lemma clear_finish [simp]: "clear_with_error (P\<lparr> sp_finish_disconnect := g \<rparr>) = clear_with_error P"
  by (intro ext) (auto simp: clear_with_error_def)

lemma clearing_finish [simp]: "ib_clearing (P\<lparr> sp_finish_disconnect := g \<rparr>) = ib_clearing P"
  by (intro ext) (simp add: ib_clearing_def cong del: sum.case_cong_weak option.case_cong_weak prod.case_cong_weak operation_kind.case_cong_weak start_phase.case_cong_weak outcome.case_cong_weak if_weak_cong)

lemma bounded_finish [simp]:
  "bounded_step_report (P\<lparr> sp_finish_disconnect := g \<rparr>) = bounded_step_report P"
  by (intro ext) (simp add: bounded_step_report_def cong del: sum.case_cong_weak option.case_cong_weak prod.case_cong_weak operation_kind.case_cong_weak start_phase.case_cong_weak outcome.case_cong_weak if_weak_cong)

lemma parts_finish [simp]:
  "inc_scan_part (P\<lparr> sp_finish_disconnect := g \<rparr>) = inc_scan_part P"
  "inc_reconnect_submit (P\<lparr> sp_finish_disconnect := g \<rparr>) = inc_reconnect_submit P"
  "inc_late_scan (P\<lparr> sp_finish_disconnect := g \<rparr>) = inc_late_scan P"
  "inc_scan_state (P\<lparr> sp_finish_disconnect := g \<rparr>) = inc_scan_state P"
  "inc_claim_timeout (P\<lparr> sp_finish_disconnect := g \<rparr>) = inc_claim_timeout P"
  "inc_timeout (P\<lparr> sp_finish_disconnect := g \<rparr>) = (inc_timeout P :: ('p, 'r, work_report) inc_call)"
  "inc_conclude (P\<lparr> sp_finish_disconnect := g \<rparr>) = inc_conclude P"
  "inc_cancel_action (P\<lparr> sp_finish_disconnect := g \<rparr>) = inc_cancel_action P"
  by (intro ext; simp add: inc_scan_part_def inc_reconnect_submit_def inc_late_scan_def inc_scan_state_def
      inc_claim_timeout_def inc_timeout_def inc_conclude_def inc_cancel_action_def
      cong del: sum.case_cong_weak option.case_cong_weak prod.case_cong_weak operation_kind.case_cong_weak start_phase.case_cong_weak outcome.case_cong_weak if_weak_cong)+

lemma work_finish [simp]:
  "inc_reconnect_part (P\<lparr> sp_finish_disconnect := g \<rparr>) = inc_reconnect_part P"
  "inc_deadlines (P\<lparr> sp_finish_disconnect := g \<rparr>) = inc_deadlines P"
  by (intro ext; simp add: inc_reconnect_part_def inc_deadlines_def
      cong del: sum.case_cong_weak option.case_cong_weak prod.case_cong_weak operation_kind.case_cong_weak start_phase.case_cong_weak outcome.case_cong_weak if_weak_cong)+

lemma inc_work_finish [simp]: "inc_work (P\<lparr> sp_finish_disconnect := g \<rparr>) = inc_work P"
  by (intro ext) (simp add: inc_work_def cong del: sum.case_cong_weak option.case_cong_weak prod.case_cong_weak operation_kind.case_cong_weak start_phase.case_cong_weak outcome.case_cong_weak if_weak_cong)

lemma start_phase_finish:
  assumes "ia_phase (ib_act s) \<noteq> PhFinishDisconnect"
  shows "inc_start_phase (P\<lparr> sp_finish_disconnect := g \<rparr>) clk ok opid budget started s
    = inc_start_phase P clk ok opid budget started s"
  using assms by (cases "ia_phase (ib_act s)") (simp_all add: inc_start_phase_def cong del: sum.case_cong_weak option.case_cong_weak prod.case_cong_weak operation_kind.case_cong_weak start_phase.case_cong_weak outcome.case_cong_weak if_weak_cong)

section \<open>Two scripted ports\<close>

text \<open>A port with two scan results; and one on which the first connection attempt gets no EAPOL frame, whose
  one disconnect event follows the first disconnect, and which refuses a second connection attempt.\<close>

definition scan_port :: "(nat, nat) sport" where
  "scan_port =
     \<lparr> sp_start_scan = (\<lambda>p. (Inr (), p)), sp_poll_scan = (\<lambda>p. (Inr (Some 2), p)),
       sp_scan_result = (\<lambda>i p. Some (i + 10)), sp_scan_cache_pending = (\<lambda>p. (False, p)),
       sp_scan_cache_completion_observed = (\<lambda>p. (False, p)), sp_try_claim_scan_timeout = (\<lambda>p. (True, p)),
       sp_cancel_scan = (\<lambda>p. p), sp_configure = (\<lambda>c p. (Inr (), p)), sp_connect = (\<lambda>p. (Inr (), p)),
       sp_disconnect = (\<lambda>p. (Inr (), p)), sp_finish_disconnect = (\<lambda>p. (Inr (), p)),
       sp_poll = (\<lambda>b p. (Inr \<lparr> pr_work_completed = 0, pr_output_pending = 0, pr_next_deadline_ms = - 1 \<rparr>, p)),
       sp_input_pending = (\<lambda>p. (False, p)), sp_next_event = (\<lambda>p. (Inr None, p)), sp_recovery_word = (\<lambda>p. (0, p)),
       sp_context_word = (\<lambda>p. (0, p)), sp_driver_word = (\<lambda>p. (0, p)), sp_match_word = (\<lambda>p. (0, p)),
       sp_external_auth_stalled = (\<lambda>p. (False, p)) \<rparr>"

definition stalled_port :: "(nat \<times> nat, nat) sport" where
  "stalled_port =
     \<lparr> sp_start_scan = (\<lambda>p. (Inr (), p)), sp_poll_scan = (\<lambda>p. (Inr None, p)),
       sp_scan_result = (\<lambda>i p. None), sp_scan_cache_pending = (\<lambda>p. (False, p)),
       sp_scan_cache_completion_observed = (\<lambda>p. (False, p)), sp_try_claim_scan_timeout = (\<lambda>p. (True, p)),
       sp_cancel_scan = (\<lambda>p. p), sp_configure = (\<lambda>c p. (Inr (), p)),
       sp_connect = (\<lambda>(n, e). (if n = 0 then Inr () else Inl (staged_error EcConnect 9 StConnect), (n + 1, e))),
       sp_disconnect = (\<lambda>(n, e). (Inr (), (n, e + 1))), sp_finish_disconnect = (\<lambda>p. (Inr (), p)),
       sp_poll = (\<lambda>b (n, e). (Inr \<lparr> pr_work_completed = 0, pr_output_pending = (if e = 1 then 1 else 0), pr_next_deadline_ms = - 1 \<rparr>, (n, e))),
       sp_input_pending = (\<lambda>p. (False, p)),
       sp_next_event = (\<lambda>(n, e). if e = 1 then (Inr (Some \<lparr> ne_kind = 4, ne_status = 0 \<rparr>), (n, 2)) else (Inr None, (n, e))),
       sp_recovery_word = (\<lambda>p. (0x00010001, p)),
       sp_context_word = (\<lambda>p. (0, p)), sp_driver_word = (\<lambda>p. (0, p)), sp_match_word = (\<lambda>p. (0, p)),
       sp_external_auth_stalled = (\<lambda>p. (False, p)) \<rparr>"

abbreviation demo_budget :: work_budget where
  "demo_budget \<equiv> \<lparr> wb_events = 4, wb_time_us = 1000 \<rparr>"

abbreviation scan_ops :: "nat inc_op list" where
  "scan_ops \<equiv> [IStart 7 (RqScan 1000) [0, 0, 0], IPoll 7 demo_budget]"

abbreviation demo_ok :: admits where "demo_ok \<equiv> (\<lambda>_ _ _ _ _ _. True)"

definition demo_scan :: "(nat, nat) incb" where
  "demo_scan = inc_run scan_port (\<lambda>n. 0) demo_ok scan_ops (inc_init 0)"

definition demo_clock :: "nat \<Rightarrow> u64" where
  "demo_clock n = word_of_int (if n < 9 then int n * 100 else 2000000 + int n * 1000)"

abbreviation connect_ops :: "nat inc_op list" where
  "connect_ops \<equiv> [IStart 7 (RqConnect \<lparr> sc_bssid = [], sc_channel = 6, sc_timeout_ms = 30000 \<rparr>) [],
     IPoll 7 demo_budget, IPoll 7 demo_budget, IPoll 7 demo_budget]"

abbreviation recover_ops :: "nat inc_op list" where
  "recover_ops \<equiv> [IPoll 7 demo_budget, IPoll 7 demo_budget, ICancel 7, IPoll 7 demo_budget]"

definition demo_stall :: "(nat \<times> nat, nat) incb" where
  "demo_stall = inc_run stalled_port demo_clock demo_ok connect_ops (inc_init (0, 0))"

definition demo_cancelled :: "(nat \<times> nat, nat) incb" where
  "demo_cancelled = inc_run stalled_port demo_clock demo_ok recover_ops demo_stall"

lemma demo_scan_active:
  "ib_active demo_scan = Some ((ia_new 7 KScan 1000 0)\<lparr> ia_phase := PhReady \<rparr>)"
  by code_simp

lemma demo_scan_poll:
  "inc_poll scan_port (\<lambda>n. 0) demo_ok 7 demo_budget demo_scan =
     (Inr \<lparr> wr_id = 7, wr_events = 2, wr_elapsed_us = 0, wr_progress = True, wr_disposition = DComplete (CScan 2 False) \<rparr>,
      \<lparr> ib_port = 0, ib_ticks = 5, ib_active = None, ib_out = [10, 11, 0], ib_eapol_reconnects = 0, ib_auth_reconnects = 0 \<rparr>)"
  by code_simp

lemma demo_recovers: "ib_eapol_reconnects demo_stall = 0 \<and> ib_eapol_reconnects demo_cancelled = 1"
  by code_simp

lemma demo_cancelled_view:
  "map_option (\<lambda>a. (ia_id a, ia_kind a, ia_cancel a, ia_cancel_submitted a, ia_phase a, ia_reconnect_deadline a)) (ib_active demo_cancelled)
     = Some (7, KConnect \<lparr> ci_bssid = [], ci_frequency_mhz = 2437 \<rparr>, True, True, PhReady, Some 2019000)"
  "ib_ticks demo_cancelled = 20" "ib_port demo_cancelled = (1, 3)"
  by code_simp+

section \<open>Properties\<close>

text \<open>C33: one poll of a backend reached by any run, on the operation that is active.  A poll that
  reports leaves a report of that operation within the event budget.  It reports completion only of the
  kind the operation has and only when no cancellation was requested, it reports cancellation only when one
  was requested, and exactly then the operation is gone; otherwise the same operation is still active.\<close>

theorem inc_poll_verdict:
  assumes "s = inc_run P clk ok ops (inc_init p)" and "ib_active s = Some a" and "wb_events budget \<noteq> 0"
    and "inc_poll P clk ok (ia_id a) budget s = (Inr r, s')"
  shows "wr_id r = ia_id a \<and> wr_events r \<le> wb_events budget \<and>
    (case wr_disposition r of
       DComplete k \<Rightarrow> ib_active s' = None \<and> \<not> ia_cancel a \<and>
         (case k of CInitialized \<Rightarrow> ia_kind a = KInitialize | CScan _ _ \<Rightarrow> ia_kind a = KScan
          | CConnected info \<Rightarrow> ia_kind a = KConnect info | CDisconnected \<Rightarrow> ia_kind a = KDisconnect)
     | DCancelled \<Rightarrow> ib_active s' = None \<and> ia_cancel a
     | _ \<Rightarrow> (\<exists>b. ib_active s' = Some b \<and> ia_id b = ia_id a \<and> ia_kind b = ia_kind a \<and> ia_cancel b = ia_cancel a))"
  using inc_run_poll[OF assms(2,1,3,4), of undefined]
  by (auto simp: report_ok_def inc_gone_def inc_rel_def split: disposition.splits completion.splits option.splits)

theorem inc_poll_verdict_witness:
  "\<exists>r s'. inc_poll scan_port (\<lambda>n. 0) demo_ok 7 demo_budget demo_scan = (Inr r, s') \<and> wr_id r = 7 \<and> wr_events r \<le> 4
     \<and> wr_disposition r = DComplete (CScan 2 False) \<and> ib_active s' = None"
  using inc_poll_verdict[OF demo_scan_def demo_scan_active, of demo_budget] demo_scan_poll
  by (simp add: ia_new_def)

text \<open>C34: a scan whose port keeps reporting \<open>tot\<close> results, the \<open>i\<close>-th being \<open>f i\<close>, completes with exactly the
  results that convert, in the order of the port, as far as the caller's buffer reaches, in however many
  polls they were copied; it is marked truncated exactly when some result is missing from the buffer.\<close>

theorem inc_scan_exact:
  assumes "s = inc_run P clk ok ops (inc_init p)" and "ib_active s = Some a" and "wb_events budget \<noteq> 0"
    and "inc_poll P clk ok (ia_id a) budget s = (Inr r, s')"
    and "steady_port P (tot, f)" and "wr_disposition r = DComplete (CScan n trunc)"
  shows "n = min (length (somes (map f [0..<tot]))) (length (ib_out s'))
    \<and> take n (ib_out s') = take n (somes (map f [0..<tot])) \<and> (trunc \<longleftrightarrow> n < tot)"
proof -
  have "scan_exact f tot (ib_out s') n trunc"
    using inc_run_poll[OF assms(2,1,3,4), of "(tot, f)"] assms(5,6) by (simp add: report_ok_def)
  then show ?thesis unfolding scan_exact_iff .
qed

theorem inc_scan_exact_witness:
  "\<exists>r s'. inc_poll scan_port (\<lambda>n. 0) demo_ok 7 demo_budget demo_scan = (Inr r, s') \<and>
     wr_disposition r = DComplete (CScan 2 False) \<and> take 2 (ib_out s') = take 2 (somes (map (\<lambda>i. Some (i + 10)) [0..<2]))"
proof -
  have st: "steady_port scan_port (2, \<lambda>i. Some (i + 10))" by (simp add: steady_port_def scan_port_def)
  have i: "ia_id ((ia_new 7 KScan 1000 0)\<lparr> ia_phase := PhReady \<rparr>) = 7" by (simp add: ia_new_def)
  note e = inc_scan_exact[OF demo_scan_def demo_scan_active, of demo_budget, unfolded i, OF _ demo_scan_poll st]
  show ?thesis
    unfolding demo_scan_poll using e[of 2 False] by simp
qed

text \<open>C35: however often an operation is polled or cancelled, it submits at most one reconnect for a missing
  first EAPOL frame and at most one for a stalled external authentication.\<close>

theorem inc_reconnect_once:
  assumes "s = inc_run P clk ok ops (inc_init p)" and "list_all (\<lambda>op. \<not> is_istart op) later"
  shows "(ib_eapol_reconnects (inc_run P clk ok later s) = ib_eapol_reconnects s
           \<or> ib_eapol_reconnects (inc_run P clk ok later s) = ib_eapol_reconnects s + 1)
    \<and> (ib_auth_reconnects (inc_run P clk ok later s) = ib_auth_reconnects s
           \<or> ib_auth_reconnects (inc_run P clk ok later s) = ib_auth_reconnects s + 1)"
proof -
  obtain b where "once b (ib_eapol_reconnects s) (ib_auth_reconnects s) s" using once_refl[of s] by blast
  from once_run[OF inc_run_inv this[unfolded assms(1)] assms(2)] show ?thesis
    unfolding assms(1) by (rule once_bound)
qed

theorem inc_reconnect_once_witness:
  "list_all (\<lambda>op. \<not> is_istart op) recover_ops \<and> ib_eapol_reconnects demo_stall = 0
     \<and> ib_eapol_reconnects demo_cancelled = 1"
  using inc_reconnect_once[OF demo_stall_def, of recover_ops] demo_recovers
  by (simp add: demo_cancelled_def[symmetric])

text \<open>The terminal work of a disconnect, \<open>finish_disconnect\<close>, is never run for a connect operation, its
  recovery or a cancelled operation: what such a poll answers and the state it leaves do not depend on it.\<close>

theorem inc_finish_only_disconnect:
  assumes "s = inc_run P clk ok ops (inc_init p)" and "ib_active s = Some a" and "ia_cancel a \<or> ia_kind a \<noteq> KDisconnect"
  shows "inc_poll (P\<lparr> sp_finish_disconnect := g \<rparr>) clk ok opid budget s = inc_poll P clk ok opid budget s"
proof -
  have "act_inv a" using inc_run_inv[of P undefined clk ok ops p] assms(1,2) by (simp add: inc_inv_def)
  then have ph: "ia_phase a = PhFinishDisconnect \<Longrightarrow> ia_cancel a" using assms(3) by (auto simp: act_inv_def)
  show ?thesis
  proof (cases "ia_phase a = PhFinishDisconnect")
    case True
    then show ?thesis using ph assms(2) by (simp add: inc_poll_def)
  next
    case False
    then have "inc_start_phase (P\<lparr> sp_finish_disconnect := g \<rparr>) clk ok opid budget t (s\<lparr> ib_ticks := k \<rparr>)
        = inc_start_phase P clk ok opid budget t (s\<lparr> ib_ticks := k \<rparr>)" for t k
      using assms(2) by (intro start_phase_finish) simp
    then show ?thesis using assms(2) by (simp add: inc_poll_def ib_bind_def)
  qed
qed

text \<open>A poll of a connect operation whose cancellation has been submitted can still submit a connection: when a
  reconnect was settling as the operation was cancelled and no event is waiting, the poll takes it and answers the
  error of the port's \<open>connect\<close>.\<close>

theorem cancelled_connect_reconnects:
  assumes "ib_active s = Some a" and "ia_kind a = KConnect info" and "ia_cancel a" and "ia_cancel_submitted a"
    and "ia_phase a = PhReady" and "ia_reconnect_deadline a = Some t" and "t \<le> clk (ib_ticks s + 1)"
    and "sp_poll P (ucast (wb_events budget)) (ib_port s) = (Inr \<lparr> pr_work_completed = 0, pr_output_pending = 0, pr_next_deadline_ms = d \<rparr>, p1)"
    and "sp_connect P p1 = (Inl e, p2)"
  shows "fst (inc_poll P clk ok (ia_id a) budget s) = Inl e"
  using assms
  by (simp add: inc_poll_def ib_bind_def inc_start_phase_def ib_on_active_def inc_work_def ib_clearing_def ib_call_def
      inc_scan_part_def inc_reconnect_part_def take_reconnect_when_settled_def clear_with_error_def)

lemma demo_cancelled_reconnects:
  "map_option ia_cancel (ib_active demo_cancelled) = Some True \<and>
     fst (inc_poll stalled_port demo_clock demo_ok 7 demo_budget demo_cancelled) = Inl (staged_error EcConnect 9 StConnect)"
proof -
  obtain a where a: "ib_active demo_cancelled = Some a" and v: "ia_id a = 7" "ia_cancel a" "ia_cancel_submitted a"
      "ia_phase a = PhReady" "ia_reconnect_deadline a = Some 2019000" "ia_kind a = KConnect \<lparr> ci_bssid = [], ci_frequency_mhz = 2437 \<rparr>"
    using demo_cancelled_view(1) by auto
  have t: "2019000 \<le> demo_clock (ib_ticks demo_cancelled + 1)"
    by (simp add: demo_cancelled_view(2) demo_clock_def)
  have p: "sp_poll stalled_port w (ib_port demo_cancelled)
      = (Inr \<lparr> pr_work_completed = 0, pr_output_pending = 0, pr_next_deadline_ms = - 1 \<rparr>, (1, 3))" for w
    by (simp add: demo_cancelled_view(3) stalled_port_def)
  have "sp_connect stalled_port (1, 3) = (Inl (staged_error EcConnect 9 StConnect), (2, 3))"
    by (simp add: stalled_port_def)
  from cancelled_connect_reconnects[where clk = demo_clock and budget = demo_budget and ok = demo_ok, OF a v(6) v(2-5) t p this] show ?thesis using a v by simp
qed

text \<open>When the port refuses to start a scan the poll answers the port's error, and the operation stays
  active with nothing left to start, so that the next operation is refused as busy.\<close>

theorem inc_start_failure_keeps_active:
  assumes "ib_active s = Some a" and "ia_kind a = KScan" and "ia_phase a = PhScan" and "\<not> ia_cancel a"
    and "sp_start_scan P (ib_port s) = (Inl e, p)"
  shows "case inc_poll P clk ok (ia_id a) budget s of
      (r, s') \<Rightarrow> r = Inl e \<and> ib_active s' = Some (a\<lparr> ia_phase := PhReady \<rparr>)
        \<and> fst (inc_start clk opid rq s') = Inl (staged_error EcBusy 1 StControlPlane)"
  using assms
  by (simp add: inc_poll_def ib_bind_def inc_start_phase_def ib_on_active_def ib_call_def inc_start_def Let_def)

end
