(* ===== verification/Wait.thy ===== *)
theory Wait
  imports Incremental
begin

text \<open>
  The wake bridge of the incremental runner (\<open>src/src/incremental_wait.rs\<close>): callbacks and interrupts count
  signals and wake the executor, the runner polls for the sources it waits on.

  Every atomic access of the source is a step here.  A signal is two steps, counting and waking, so that
  the runner may be scheduled between them; \<open>ws_owed\<close> is the number of signals that have counted and not yet
  woken.  The poll takes as arguments what other contexts do between its accesses.  Registering a waker
  stores it, waking takes it out and notifies the executor (\<open>ws_woken\<close>), as the waker cell of the source
  documents.  The readiness of the receive ring and of the timer future are arguments.
\<close>

section \<open>Signals\<close>

record wait_signals =
  ws_backend_pending :: u32
  ws_l2_rx_pending :: u32
  ws_registered :: bool
  ws_woken :: bool
  ws_owed :: nat
  ws_backend_signals :: u32
  ws_l2_rx_signals :: u32
  ws_waker_notifications :: u32
  ws_poll_calls :: u32
  ws_pending_polls :: u32
  ws_ready_polls :: u32
  ws_timer_ready_polls :: u32

definition ws_new :: wait_signals where
  "ws_new = \<lparr> ws_backend_pending = 0, ws_l2_rx_pending = 0, ws_registered = False, ws_woken = False, ws_owed = 0,
     ws_backend_signals = 0, ws_l2_rx_signals = 0, ws_waker_notifications = 0, ws_poll_calls = 0,
     ws_pending_polls = 0, ws_ready_polls = 0, ws_timer_ready_polls = 0 \<rparr>"

definition ws_wake :: "wait_signals \<Rightarrow> wait_signals" where
  "ws_wake s = (if ws_registered s then s\<lparr> ws_registered := False, ws_woken := True \<rparr> else s)"

definition ws_register :: "wait_signals \<Rightarrow> wait_signals" where
  "ws_register s = s\<lparr> ws_registered := True, ws_woken := False \<rparr>"

definition signal_count :: "wait_source set \<Rightarrow> wait_signals \<Rightarrow> wait_signals" where
  "signal_count source s =
     (let s1 = (if WBackend \<in> source
                then s\<lparr> ws_backend_signals := sat_inc (ws_backend_signals s), ws_backend_pending := sat_inc (ws_backend_pending s) \<rparr>
                else s);
          s2 = (if WL2Rx \<in> source
                then s1\<lparr> ws_l2_rx_signals := sat_inc (ws_l2_rx_signals s1), ws_l2_rx_pending := sat_inc (ws_l2_rx_pending s1) \<rparr>
                else s1)
      in s2\<lparr> ws_waker_notifications := sat_inc (ws_waker_notifications s2), ws_owed := ws_owed s2 + 1 \<rparr>)"

definition signal_wake :: "wait_signals \<Rightarrow> wait_signals" where
  "signal_wake s = (if ws_owed s = 0 then s else ws_wake (s\<lparr> ws_owed := ws_owed s - 1 \<rparr>))"

definition ws_signal :: "wait_source set \<Rightarrow> wait_signals \<Rightarrow> wait_signals" where
  "ws_signal source s = signal_wake (signal_count source s)"

definition signal_backend :: "wait_signals \<Rightarrow> wait_signals" where
  "signal_backend = ws_signal {WBackend}"

definition signal_l2_rx :: "wait_signals \<Rightarrow> wait_signals" where
  "signal_l2_rx = ws_signal {WL2Rx}"

text \<open>\<open>take_one\<close> on each counter that is asked for.\<close>

definition take_one :: "u32 \<Rightarrow> bool \<times> u32" where
  "take_one x = (if x = 0 then (False, x) else (True, x - 1))"

definition take_backend :: "wait_source set \<Rightarrow> wait_signals \<Rightarrow> wait_source set \<times> wait_signals" where
  "take_backend sources s =
     (if WBackend \<in> sources
      then (case take_one (ws_backend_pending s) of
              (b, x) \<Rightarrow> (if b then {WBackend} else {}, s\<lparr> ws_backend_pending := x \<rparr>))
      else ({}, s))"

definition take_l2_rx :: "wait_source set \<Rightarrow> wait_signals \<Rightarrow> wait_source set \<times> wait_signals" where
  "take_l2_rx sources s =
     (if WL2Rx \<in> sources
      then (case take_one (ws_l2_rx_pending s) of
              (b, x) \<Rightarrow> (if b then {WL2Rx} else {}, s\<lparr> ws_l2_rx_pending := x \<rparr>))
      else ({}, s))"

text \<open>What other contexts do between two accesses of the poll.\<close>

datatype sig_op = SCount "wait_source set" | SWake

fun sig_step :: "sig_op \<Rightarrow> wait_signals \<Rightarrow> wait_signals" where
  "sig_step (SCount source) s = signal_count source s"
| "sig_step SWake s = signal_wake s"

definition ws_take_ready ::
  "sig_op list \<Rightarrow> wait_source set \<Rightarrow> wait_signals \<Rightarrow> wait_source set \<times> wait_signals" where
  "ws_take_ready gap sources s =
     (case take_backend sources s of
        (r1, s1) \<Rightarrow> (case take_l2_rx sources (fold sig_step gap s1) of (r2, s2) \<Rightarrow> (r1 \<union> r2, s2)))"

section \<open>The platform\<close>

record wait_platform =
  wp_signals :: wait_signals
  wp_timer_deadline :: "u64 option"

definition clear_timer :: "wait_platform \<Rightarrow> wait_platform" where
  "clear_timer w = w\<lparr> wp_timer_deadline := None \<rparr>"

text \<open>\<open>fired\<close> is what the timer future answers; a future deadline installs it.\<close>

definition poll_timer :: "u64 \<Rightarrow> bool \<Rightarrow> u64 option \<Rightarrow> wait_platform \<Rightarrow> bool \<times> wait_platform" where
  "poll_timer now_us fired deadline w =
     (case deadline of
        None \<Rightarrow> (False, clear_timer w)
      | Some d \<Rightarrow>
          (if d \<le> now_us then (True, clear_timer w)
           else (fired, if wp_timer_deadline w \<noteq> Some d then w\<lparr> wp_timer_deadline := Some d \<rparr> else w)))"

definition on_signals :: "(wait_signals \<Rightarrow> wait_signals) \<Rightarrow> wait_platform \<Rightarrow> wait_platform" where
  "on_signals f w = w\<lparr> wp_signals := f (wp_signals w) \<rparr>"

record poll_gaps =
  pg_register :: "sig_op list"
  pg_first :: "sig_op list"
  pg_timer :: "sig_op list"
  pg_second :: "sig_op list"
  pg_return :: "sig_op list"

definition poll_ready ::
  "poll_gaps \<Rightarrow> bool \<Rightarrow> u64 \<Rightarrow> bool \<Rightarrow> wait_source set \<Rightarrow> u64 option \<Rightarrow> wait_platform
    \<Rightarrow> wait_source set poll \<times> wait_platform" where
  "poll_ready g rx_ready now_us fired sources deadline w0 =
     (let s1 = fold sig_step (pg_register g)
                 (ws_register ((wp_signals w0)\<lparr> ws_poll_calls := sat_inc (ws_poll_calls (wp_signals w0)) \<rparr>))
      in case ws_take_ready (pg_first g) sources s1 of
           (r1, s2) \<Rightarrow>
             let r2 = (if WL2Rx \<in> sources \<and> rx_ready then r1 \<union> {WL2Rx} else r1);
                 w1 = w0\<lparr> wp_signals := fold sig_step (pg_timer g) s2 \<rparr>
             in case (if WTimer \<in> sources then poll_timer now_us fired deadline w1 else (False, clear_timer w1)) of
                  (timer, w2) \<Rightarrow>
                    let r3 = (if timer then r2 \<union> {WTimer} else r2)
                    in case (if r3 = {} then ws_take_ready (pg_second g) sources (wp_signals w2) else (r3, wp_signals w2)) of
                         (r4, s4) \<Rightarrow>
                           let s5 = fold sig_step (pg_return g) s4
                           in if r4 = {}
                              then (Pending, w2\<lparr> wp_signals := s5\<lparr> ws_pending_polls := sat_inc (ws_pending_polls s5) \<rparr> \<rparr>)
                              else (Ready r4, w2\<lparr> wp_signals :=
                                      (let s6 = s5\<lparr> ws_ready_polls := sat_inc (ws_ready_polls s5) \<rparr>
                                       in if WTimer \<in> r4 then s6\<lparr> ws_timer_ready_polls := sat_inc (ws_timer_ready_polls s6) \<rparr> else s6) \<rparr>))"

section \<open>No signal is lost\<close>

text \<open>A pending signal is visible to the executor: it will be woken, or the signal has yet to wake it.\<close>

definition noticed :: "wait_signals \<Rightarrow> bool" where
  "noticed s \<longleftrightarrow> ws_woken s \<or> 0 < ws_owed s"

lemma signal_count_simps [simp]:
  "ws_woken (signal_count src s) = ws_woken s" "ws_registered (signal_count src s) = ws_registered s"
  "ws_owed (signal_count src s) = ws_owed s + 1"
  by (simp_all add: signal_count_def Let_def)

definition armed :: "wait_signals \<Rightarrow> bool" where
  "armed s \<longleftrightarrow> ws_registered s \<or> ws_woken s"

lemma sig_step_armed: "armed s \<Longrightarrow> armed (sig_step a s)"
  by (cases a) (auto simp: armed_def signal_wake_def ws_wake_def)

lemma sig_step_noticed: "armed s \<Longrightarrow> noticed s \<Longrightarrow> noticed (sig_step a s)"
  by (cases a) (auto simp: armed_def noticed_def signal_wake_def ws_wake_def)

interpretation wait_armed: machine sig_step armed
  by unfold_locales (rule sig_step_armed)

definition covered :: "(wait_signals \<Rightarrow> u32) \<Rightarrow> wait_signals \<Rightarrow> bool" where
  "covered f s \<longleftrightarrow> armed s \<and> (f s = 0 \<or> noticed s)"

lemma sig_step_pending:
  "ws_backend_pending (sig_step a s) = ws_backend_pending s \<or> noticed (sig_step a s)"
  "ws_l2_rx_pending (sig_step a s) = ws_l2_rx_pending s \<or> noticed (sig_step a s)"
  by (cases a; auto simp: noticed_def signal_wake_def ws_wake_def)+

interpretation backend_covered: machine sig_step "covered ws_backend_pending"
  by unfold_locales (metis covered_def sig_step_armed sig_step_noticed sig_step_pending(1))

interpretation l2_covered: machine sig_step "covered ws_l2_rx_pending"
  by unfold_locales (metis covered_def sig_step_armed sig_step_noticed sig_step_pending(2))

lemma take_backend_empty:
  assumes "take_backend sources s = ({}, s')" and "WBackend \<in> sources" and "armed s"
  shows "covered ws_backend_pending s'"
  using assms by (auto simp: take_backend_def take_one_def covered_def armed_def split: if_splits prod.splits)

lemma take_l2_rx_empty:
  assumes "take_l2_rx sources s = ({}, s')" and "WL2Rx \<in> sources" and "armed s"
  shows "covered ws_l2_rx_pending s'"
  using assms by (auto simp: take_l2_rx_def take_one_def covered_def armed_def split: if_splits prod.splits)

lemma take_frames:
  "take_backend sources s = (r, s') \<Longrightarrow> armed s' = armed s \<and> noticed s' = noticed s"
  "take_l2_rx sources s = (r, s') \<Longrightarrow> armed s' = armed s \<and> noticed s' = noticed s \<and> ws_backend_pending s' = ws_backend_pending s"
  by (auto simp: take_backend_def take_l2_rx_def take_one_def armed_def noticed_def split: if_splits prod.splits)

lemma ws_take_ready_empty:
  assumes "ws_take_ready gap sources s = ({}, s')" and "armed s"
  shows "armed s' \<and> (WBackend \<in> sources \<longrightarrow> covered ws_backend_pending s')
    \<and> (WL2Rx \<in> sources \<longrightarrow> covered ws_l2_rx_pending s')"
proof -
  obtain r1 s1 where t1: "take_backend sources s = (r1, s1)" by (cases "take_backend sources s")
  obtain r2 s2 where t2: "take_l2_rx sources (fold sig_step gap s1) = (r2, s2)"
    by (cases "take_l2_rx sources (fold sig_step gap s1)")
  have e: "r1 = {}" "r2 = {}" "s' = s2" using assms(1) t1 t2 by (simp_all add: ws_take_ready_def)
  have a1: "armed s1" using take_frames(1)[OF t1] assms(2) by simp
  have a2: "armed (fold sig_step gap s1)" by (rule wait_armed.run_inv[OF a1])
  have b: "WBackend \<in> sources \<Longrightarrow> covered ws_backend_pending (fold sig_step gap s1)"
    using backend_covered.run_inv take_backend_empty t1 e(1) assms(2) by blast
  show ?thesis
    using b take_frames(2)[OF t2] take_l2_rx_empty[OF t2[unfolded e(2)] _ a2] a2 e(3) by (auto simp: covered_def)
qed

lemma ws_take_ready_armed: "ws_take_ready gap sources s = (r, s') \<Longrightarrow> armed s \<Longrightarrow> armed s'"
  using take_frames wait_armed.run_inv by (fastforce simp: ws_take_ready_def split: prod.splits)

text \<open>Nothing to do for any of the sources, as far as the executor has not been told.\<close>

definition quiet_sources :: "wait_source set \<Rightarrow> wait_signals \<Rightarrow> bool" where
  "quiet_sources sources s \<longleftrightarrow> (WBackend \<in> sources \<longrightarrow> ws_backend_pending s = 0 \<or> noticed s)
     \<and> (WL2Rx \<in> sources \<longrightarrow> ws_l2_rx_pending s = 0 \<or> noticed s)"

section \<open>Properties\<close>

text \<open>C37: no signal is lost to the runner.  When a poll answers that nothing is ready, whatever other contexts
  signalled between any two of its accesses, then for every source it waits on there is no pending signal, or
  the executor has been woken since the poll registered, or a signal that has counted is about to wake it.\<close>

theorem poll_ready_no_lost_signal:
  assumes "poll_ready g rx_ready now_us fired sources deadline w = (Pending, w')"
  shows "quiet_sources sources (wp_signals w')"
proof -
  define s1 where "s1 = fold sig_step (pg_register g)
                 (ws_register ((wp_signals w)\<lparr> ws_poll_calls := sat_inc (ws_poll_calls (wp_signals w)) \<rparr>))"
  obtain r1 s2 where t1: "ws_take_ready (pg_first g) sources s1 = (r1, s2)" by (cases "ws_take_ready (pg_first g) sources s1")
  define w1 where "w1 = w\<lparr> wp_signals := fold sig_step (pg_timer g) s2 \<rparr>"
  obtain timer w2 where t2: "(if WTimer \<in> sources then poll_timer now_us fired deadline w1 else (False, clear_timer w1)) = (timer, w2)"
    by (cases "if WTimer \<in> sources then poll_timer now_us fired deadline w1 else (False, clear_timer w1)")
  have s2: "wp_signals w2 = fold sig_step (pg_timer g) s2"
    using t2 by (auto simp: poll_timer_def clear_timer_def w1_def split: if_splits option.splits)
  have a1: "armed s1" unfolding s1_def by (rule wait_armed.run_inv) (simp add: armed_def ws_register_def)
  have a2: "armed (wp_signals w2)"
    unfolding s2 by (rule wait_armed.run_inv) (rule ws_take_ready_armed[OF t1 a1])
  define r3 where "r3 = (if timer then (if WL2Rx \<in> sources \<and> rx_ready then r1 \<union> {WL2Rx} else r1) \<union> {WTimer}
      else (if WL2Rx \<in> sources \<and> rx_ready then r1 \<union> {WL2Rx} else r1))"
  obtain r4 s4 where t4: "(if r3 = {} then ws_take_ready (pg_second g) sources (wp_signals w2) else (r3, wp_signals w2)) = (r4, s4)"
    by (cases "if r3 = {} then ws_take_ready (pg_second g) sources (wp_signals w2) else (r3, wp_signals w2)")
  have r4: "r4 = {}"
    and w': "wp_signals w' = (fold sig_step (pg_return g) s4)\<lparr> ws_pending_polls := sat_inc (ws_pending_polls (fold sig_step (pg_return g) s4)) \<rparr>"
    using assms[unfolded poll_ready_def Let_def s1_def[symmetric] t1 prod.case w1_def[symmetric] t2 r3_def[symmetric] t4]
    by (auto split: if_splits)
  have "r3 = {}" using t4 r4 by (auto split: if_splits)
  then have "ws_take_ready (pg_second g) sources (wp_signals w2) = ({}, s4)" using t4 r4 by simp
  from ws_take_ready_empty[OF this a2] have "WBackend \<in> sources \<longrightarrow> covered ws_backend_pending (fold sig_step (pg_return g) s4)"
      "WL2Rx \<in> sources \<longrightarrow> covered ws_l2_rx_pending (fold sig_step (pg_return g) s4)"
    using backend_covered.run_inv l2_covered.run_inv by blast+
  then show ?thesis by (simp add: quiet_sources_def w' covered_def noticed_def)
qed

theorem poll_ready_no_lost_signal_witness:
  "\<exists>w'. poll_ready \<lparr> pg_register = [], pg_first = [], pg_timer = [], pg_second = [], pg_return = [SCount {WBackend}, SWake] \<rparr>
     False 0 False {WBackend, WTimer} None \<lparr> wp_signals = ws_new, wp_timer_deadline = None \<rparr> = (Pending, w')
     \<and> ws_backend_pending (wp_signals w') = 1 \<and> quiet_sources {WBackend, WTimer} (wp_signals w')"
proof -
  define w' where "w' = snd (poll_ready \<lparr> pg_register = [], pg_first = [], pg_timer = [], pg_second = [], pg_return = [SCount {WBackend}, SWake] \<rparr>
     False 0 False {WBackend, WTimer} None \<lparr> wp_signals = ws_new, wp_timer_deadline = None \<rparr>)"
  have e: "poll_ready \<lparr> pg_register = [], pg_first = [], pg_timer = [], pg_second = [], pg_return = [SCount {WBackend}, SWake] \<rparr>
     False 0 False {WBackend, WTimer} None \<lparr> wp_signals = ws_new, wp_timer_deadline = None \<rparr> = (Pending, w')"
    "ws_backend_pending (wp_signals w') = 1"
    unfolding w'_def by code_simp+
  from poll_ready_no_lost_signal[OF e(1)] e show ?thesis by blast
qed

end
