(* ===== verification/Worker.thy ===== *)
theory Worker
  imports Incremental Wait
begin

text \<open>
  The worker task of the incremental backend (\<open>src/src/incremental_worker.rs\<close>): a proxy on the runner's side
  submits commands to a one-place mailbox, the worker runs them on the backend it owns, and the proxy takes
  the responses.

  One turn of the worker is two critical sections with the backend call between them; the model has a step
  for each half, so that the runner's operations may come in between.  The proxy copies scan results outside
  its critical section; \<open>gaps\<close> are the worker's steps that happen there.  The semaphore is a counter, and
  whether raising it succeeds is an argument.  The scan storage of the worker is the output buffer of
  the backend model.  The model is of the build without the L2 link of the standard network path.
  \<open>wk_published\<close> and \<open>wk_taken\<close> record every response that was published and every one the proxy took.
\<close>

section \<open>The mailbox\<close>

definition SCAN_CAPACITY :: nat where "SCAN_CAPACITY = 32"
definition ERROR_WORKER_BUSY :: u32 where "ERROR_WORKER_BUSY = 0x5732b101"
definition ERROR_WORKER_RUNTIME :: u32 where "ERROR_WORKER_RUNTIME = 0x5732b102"
definition ERROR_WORKER_PROTOCOL :: u32 where "ERROR_WORKER_PROTOCOL = 0x5732b103"

definition worker_error :: "u32 \<Rightarrow> backend_error" where
  "worker_error code = \<lparr> be_class = EcOther, be_code = code, be_stage = StUnset, be_trace = [] \<rparr>"

datatype wcommand = CmdStart opid inc_request | CmdPoll opid work_budget

datatype wresponse = RspStarted opid "backend_error + unit" | RspPolled opid "backend_error + work_report"

primrec rsp_id :: "wresponse \<Rightarrow> opid" where
  "rsp_id (RspStarted i _) = i"
| "rsp_id (RspPolled i _) = i"

record mailbox =
  wm_command :: "wcommand option"
  wm_response :: "wresponse option"
  wm_cancellation :: "opid option"
  wm_busy :: bool
  wm_active :: "opid option"
  wm_last_terminal :: "opid option"
  wm_deadline :: "u64 option"
  wm_stale_dropped :: u32
  wm_stale_injected :: u32
  wm_armed :: bool

definition wm_new :: mailbox where
  "wm_new = \<lparr> wm_command = None, wm_response = None, wm_cancellation = None, wm_busy = False, wm_active = None,
     wm_last_terminal = None, wm_deadline = None, wm_stale_dropped = 0, wm_stale_injected = 0, wm_armed = False \<rparr>"

text \<open>What one turn took out of the mailbox.\<close>

record turn =
  tu_cancel :: "opid option"
  tu_command :: "wcommand option"
  tu_previous :: "opid option"
  tu_injected :: "opid option"

record ('p, 'r) worker =
  wk_mailbox :: mailbox
  wk_backend :: "('p, 'r) incb"
  wk_wake :: nat
  wk_turn :: "turn option"
  wk_signals :: wait_signals
  wk_published :: "wresponse list"
  wk_taken :: "wresponse list"

definition wk_new :: "'r \<Rightarrow> 'p \<Rightarrow> ('p, 'r) worker" where
  "wk_new blank p =
     \<lparr> wk_mailbox = wm_new, wk_backend = (inc_init p)\<lparr> ib_out := replicate SCAN_CAPACITY blank \<rparr>, wk_wake = 0,
       wk_turn = None, wk_signals = ws_new, wk_published = [], wk_taken = [] \<rparr>"

definition on_mailbox :: "(mailbox \<Rightarrow> mailbox) \<Rightarrow> ('p, 'r) worker \<Rightarrow> ('p, 'r) worker" where
  "on_mailbox f s = s\<lparr> wk_mailbox := f (wk_mailbox s) \<rparr>"

section \<open>The runner's side\<close>

text \<open>\<open>up\<close>: raising the semaphore succeeds.\<close>

definition wk_up :: "bool \<Rightarrow> ('p, 'r) worker \<Rightarrow> (backend_error + unit) \<times> ('p, 'r) worker" where
  "wk_up up s = (if up then (Inr (), s\<lparr> wk_wake := wk_wake s + 1 \<rparr>) else (Inl (worker_error ERROR_WORKER_RUNTIME), s))"

definition wk_submit :: "bool \<Rightarrow> wcommand \<Rightarrow> ('p, 'r) worker \<Rightarrow> (backend_error + unit) \<times> ('p, 'r) worker" where
  "wk_submit up c s =
     (let m = wk_mailbox s
      in if wm_command m \<noteq> None \<or> wm_busy m \<or> wm_response m \<noteq> None then (Inl (worker_error ERROR_WORKER_BUSY), s)
         else wk_up up (s\<lparr> wk_mailbox := m\<lparr> wm_command := Some c \<rparr> \<rparr>))"

definition wk_request_cancel :: "bool \<Rightarrow> opid \<Rightarrow> ('p, 'r) worker \<Rightarrow> (backend_error + unit) \<times> ('p, 'r) worker" where
  "wk_request_cancel up opid s = wk_up up (on_mailbox (\<lambda>m. m\<lparr> wm_cancellation := Some opid \<rparr>) s)"

fun scan_count :: "wresponse option \<Rightarrow> nat \<Rightarrow> nat option" where
  "scan_count (Some (RspPolled _ (Inr report))) room =
     (case wr_disposition report of
        DComplete (CScan n _) \<Rightarrow> Some (min (min n room) SCAN_CAPACITY)
      | _ \<Rightarrow> None)"
| "scan_count _ room = None"

definition wk_copy_to :: "nat \<Rightarrow> 'r list \<Rightarrow> ('p, 'r) worker \<Rightarrow> 'r list" where
  "wk_copy_to n out s = take n (ib_out (wk_backend s)) @ drop n out"

text \<open>\<open>gap\<close> is what the worker does between the critical sections.\<close>

definition wk_take_response ::
  "(('p, 'r) worker \<Rightarrow> ('p, 'r) worker) \<Rightarrow> opid \<Rightarrow> 'r list \<Rightarrow> ('p, 'r) worker
    \<Rightarrow> wresponse option \<times> 'r list \<times> ('p, 'r) worker" where
  "wk_take_response gap expected out s =
     (let response = wm_response (wk_mailbox s);
          s1 = (on_mailbox (\<lambda>m. m\<lparr> wm_response := None \<rparr>) s)
                 \<lparr> wk_taken := wk_taken s @ (case response of None \<Rightarrow> [] | Some r \<Rightarrow> [r]) \<rparr>
      in if (case response of None \<Rightarrow> False | Some r \<Rightarrow> rsp_id r \<noteq> expected)
         then (response, out, gap (on_mailbox (\<lambda>m. m\<lparr> wm_stale_dropped := sat_inc (wm_stale_dropped m) \<rparr>) s1))
         else (case scan_count response (length out) of
                 None \<Rightarrow> (response, out, gap s1)
               | Some n \<Rightarrow>
                   let s2 = gap (on_mailbox (\<lambda>m. m\<lparr> wm_busy := True \<rparr>) s1)
                   in (response, wk_copy_to n out s2, on_mailbox (\<lambda>m. m\<lparr> wm_busy := False \<rparr>) s2)))"

definition wk_arm_injection :: "('p, 'r) worker \<Rightarrow> (backend_error + unit) \<times> ('p, 'r) worker" where
  "wk_arm_injection s =
     (let m = wk_mailbox s
      in if wm_last_terminal m = None \<or> wm_armed m then (Inl (worker_error ERROR_WORKER_PROTOCOL), s)
         else (Inr (), s\<lparr> wk_mailbox := m\<lparr> wm_armed := True \<rparr> \<rparr>))"

definition wk_deadline :: "opid \<Rightarrow> ('p, 'r) worker \<Rightarrow> u64 option" where
  "wk_deadline opid s = (if wm_active (wk_mailbox s) = Some opid then wm_deadline (wk_mailbox s) else None)"

definition waiting_report :: "admits \<Rightarrow> opid \<Rightarrow> work_budget \<Rightarrow> backend_error + work_report" where
  "waiting_report ok opid budget =
     (if ok opid budget 0 0 False (DPending {WBackend})
      then Inr \<lparr> wr_id = opid, wr_events = 0, wr_elapsed_us = 0, wr_progress = False, wr_disposition = DPending {WBackend} \<rparr>
      else Inl (worker_error ERROR_WORKER_PROTOCOL))"

definition wk_submit_poll ::
  "admits \<Rightarrow> bool \<Rightarrow> opid \<Rightarrow> work_budget \<Rightarrow> ('p, 'r) worker \<Rightarrow> (backend_error + work_report) \<times> ('p, 'r) worker" where
  "wk_submit_poll ok up opid budget s =
     (case wk_submit up (CmdPoll opid budget) s of
        (Inr _, s1) \<Rightarrow> (waiting_report ok opid budget, s1)
      | (Inl e, s1) \<Rightarrow> (if be_code e = ERROR_WORKER_BUSY then waiting_report ok opid budget else Inl e, s1))"

text \<open>The proxy's poll.  The list gives what the worker does in each round; after it the worker is quiet.\<close>

definition gap_of :: "(('s \<Rightarrow> 's) list) \<Rightarrow> ('s \<Rightarrow> 's)" where
  "gap_of gs = (case gs of [] \<Rightarrow> id | g # _ \<Rightarrow> g)"

lemma take_response_fst: "fst (wk_take_response g i out s) = wm_response (wk_mailbox s)"
  by (simp add: wk_take_response_def Let_def split: option.split)

lemma take_response_clears: "wm_response (wk_mailbox (snd (snd (wk_take_response id i out s)))) = None"
  by (simp add: wk_take_response_def Let_def on_mailbox_def split: option.split)

function wk_poll ::
  "admits \<Rightarrow> bool \<Rightarrow> (('p, 'r) worker \<Rightarrow> ('p, 'r) worker) list \<Rightarrow> opid \<Rightarrow> work_budget \<Rightarrow> 'r list \<Rightarrow> ('p, 'r) worker
    \<Rightarrow> (backend_error + work_report) \<times> 'r list \<times> ('p, 'r) worker" where
  "wk_poll ok up gaps opid budget out s =
     (let t = wk_take_response (gap_of gaps) opid out s; out1 = fst (snd t); s1 = snd (snd t);
          submit = (case wk_submit_poll ok up opid budget s1 of (r, s2) \<Rightarrow> (r, out1, s2))
      in case fst t of
           None \<Rightarrow> submit
         | Some (RspStarted i result) \<Rightarrow>
             (if i = opid then (case result of Inl e \<Rightarrow> (Inl e, out1, s1) | Inr _ \<Rightarrow> submit)
              else wk_poll ok up (tl gaps) opid budget out1 s1)
         | Some (RspPolled i result) \<Rightarrow>
             (if i = opid then (result, out1, s1) else wk_poll ok up (tl gaps) opid budget out1 s1))"
  by pat_completeness auto
termination
proof (relation "measure (\<lambda>(ok, up, gaps, opid, budget, out, s). 2 * length gaps + (if wm_response (wk_mailbox s) = None then 0 else 1))",
    goal_cases)
  case 1
  then show ?case by simp
next
  case (2 ok up gaps opid budget out s t out1 s1)
  have "wm_response (wk_mailbox s) \<noteq> None" using 2 take_response_fst[of "gap_of gaps" opid out s] by simp
  then show ?case using 2 by (cases gaps) (simp_all add: gap_of_def take_response_clears split_beta)
next
  case (3 ok up gaps opid budget out s t out1 s1)
  have "wm_response (wk_mailbox s) \<noteq> None" using 3 take_response_fst[of "gap_of gaps" opid out s] by simp
  then show ?case using 3 by (cases gaps) (simp_all add: gap_of_def take_response_clears split_beta)
qed

declare wk_poll.simps [simp del]

section \<open>The worker's side\<close>

text \<open>The first half of a turn: the worker wakes and empties the mailbox.\<close>

definition wk_take :: "('p, 'r) worker \<Rightarrow> ('p, 'r) worker" where
  "wk_take s =
     (if wk_turn s \<noteq> None \<or> wk_wake s = 0 then s
      else
        let m = wk_mailbox s;
            injected = (case (wm_command m, wm_last_terminal m) of
                          (Some (CmdPoll i budget), Some stale) \<Rightarrow> if wm_armed m \<and> stale \<noteq> i then Some stale else None
                        | _ \<Rightarrow> None)
        in s\<lparr> wk_wake := wk_wake s - 1,
              wk_turn := Some \<lparr> tu_cancel = wm_cancellation m, tu_command = wm_command m, tu_previous = wm_active m,
                                tu_injected = injected \<rparr>,
              wk_mailbox := m\<lparr> wm_cancellation := None, wm_command := None,
                wm_armed := (if injected \<noteq> None then False else wm_armed m),
                wm_stale_injected := (if injected \<noteq> None then sat_inc (wm_stale_injected m) else wm_stale_injected m),
                wm_busy := (wm_cancellation m \<noteq> None \<or> wm_command m \<noteq> None) \<rparr> \<rparr>)"

definition is_scan_request :: "inc_request \<Rightarrow> bool" where
  "is_scan_request rq = (case rq of RqScan _ \<Rightarrow> True | _ \<Rightarrow> False)"

text \<open>The backend calls of a turn.\<close>

definition wk_call ::
  "('p, 'r) sport \<Rightarrow> (nat \<Rightarrow> u64) \<Rightarrow> admits \<Rightarrow> 'r \<Rightarrow> turn \<Rightarrow> ('p, 'r) incb \<Rightarrow> wresponse option \<times> ('p, 'r) incb" where
  "wk_call P clk ok blank t b0 =
     (let b = (case tu_cancel t of None \<Rightarrow> b0 | Some i \<Rightarrow> snd (inc_cancel i b0))
      in case tu_command t of
           None \<Rightarrow> (None, b)
         | Some (CmdStart i rq) \<Rightarrow>
             (case inc_start clk i rq (if is_scan_request rq then b\<lparr> ib_out := replicate SCAN_CAPACITY blank \<rparr> else b) of
                (r, b1) \<Rightarrow> (Some (RspStarted i r), b1))
         | Some (CmdPoll i budget) \<Rightarrow>
             (case tu_injected t of
                Some stale \<Rightarrow>
                  (Some (RspPolled stale (Inr \<lparr> wr_id = stale, wr_events = 0, wr_elapsed_us = 1, wr_progress = True,
                                                 wr_disposition = DComplete CInitialized \<rparr>)), b)
              | None \<Rightarrow> (case inc_poll P clk ok i budget b of (r, b1) \<Rightarrow> (Some (RspPolled i r), b1))))"

definition next_active :: "opid option \<Rightarrow> wresponse option \<Rightarrow> opid option" where
  "next_active previous response =
     (case response of
        None \<Rightarrow> previous
      | Some r \<Rightarrow>
          (if previous \<noteq> None \<and> previous \<noteq> Some (rsp_id r) then previous
           else (case r of
                   RspStarted i (Inr _) \<Rightarrow> Some i
                 | RspPolled i (Inr report) \<Rightarrow>
                     (case wr_disposition report of
                        DPending _ \<Rightarrow> Some i
                      | DBudgetExhausted _ \<Rightarrow> Some i
                      | _ \<Rightarrow> None)
                 | _ \<Rightarrow> None)))"

text \<open>The second half: the backend call and the publication.\<close>

definition wk_finish ::
  "('p, 'r) sport \<Rightarrow> (nat \<Rightarrow> u64) \<Rightarrow> admits \<Rightarrow> 'r \<Rightarrow> ('p, 'r) worker \<Rightarrow> ('p, 'r) worker" where
  "wk_finish P clk ok blank s =
     (case wk_turn s of
        None \<Rightarrow> s
      | Some t \<Rightarrow>
          (case wk_call P clk ok blank t (wk_backend s) of
             (response, b) \<Rightarrow>
               let active = next_active (tu_previous t) response;
                   deadline = (case active of None \<Rightarrow> None | Some i \<Rightarrow> inc_next_deadline i b)
               in (on_mailbox (\<lambda>m. m\<lparr> wm_last_terminal := (if tu_previous t \<noteq> None \<and> active = None then tu_previous t
                                                         else wm_last_terminal m),
                                     wm_busy := False, wm_active := active, wm_deadline := deadline,
                                     wm_response := (case response of None \<Rightarrow> wm_response m | Some r \<Rightarrow> Some r) \<rparr>) s)
                    \<lparr> wk_backend := b, wk_turn := None, wk_signals := signal_backend (wk_signals s),
                      wk_published := wk_published s @ (case response of None \<Rightarrow> [] | Some r \<Rightarrow> [r]) \<rparr>))"

datatype wstep = WTake | WFinish

fun wk_half ::
  "('p, 'r) sport \<Rightarrow> (nat \<Rightarrow> u64) \<Rightarrow> admits \<Rightarrow> 'r \<Rightarrow> wstep \<Rightarrow> ('p, 'r) worker \<Rightarrow> ('p, 'r) worker" where
  "wk_half P clk ok blank WTake s = wk_take s"
| "wk_half P clk ok blank WFinish s = wk_finish P clk ok blank s"

text \<open>\<open>wk_submit\<close> and \<open>wk_request_cancel\<close> write the mailbox and raise the semaphore in one step.  Nothing is lost by
  that: what the worker does between the two, it can as well do after them.\<close>

definition raised :: "('p, 'r) worker \<Rightarrow> ('p, 'r) worker" where
  "raised s = s\<lparr> wk_wake := wk_wake s + 1 \<rparr>"

lemma take_raised:
  assumes "wk_turn s = None" "wk_wake s \<noteq> 0"
  shows "raised (wk_take s) = wk_take (raised s)"
  using assms by (simp add: raised_def wk_take_def Let_def)

lemma finish_raised: "raised (wk_finish P clk ok blank s) = wk_finish P clk ok blank (raised s)"
  by (simp add: raised_def wk_finish_def Let_def on_mailbox_def split: option.split prod.split)

lemma worker_after_raise:
  "\<exists>ws'. raised (fold (wk_half P clk ok blank) ws s) = fold (wk_half P clk ok blank) ws' (raised s)"
proof (induction ws arbitrary: s)
  case Nil
  show ?case by (rule exI [of _ "[]"]) simp
next
  case (Cons w ws)
  obtain ws' where ih: "raised (fold (wk_half P clk ok blank) ws (wk_half P clk ok blank w s))
      = fold (wk_half P clk ok blank) ws' (raised (wk_half P clk ok blank w s))"
    using Cons.IH by blast
  show ?case
  proof (cases "w = WTake \<and> (wk_turn s \<noteq> None \<or> wk_wake s = 0)")
    case True
    then have "wk_half P clk ok blank w s = s" by (auto simp: wk_take_def)
    with ih show ?thesis by (intro exI [of _ ws']) simp
  next
    case False
    then have "raised (wk_half P clk ok blank w s) = wk_half P clk ok blank w (raised s)"
      by (cases w) (auto simp: take_raised finish_raised)
    with ih show ?thesis by (intro exI [of _ "w # ws'"]) simp
  qed
qed

section \<open>Runs\<close>

datatype 'r wop = OpStart bool opid inc_request | OpPoll bool "wstep list list" opid work_budget "'r list"
  | OpCancel bool opid | OpArm | OpWorker wstep

fun wk_step ::
  "('p, 'r) sport \<Rightarrow> (nat \<Rightarrow> u64) \<Rightarrow> admits \<Rightarrow> 'r \<Rightarrow> 'r wop \<Rightarrow> ('p, 'r) worker \<Rightarrow> ('p, 'r) worker" where
  "wk_step P clk ok blank (OpStart up i rq) s = snd (wk_submit up (CmdStart i rq) s)"
| "wk_step P clk ok blank (OpPoll up gaps i budget out) s =
     snd (snd (wk_poll ok up (map (fold (wk_half P clk ok blank)) gaps) i budget out s))"
| "wk_step P clk ok blank (OpCancel up i) s = snd (wk_request_cancel up i s)"
| "wk_step P clk ok blank OpArm s = snd (wk_arm_injection s)"
| "wk_step P clk ok blank (OpWorker w) s = wk_half P clk ok blank w s"

text \<open>At most one command is on its way, the mailbox holds its response until the proxy takes it, and the
  responses taken are the responses published, in order.\<close>

definition turn_command :: "('p, 'r) worker \<Rightarrow> bool" where
  "turn_command s = (case wk_turn s of None \<Rightarrow> False | Some t \<Rightarrow> tu_command t \<noteq> None)"

definition wk_inv :: "('p, 'r) worker \<Rightarrow> bool" where
  "wk_inv s \<longleftrightarrow>
     (wm_command (wk_mailbox s) \<noteq> None \<longrightarrow> \<not> turn_command s \<and> wm_response (wk_mailbox s) = None) \<and>
     (turn_command s \<longrightarrow> wm_response (wk_mailbox s) = None \<and> wm_busy (wk_mailbox s)) \<and>
     wk_published s = wk_taken s @ (case wm_response (wk_mailbox s) of None \<Rightarrow> [] | Some r \<Rightarrow> [r])"

definition wk_quiet :: "('p, 'r) worker \<Rightarrow> bool" where
  "wk_quiet s \<longleftrightarrow> wk_inv s \<and> wm_command (wk_mailbox s) = None \<and> \<not> turn_command s \<and> wm_response (wk_mailbox s) = None"

text \<open>No wake is lost: something to take out of the mailbox means the semaphore is raised.\<close>

definition wake_inv :: "('p, 'r) worker \<Rightarrow> bool" where
  "wake_inv s \<longleftrightarrow> (wm_command (wk_mailbox s) \<noteq> None \<or> wm_cancellation (wk_mailbox s) \<noteq> None \<longrightarrow> 0 < wk_wake s)"

fun ups :: "'r wop \<Rightarrow> bool" where
  "ups (OpStart up _ _) = up"
| "ups (OpPoll up _ _ _ _) = up"
| "ups (OpCancel up _) = up"
| "ups _ = True"

section \<open>One command, one response\<close>

lemma on_mailbox_simps [simp]:
  "wk_mailbox (on_mailbox f s) = f (wk_mailbox s)" "wk_backend (on_mailbox f s) = wk_backend s"
  "wk_wake (on_mailbox f s) = wk_wake s" "wk_turn (on_mailbox f s) = wk_turn s"
  "wk_published (on_mailbox f s) = wk_published s" "wk_taken (on_mailbox f s) = wk_taken s"
  "turn_command (on_mailbox f s) = turn_command s"
  by (simp_all add: on_mailbox_def turn_command_def)

lemma wk_call_response: "fst (wk_call P clk ok blank t b) = None \<longleftrightarrow> tu_command t = None"
  by (auto simp: wk_call_def Let_def split: option.splits wcommand.splits prod.splits)

lemma inc_cancel_out [simp]: "ib_out (snd (inc_cancel i b)) = ib_out b"
  by (simp add: inc_cancel_def split: option.split)

lemma wk_call_quiet: "tu_command t = None \<Longrightarrow> ib_out (snd (wk_call P clk ok blank t b)) = ib_out b"
  by (simp add: wk_call_def Let_def split: option.split)

lemma wk_take_inv: "wk_inv s \<Longrightarrow> wk_inv (wk_take s)"
  by (auto simp: wk_inv_def wk_take_def turn_command_def Let_def split: option.splits)

lemma wk_take_quiet: "wk_quiet s \<Longrightarrow> wk_quiet (wk_take s)"
  using wk_take_inv[of s] by (auto simp: wk_quiet_def wk_take_def turn_command_def Let_def)

lemma wk_take_backend [simp]: "wk_backend (wk_take s) = wk_backend s"
  by (simp add: wk_take_def Let_def)

text \<open>What a finished turn leaves.\<close>

lemma wk_finish_views:
  assumes t: "wk_turn s = Some t" and c: "wk_call P clk ok blank t (wk_backend s) = (response, b)"
  shows "wk_turn (wk_finish P clk ok blank s) = None"
    "wm_command (wk_mailbox (wk_finish P clk ok blank s)) = wm_command (wk_mailbox s)"
    "wm_cancellation (wk_mailbox (wk_finish P clk ok blank s)) = wm_cancellation (wk_mailbox s)"
    "wm_response (wk_mailbox (wk_finish P clk ok blank s)) = (case response of None \<Rightarrow> wm_response (wk_mailbox s) | Some r \<Rightarrow> Some r)"
    "wk_published (wk_finish P clk ok blank s) = wk_published s @ (case response of None \<Rightarrow> [] | Some r \<Rightarrow> [r])"
    "wk_taken (wk_finish P clk ok blank s) = wk_taken s" "wk_wake (wk_finish P clk ok blank s) = wk_wake s"
    "wk_backend (wk_finish P clk ok blank s) = b"
  using assms by (simp_all add: wk_finish_def Let_def)

lemma wk_finish_idle: "wk_turn s = None \<Longrightarrow> wk_finish P clk ok blank s = s"
  by (simp add: wk_finish_def)

lemma wk_finish_inv:
  assumes inv: "wk_inv s"
  shows "wk_inv (wk_finish P clk ok blank s)"
proof (cases "wk_turn s")
  case None
  then show ?thesis using inv by (simp add: wk_finish_idle)
next
  case (Some t)
  obtain r b where c: "wk_call P clk ok blank t (wk_backend s) = (r, b)" by (cases "wk_call P clk ok blank t (wk_backend s)")
  note v = wk_finish_views[OF Some c]
  have r: "r = None \<longleftrightarrow> tu_command t = None" using wk_call_response[of P clk ok blank t "wk_backend s"] c by simp
  have tc: "turn_command s \<longleftrightarrow> tu_command t \<noteq> None" using Some by (simp add: turn_command_def)
  have ntc: "\<not> turn_command (wk_finish P clk ok blank s)" using v(1) by (simp add: turn_command_def)
  show ?thesis
  proof (cases r)
    case None
    then show ?thesis using inv ntc unfolding wk_inv_def v by simp
  next
    case (Some x)
    then have "wm_response (wk_mailbox s) = None" "wm_command (wk_mailbox s) = None"
      using r tc inv by (auto simp: wk_inv_def)
    then show ?thesis using inv ntc Some unfolding wk_inv_def v by simp
  qed
qed

lemma wk_finish_quiet:
  assumes q: "wk_quiet s"
  shows "wk_quiet (wk_finish P clk ok blank s) \<and> ib_out (wk_backend (wk_finish P clk ok blank s)) = ib_out (wk_backend s)"
proof (cases "wk_turn s")
  case None
  then show ?thesis using q by (simp add: wk_finish_idle)
next
  case (Some t)
  obtain r b where c: "wk_call P clk ok blank t (wk_backend s) = (r, b)" by (cases "wk_call P clk ok blank t (wk_backend s)")
  note v = wk_finish_views[OF Some c]
  have t: "tu_command t = None" using q Some by (simp add: wk_quiet_def turn_command_def)
  then have "r = None" "ib_out b = ib_out (wk_backend s)"
    using wk_call_response[of P clk ok blank t "wk_backend s"] wk_call_quiet[OF t, of P clk ok blank "wk_backend s"] c by simp_all
  then show ?thesis
    using q wk_finish_inv[of s] v by (simp add: wk_quiet_def turn_command_def)
qed

lemma wk_half_inv: "wk_inv s \<Longrightarrow> wk_inv (wk_half P clk ok blank w s)"
  by (cases w) (simp_all add: wk_take_inv wk_finish_inv)

interpretation worker_halves: machine "wk_half P clk ok blank" wk_inv for P clk ok blank
  by unfold_locales (rule wk_half_inv)

lemma wk_halves_quiet:
  "wk_quiet s \<Longrightarrow> wk_quiet (fold (wk_half P clk ok blank) ws s)
     \<and> ib_out (wk_backend (fold (wk_half P clk ok blank) ws s)) = ib_out (wk_backend s)"
proof (induction ws arbitrary: s)
  case (Cons w ws)
  have "wk_quiet (wk_half P clk ok blank w s) \<and> ib_out (wk_backend (wk_half P clk ok blank w s)) = ib_out (wk_backend s)"
    using Cons.prems by (cases w) (simp_all add: wk_take_quiet wk_finish_quiet)
  then show ?case using Cons.IH by simp
qed simp

text \<open>What the proxy relies on while the worker runs between its critical sections.\<close>

locale worker_gap =
  fixes gap :: "('p, 'r) worker \<Rightarrow> ('p, 'r) worker"
  assumes gap_inv: "wk_inv s \<Longrightarrow> wk_inv (gap s)"
    and gap_quiet: "wk_quiet s \<Longrightarrow> wk_quiet (gap s)"
    and gap_out: "wk_quiet s \<Longrightarrow> ib_out (wk_backend (gap s)) = ib_out (wk_backend s)"
begin

lemma taken_quiet:
  assumes "wk_inv s" and "wm_response (wk_mailbox s) = Some r"
  shows "wk_quiet ((on_mailbox (\<lambda>m. m\<lparr> wm_response := None \<rparr>) s)\<lparr> wk_taken := wk_taken s @ [r] \<rparr>)"
  using assms by (auto simp: wk_quiet_def wk_inv_def turn_command_def split: option.splits)

lemma quiet_mailbox:
  assumes "wk_quiet s" and "\<And>m. wm_command (f m) = wm_command m" and "\<And>m. wm_response (f m) = wm_response m"
  shows "wk_quiet (on_mailbox f s)"
  using assms by (simp add: wk_quiet_def wk_inv_def)

lemma take_response_quiet:
  assumes inv: "wk_inv s" and r: "wm_response (wk_mailbox s) = Some r"
  shows "wk_quiet (snd (snd (wk_take_response gap i out s)))"
    and "rsp_id r = i \<Longrightarrow> fst (snd (wk_take_response gap i out s)) =
      (case scan_count (Some r) (length out) of None \<Rightarrow> out | Some n \<Rightarrow> take n (ib_out (wk_backend s)) @ drop n out)"
    and "rsp_id r \<noteq> i \<Longrightarrow> fst (snd (wk_take_response gap i out s)) = out"
proof -
  define s1 where "s1 = (on_mailbox (\<lambda>m. m\<lparr> wm_response := None \<rparr>) s)\<lparr> wk_taken := wk_taken s @ [r] \<rparr>"
  have q: "wk_quiet s1" unfolding s1_def by (rule taken_quiet[OF inv r])
  have q1: "wk_quiet (gap (on_mailbox (\<lambda>m. m\<lparr> wm_stale_dropped := sat_inc (wm_stale_dropped m) \<rparr>) s1))"
    by (rule gap_quiet, rule quiet_mailbox[OF q]) simp_all
  have q2: "wk_quiet (on_mailbox (\<lambda>m. m\<lparr> wm_busy := True \<rparr>) s1)"
    by (rule quiet_mailbox[OF q]) simp_all
  have q3: "wk_quiet (on_mailbox (\<lambda>m. m\<lparr> wm_busy := False \<rparr>) (gap (on_mailbox (\<lambda>m. m\<lparr> wm_busy := True \<rparr>) s1)))"
    by (rule quiet_mailbox[OF gap_quiet[OF q2]]) simp_all
  have o: "ib_out (wk_backend (gap (on_mailbox (\<lambda>m. m\<lparr> wm_busy := True \<rparr>) s1))) = ib_out (wk_backend s)"
    using gap_out[OF q2] by (simp add: s1_def)
  have e: "wk_take_response gap i out s =
      (if rsp_id r \<noteq> i then (Some r, out, gap (on_mailbox (\<lambda>m. m\<lparr> wm_stale_dropped := sat_inc (wm_stale_dropped m) \<rparr>) s1))
       else (case scan_count (Some r) (length out) of
               None \<Rightarrow> (Some r, out, gap s1)
             | Some n \<Rightarrow> (Some r, wk_copy_to n out (gap (on_mailbox (\<lambda>m. m\<lparr> wm_busy := True \<rparr>) s1)),
                 on_mailbox (\<lambda>m. m\<lparr> wm_busy := False \<rparr>) (gap (on_mailbox (\<lambda>m. m\<lparr> wm_busy := True \<rparr>) s1)))))"
    using r by (simp add: wk_take_response_def Let_def s1_def split: option.split)
  show "wk_quiet (snd (snd (wk_take_response gap i out s)))"
    using q1 q3 gap_quiet[OF q] unfolding e by (simp split: option.split)
  show "fst (snd (wk_take_response gap i out s)) =
      (case scan_count (Some r) (length out) of None \<Rightarrow> out | Some n \<Rightarrow> take n (ib_out (wk_backend s)) @ drop n out)"
    if "rsp_id r = i"
    using that unfolding e by (simp add: wk_copy_to_def o split: option.split)
  show "fst (snd (wk_take_response gap i out s)) = out" if "rsp_id r \<noteq> i"
    using that unfolding e by simp
qed

lemma take_response_inv:
  assumes inv: "wk_inv s"
  shows "wk_inv (snd (snd (wk_take_response gap i out s)))"
proof (cases "wm_response (wk_mailbox s)")
  case None
  have "(on_mailbox (\<lambda>m. m\<lparr> wm_response := None \<rparr>) s)\<lparr> wk_taken := wk_taken s @ [] \<rparr> = s"
    using None by (simp add: on_mailbox_def)
  then show ?thesis using gap_inv[OF inv] None by (simp add: wk_take_response_def Let_def)
next
  case (Some r)
  then show ?thesis using take_response_quiet(1)[OF inv Some] by (simp add: wk_quiet_def)
qed

end

interpretation worker_turns: worker_gap "fold (wk_half P clk ok blank) ws" for P clk ok blank ws
  by unfold_locales (simp_all add: worker_halves.run_inv wk_halves_quiet)

lemma gap_of_turns: "gap_of (map (fold h) gs) = fold h (case gs of [] \<Rightarrow> [] | g # _ \<Rightarrow> g)"
  by (simp add: gap_of_def fun_eq_iff split: list.split)

lemma wk_submit_inv: "wk_inv s \<Longrightarrow> wk_inv (snd (wk_submit up c s))"
  by (auto simp: wk_submit_def wk_up_def wk_inv_def turn_command_def Let_def)

lemma wk_submit_poll_inv: "wk_inv s \<Longrightarrow> wk_inv (snd (wk_submit_poll ok up i b s))"
  using wk_submit_inv[of s up "CmdPoll i b"] by (auto simp: wk_submit_poll_def split: prod.splits sum.splits)

text \<open>A proxy's poll only looks once at a response: a stale one leaves nothing behind it.\<close>

lemma wk_poll_quiet:
  assumes "wm_response (wk_mailbox s) = None"
  shows "wk_poll ok up gaps i budget out s =
    (case wk_submit_poll ok up i budget (snd (snd (wk_take_response (gap_of gaps) i out s))) of (r, s2) \<Rightarrow> (r, out, s2))"
proof -
  have "fst (snd (wk_take_response (gap_of gaps) i out s)) = out"
    using assms by (simp add: wk_take_response_def Let_def)
  then show ?thesis using assms by (subst wk_poll.simps) (simp add: take_response_fst Let_def)
qed

lemma wk_poll_cases:
  assumes inv: "wk_inv s" and gaps_def: "gaps = map (fold (wk_half P clk ok blank)) gs"
    and s1_def: "s1 = snd (snd (wk_take_response (gap_of gaps) i out s))"
  shows "wk_poll ok up gaps i budget out s =
    (case wm_response (wk_mailbox s) of
       None \<Rightarrow> (case wk_submit_poll ok up i budget s1 of (r, s2) \<Rightarrow> (r, out, s2))
     | Some (RspStarted j result) \<Rightarrow>
         (if j = i
          then (case result of
                  Inl e \<Rightarrow> (Inl e, out, s1)
                | Inr _ \<Rightarrow> (case wk_submit_poll ok up i budget s1 of (r, s2) \<Rightarrow> (r, out, s2)))
          else wk_poll ok up (tl gaps) i budget out s1)
     | Some (RspPolled j result) \<Rightarrow>
         (if j = i
          then (result, case scan_count (Some (RspPolled j result)) (length out) of
                          None \<Rightarrow> out | Some n \<Rightarrow> take n (ib_out (wk_backend s)) @ drop n out, s1)
          else wk_poll ok up (tl gaps) i budget out s1))"
proof (cases "wm_response (wk_mailbox s)")
  case None
  then show ?thesis by (simp add: wk_poll_quiet s1_def)
next
  case (Some r)
  define g where "g = gap_of gaps"
  have g: "g = fold (wk_half P clk ok blank) (case gs of [] \<Rightarrow> [] | x # _ \<Rightarrow> x)"
    unfolding g_def gaps_def by (rule gap_of_turns)
  have o1: "rsp_id r = i \<Longrightarrow> fst (snd (wk_take_response g i out s)) =
      (case scan_count (Some r) (length out) of None \<Rightarrow> out | Some n \<Rightarrow> take n (ib_out (wk_backend s)) @ drop n out)"
    and o2: "rsp_id r \<noteq> i \<Longrightarrow> fst (snd (wk_take_response g i out s)) = out"
    unfolding g by (rule worker_turns.take_response_quiet(2,3)[OF inv Some], assumption)+
  show ?thesis
  proof (cases r)
    case (RspStarted j result)
    then have "fst (snd (wk_take_response g i out s)) = out" using o1 o2 by (cases "j = i") simp_all
    then show ?thesis
      using Some RspStarted by (subst wk_poll.simps) (simp add: take_response_fst Let_def g_def[symmetric] s1_def split: sum.split)
  next
    case (RspPolled j result)
    then show ?thesis
      using Some o1 o2 by (subst wk_poll.simps) (simp add: take_response_fst Let_def g_def[symmetric] s1_def)
  qed
qed

lemma wk_poll_stale:
  assumes "wk_inv s" and "gaps = map (fold (wk_half P clk ok blank)) gs"
    and "wm_response (wk_mailbox s) = Some r" and "rsp_id r \<noteq> i"
  shows "\<exists>s1. wk_inv s1 \<and> wk_poll ok up gaps i budget out s = (case wk_submit_poll ok up i budget s1 of (r, s2) \<Rightarrow> (r, out, s2))"
proof -
  define s1 where "s1 = snd (snd (wk_take_response (gap_of gaps) i out s))"
  have "wk_quiet s1"
    unfolding s1_def assms(2) gap_of_turns by (rule worker_turns.take_response_quiet(1)[OF assms(1,3)])
  then have q: "wm_response (wk_mailbox s1) = None" "wk_inv s1" by (simp_all add: wk_quiet_def)
  have tl: "tl gaps = map (fold (wk_half P clk ok blank)) (tl gs)" using assms(2) by (simp add: map_tl)
  have "wk_poll ok up gaps i budget out s = wk_poll ok up (tl gaps) i budget out s1"
    using wk_poll_cases[OF assms(1,2) s1_def] assms(3,4) by (cases r) simp_all
  also have "\<dots> = (case wk_submit_poll ok up i budget (snd (snd (wk_take_response (gap_of (tl gaps)) i out s1))) of (r, s2) \<Rightarrow> (r, out, s2))"
    by (rule wk_poll_quiet[OF q(1)])
  finally show ?thesis
    using worker_turns.take_response_inv[OF q(2)] unfolding tl gap_of_turns by blast
qed

lemma wk_poll_inv:
  assumes inv: "wk_inv s" and gaps: "gaps = map (fold (wk_half P clk ok blank)) gs"
  shows "wk_inv (snd (snd (wk_poll ok up gaps i budget out s)))"
proof -
  define s1 where "s1 = snd (snd (wk_take_response (gap_of gaps) i out s))"
  have s1: "wk_inv s1"
    unfolding s1_def gaps gap_of_turns by (rule worker_turns.take_response_inv[OF inv])
  show ?thesis
  proof (cases "\<exists>r. wm_response (wk_mailbox s) = Some r \<and> rsp_id r \<noteq> i")
    case True
    then obtain s2 where "wk_inv s2"
      "wk_poll ok up gaps i budget out s = (case wk_submit_poll ok up i budget s2 of (r, s2) \<Rightarrow> (r, out, s2))"
      using wk_poll_stale[OF inv gaps] by blast
    then show ?thesis using wk_submit_poll_inv by (simp add: split_beta)
  next
    case False
    then show ?thesis
      unfolding wk_poll_cases[OF inv gaps s1_def]
      using s1 wk_submit_poll_inv[OF s1] by (auto simp: split_beta split: option.splits wresponse.splits sum.splits)
  qed
qed

lemma wk_step_inv: "wk_inv s \<Longrightarrow> wk_inv (wk_step P clk ok blank op s)"
proof (cases op)
  case (OpCancel up i)
  assume "wk_inv s"
  then show ?thesis using OpCancel by (auto simp: wk_request_cancel_def wk_up_def wk_inv_def turn_command_def)
next
  case OpArm
  assume "wk_inv s"
  then show ?thesis using OpArm by (auto simp: wk_arm_injection_def wk_inv_def turn_command_def Let_def)
qed (simp_all add: wk_submit_inv wk_poll_inv wk_half_inv)

interpretation worker_runs: machine "wk_step P clk ok blank" wk_inv for P clk ok blank
  by unfold_locales (rule wk_step_inv)

lemma wk_new_inv: "wk_inv (wk_new blank p)"
  by (simp add: wk_new_def wk_inv_def wm_new_def turn_command_def)

section \<open>No command is left waiting\<close>

lemma wk_submit_wake: "wake_inv s \<Longrightarrow> wake_inv (snd (wk_submit True c s))"
  by (auto simp: wk_submit_def wk_up_def wake_inv_def Let_def)

lemma wk_submit_poll_wake: "wake_inv s \<Longrightarrow> wake_inv (snd (wk_submit_poll ok True i b s))"
  using wk_submit_wake[of s "CmdPoll i b"] by (auto simp: wk_submit_poll_def split: prod.splits sum.splits)

lemma wk_half_wake: "wake_inv s \<Longrightarrow> wake_inv (wk_half P clk ok blank w s)"
proof (cases w)
  case WTake
  assume "wake_inv s"
  then show ?thesis using WTake by (auto simp: wk_take_def wake_inv_def Let_def)
next
  case WFinish
  assume w: "wake_inv s"
  show ?thesis
  proof (cases "wk_turn s")
    case None
    then show ?thesis using w WFinish by (simp add: wk_finish_idle)
  next
    case (Some t)
    then show ?thesis
      using w WFinish wk_finish_views(2,3,7)[OF Some surjective_pairing, of P clk ok blank] by (simp add: wake_inv_def)
  qed
qed

interpretation worker_wakes: machine "wk_half P clk ok blank" wake_inv for P clk ok blank
  by unfold_locales (rule wk_half_wake)

lemma wake_mailbox:
  assumes "wake_inv s" and "\<And>m. wm_command (f m) = wm_command m" and "\<And>m. wm_cancellation (f m) = wm_cancellation m"
  shows "wake_inv (on_mailbox f s)"
  using assms by (simp add: wake_inv_def)

lemma wake_taken: "wake_inv (s\<lparr> wk_taken := x \<rparr>) = wake_inv s"
  by (simp add: wake_inv_def)

lemma take_response_wake:
  assumes "wake_inv s" and gap: "\<And>s. wake_inv s \<Longrightarrow> wake_inv (gap s)"
  shows "wake_inv (snd (snd (wk_take_response gap i out s)))"
  unfolding wk_take_response_def Let_def
  by (auto split: option.split intro!: gap wake_mailbox simp: wake_taken assms(1))

lemma wk_poll_wake:
  assumes "wake_inv s" and "\<And>g s. g \<in> set gaps \<Longrightarrow> wake_inv s \<Longrightarrow> wake_inv (g s)"
  shows "wake_inv (snd (snd (wk_poll ok True gaps i budget out s)))"
  using assms
proof (induction ok True gaps i budget out s rule: wk_poll.induct)
  case (1 ok gaps i budget out s)
  define t where "t = wk_take_response (gap_of gaps) i out s"
  define s1 where "s1 = snd (snd t)"
  have s1: "wake_inv s1"
    unfolding s1_def t_def by (rule take_response_wake[OF 1(3)]) (use 1(4) in \<open>auto simp: gap_of_def split: list.splits\<close>)
  have tl: "g \<in> set (tl gaps) \<Longrightarrow> wake_inv s \<Longrightarrow> wake_inv (g s)" for g s
    using 1(4) by (cases gaps) auto
  have ih1: "wake_inv (snd (snd (wk_poll ok True (tl gaps) i budget (fst (snd t)) s1)))"
    if "fst t = Some (RspStarted j r)" "j \<noteq> i" for j r
    by (rule 1(1)[OF t_def refl s1_def refl that(1) refl that(2) s1]) (rule tl)
  have ih2: "wake_inv (snd (snd (wk_poll ok True (tl gaps) i budget (fst (snd t)) s1)))"
    if "fst t = Some (RspPolled j r)" "j \<noteq> i" for j r
    by (rule 1(2)[OF t_def refl s1_def refl that(1) refl that(2) s1]) (rule tl)
  show ?case
    using wk_submit_poll_wake[OF s1, of ok i budget] ih1 ih2 s1
    by (subst wk_poll.simps)
      (auto simp: Let_def t_def[symmetric] s1_def[symmetric] split_beta split: option.split wresponse.split sum.split)
qed

lemma wk_step_wake:
  assumes "wake_inv s" and "ups op"
  shows "wake_inv (wk_step P clk ok blank op s)"
  using assms
proof (cases op)
  case (OpPoll up gaps i budget out)
  then show ?thesis
    using assms by (auto intro!: wk_poll_wake worker_wakes.run_inv)
next
  case OpArm
  then show ?thesis using assms by (auto simp: wk_arm_injection_def wake_inv_def Let_def)
next
  case (OpCancel up i)
  then show ?thesis using assms by (auto simp: wk_request_cancel_def wk_up_def wake_inv_def)
qed (use assms in \<open>simp_all add: wk_submit_wake wk_half_wake\<close>)

lemma wk_run_wake:
  "wake_inv s \<Longrightarrow> list_all ups ops \<Longrightarrow> wake_inv (fold (wk_step P clk ok blank) ops s)"
  by (induction ops arbitrary: s) (auto simp: wk_step_wake)

lemma finish_pending_command:
  assumes inv: "wk_inv s" and c: "wm_command (wk_mailbox s) = Some c"
  shows "wk_turn (wk_finish P clk ok blank s) = None"
    "wm_command (wk_mailbox (wk_finish P clk ok blank s)) = Some c"
    "wm_response (wk_mailbox (wk_finish P clk ok blank s)) = None"
    "wk_published (wk_finish P clk ok blank s) = wk_published s"
    "wk_wake (wk_finish P clk ok blank s) = wk_wake s"
proof -
  have r: "wm_response (wk_mailbox s) = None" and tc: "\<not> turn_command s" using inv c by (simp_all add: wk_inv_def)
  have "wk_turn (wk_finish P clk ok blank s) = None \<and> wm_command (wk_mailbox (wk_finish P clk ok blank s)) = Some c
    \<and> wm_response (wk_mailbox (wk_finish P clk ok blank s)) = None
    \<and> wk_published (wk_finish P clk ok blank s) = wk_published s \<and> wk_wake (wk_finish P clk ok blank s) = wk_wake s"
  proof (cases "wk_turn s")
    case None
    then show ?thesis using c r by (simp add: wk_finish_idle)
  next
    case (Some t)
    obtain x b where call: "wk_call P clk ok blank t (wk_backend s) = (x, b)" by (cases "wk_call P clk ok blank t (wk_backend s)")
    then have "x = None"
      using wk_call_response[of P clk ok blank t "wk_backend s"] tc Some by (simp add: turn_command_def)
    then show ?thesis using c r wk_finish_views[OF Some call] by simp
  qed
  then show "wk_turn (wk_finish P clk ok blank s) = None" "wm_command (wk_mailbox (wk_finish P clk ok blank s)) = Some c"
    "wm_response (wk_mailbox (wk_finish P clk ok blank s)) = None"
    "wk_published (wk_finish P clk ok blank s) = wk_published s" "wk_wake (wk_finish P clk ok blank s) = wk_wake s" by simp_all
qed

lemma turn_answers:
  assumes "wk_turn s = None" and "wm_command (wk_mailbox s) = Some c" and "0 < wk_wake s"
  shows "\<exists>r. wm_response (wk_mailbox (wk_finish P clk ok blank (wk_take s))) = Some r
    \<and> wk_published (wk_finish P clk ok blank (wk_take s)) = wk_published s @ [r]
    \<and> wm_command (wk_mailbox (wk_finish P clk ok blank (wk_take s))) = None"
proof -
  define s2 where "s2 = wk_take s"
  obtain t where t: "wk_turn s2 = Some t" "tu_command t = Some c"
    and m: "wm_command (wk_mailbox s2) = None" "wk_published s2 = wk_published s"
    using assms by (auto simp: s2_def wk_take_def Let_def)
  obtain x b where call: "wk_call P clk ok blank t (wk_backend s2) = (x, b)" by (cases "wk_call P clk ok blank t (wk_backend s2)")
  then obtain r where "x = Some r"
    using wk_call_response[of P clk ok blank t "wk_backend s2"] t(2) by (cases x) auto
  then show ?thesis using wk_finish_views[OF t(1) call] m by (simp add: s2_def)
qed

section \<open>Scripted run\<close>

abbreviation worker_ops :: "nat wop list" where
  "worker_ops \<equiv> [OpStart True 7 (RqScan 1000), OpWorker WTake, OpWorker WFinish, OpPoll True [] 7 demo_budget [],
     OpWorker WTake, OpWorker WFinish, OpPoll True [] 7 demo_budget [], OpPoll True [] 7 demo_budget []]"

definition demo_worker :: "(nat, nat) worker" where
  "demo_worker = fold (wk_step scan_port (\<lambda>n. 0) demo_ok 0) worker_ops (wk_new 0 0)"

lemma demo_worker_command: "wm_command (wk_mailbox demo_worker) = Some (CmdPoll 7 demo_budget)"
  by code_simp

definition demo_done :: "(nat, nat) worker" where
  "demo_done = fold (wk_step scan_port (\<lambda>n. 0) demo_ok 0) (worker_ops @ [OpWorker WTake, OpWorker WFinish]) (wk_new 0 0)"

section \<open>Properties\<close>

text \<open>C38: whatever the interleaving of the proxy and the halves of the worker's turns, at most one command is
  on its way, a turn that runs a command finds the response slot empty, so that no response is ever overwritten, and
  the responses the proxy took are exactly the responses published, in order, up to the one in the slot.\<close>

theorem worker_exactly_once:
  "let s = fold (wk_step P clk ok blank) ops (wk_new blank p)
   in wk_published s = wk_taken s @ (case wm_response (wk_mailbox s) of None \<Rightarrow> [] | Some r \<Rightarrow> [r])
     \<and> \<not> (turn_command s \<and> wm_response (wk_mailbox s) \<noteq> None)
     \<and> \<not> (wm_command (wk_mailbox s) \<noteq> None \<and> turn_command s)
     \<and> \<not> (wm_command (wk_mailbox s) \<noteq> None \<and> wm_response (wk_mailbox s) \<noteq> None)"
proof -
  have "wk_inv (fold (wk_step P clk ok blank) ops (wk_new blank p))" by (rule worker_runs.run_inv[OF wk_new_inv])
  then show ?thesis by (auto simp: wk_inv_def Let_def)
qed

text \<open>C39: a report that the proxy's poll returns is the backend's report for the polled operation, or says that the
  worker has not answered; a response of another operation is never returned.  The scan results of a completed
  scan are copied as the backend left them, whatever turns the worker runs during the copy.\<close>

theorem worker_poll_answers:
  assumes "s = fold (wk_step P clk ok blank) ops (wk_new blank p)"
    and "wk_poll ok up (map (fold (wk_half P clk ok blank)) gaps) i budget out s = (Inr r, out', s')"
  shows "(waiting_report ok i budget = Inr r \<and> out' = out)
    \<or> (wm_response (wk_mailbox s) = Some (RspPolled i (Inr r))
        \<and> out' = (case scan_count (Some (RspPolled i (Inr r))) (length out) of
                    None \<Rightarrow> out | Some n \<Rightarrow> take n (ib_out (wk_backend s)) @ drop n out))"
proof -
  have inv: "wk_inv s" unfolding assms(1) by (rule worker_runs.run_inv[OF wk_new_inv])
  have sub: "waiting_report ok i budget = Inr r \<and> out' = out"
    if "(case wk_submit_poll ok up i budget s1 of (r, s2) \<Rightarrow> (r, out, s2)) = (Inr r, out', s')" for s1
    using that by (auto simp: wk_submit_poll_def split: prod.splits sum.splits if_splits)
  show ?thesis
  proof (cases "\<exists>x. wm_response (wk_mailbox s) = Some x \<and> rsp_id x \<noteq> i")
    case True
    then obtain x where x: "wm_response (wk_mailbox s) = Some x" "rsp_id x \<noteq> i" by blast
    obtain s1 where "wk_poll ok up (map (fold (wk_half P clk ok blank)) gaps) i budget out s
        = (case wk_submit_poll ok up i budget s1 of (r, s2) \<Rightarrow> (r, out, s2))"
      using wk_poll_stale[OF inv refl x, of ok up P clk blank gaps budget out] by blast
    then show ?thesis using sub assms(2) by simp
  next
    case False
    define s1 where "s1 = snd (snd (wk_take_response (gap_of (map (fold (wk_half P clk ok blank)) gaps)) i out s))"
    note e = wk_poll_cases[OF inv refl s1_def, of up budget]
    show ?thesis
    proof (cases "wm_response (wk_mailbox s)")
      case None
      then show ?thesis using sub[of s1] assms(2) unfolding e by simp
    next
      case (Some x)
      then have "rsp_id x = i" using False by simp
      then show ?thesis
        using Some sub[of s1] assms(2) unfolding e by (cases x) (auto split: sum.splits)
    qed
  qed
qed

theorem worker_poll_answers_witness:
  "\<exists>r s'. wk_poll demo_ok True (map (fold (wk_half scan_port (\<lambda>n. 0) demo_ok 0)) [[WTake, WFinish]]) 7 demo_budget [0, 0, 0] demo_done
     = (Inr r, [10, 11, 0], s') \<and> wr_disposition r = DComplete (CScan 2 False)"
proof -
  define q where "q = wk_poll demo_ok True (map (fold (wk_half scan_port (\<lambda>n. 0) demo_ok 0)) [[WTake, WFinish]]) 7 demo_budget [0, 0, 0] demo_done"
  have "(case q of (Inr r, out, s') \<Rightarrow> wr_disposition r = DComplete (CScan 2 False) \<and> out = [10, 11, 0] | _ \<Rightarrow> False)"
    unfolding q_def by code_simp
  then obtain r s' where q: "q = (Inr r, [10, 11, 0], s')" "wr_disposition r = DComplete (CScan 2 False)"
    by (auto split: prod.splits sum.splits)
  from worker_poll_answers[OF demo_done_def q(1)[unfolded q_def]] q show ?thesis unfolding q_def by blast
qed

text \<open>C40: when raising the semaphore never fails, a command in the mailbox is answered by the worker's next two
  turns at the latest, whatever happened before: the turn it is in ends, the next one takes the command, and its
  response is published, once.\<close>

theorem worker_answers:
  assumes "list_all ups ops" and "s = fold (wk_step P clk ok blank) ops (wk_new blank p)"
    and "wm_command (wk_mailbox s) = Some c"
  shows "\<exists>r. wm_response (wk_mailbox (fold (wk_half P clk ok blank) [WFinish, WTake, WFinish] s)) = Some r
    \<and> wk_published (fold (wk_half P clk ok blank) [WFinish, WTake, WFinish] s) = wk_published s @ [r]
    \<and> wm_command (wk_mailbox (fold (wk_half P clk ok blank) [WFinish, WTake, WFinish] s)) = None"
proof -
  have inv: "wk_inv s" unfolding assms(2) by (rule worker_runs.run_inv[OF wk_new_inv])
  have "wake_inv s"
    unfolding assms(2) by (rule wk_run_wake[OF _ assms(1)]) (simp add: wake_inv_def wk_new_def wm_new_def)
  then have "0 < wk_wake s" using assms(3) by (simp add: wake_inv_def)
  then show ?thesis
    using turn_answers[of "wk_finish P clk ok blank s" c P clk ok blank] finish_pending_command[OF inv assms(3), of P clk ok blank]
    by simp
qed

theorem worker_answers_witness:
  "\<exists>r. wm_response (wk_mailbox (fold (wk_half scan_port (\<lambda>n. 0) demo_ok 0) [WFinish, WTake, WFinish] demo_worker)) = Some r"
proof -
  have "list_all ups worker_ops" by simp
  from worker_answers[OF this demo_worker_def demo_worker_command] show ?thesis by blast
qed

end
