(* ===== verification/SeqQueue.thy ===== *)
theory SeqQueue
  imports Prelude
begin

text \<open>
  The sequenced slot queues between vendor callbacks and the runner (\<open>src/src/upstream_supplicant.rs\<close>): management
  frames, scan events, link events and external authentication requests.

  All four have the same protocol.  A producer takes a sequence number, claims a free slot by compare and
  exchange, copies its payload and marks the slot ready; the consumer takes the ready slot with the oldest number,
  compared modulo the word width, and frees it when it drops its guard.  The protocol is modelled once, for any
  payload; each queue adds the checks of its own enqueue.  Producers may preempt each other and the consumer between
  any two of their phases, which is what the steps of the system below are; looking for a free slot and looking
  for the oldest one are single steps.
\<close>

section \<open>Slots\<close>

datatype slot_state = SlotFree | SlotWriting | SlotReady | SlotReading

record 'a sslot =
  sl_state :: slot_state
  sl_seq :: u32
  sl_item :: "'a option"

record 'a squeue =
  sq_next :: u32
  sq_dropped :: u32
  sq_slots :: "'a sslot list"

definition sl_new :: "'a sslot" where
  "sl_new = \<lparr> sl_state = SlotFree, sl_seq = 0, sl_item = None \<rparr>"

definition sq_new :: "nat \<Rightarrow> 'a squeue" where
  "sq_new depth = \<lparr> sq_next = 0, sq_dropped = 0, sq_slots = replicate depth sl_new \<rparr>"

definition sequence_before :: "u32 \<Rightarrow> u32 \<Rightarrow> bool" where
  "sequence_before candidate current \<longleftrightarrow> sint (candidate - current) < 0"

section \<open>Producers\<close>

definition sq_alloc :: "'a squeue \<Rightarrow> u32 \<times> 'a squeue" where
  "sq_alloc q = (sq_next q, q\<lparr> sq_next := sq_next q + 1 \<rparr>)"

definition sq_drop :: "'a squeue \<Rightarrow> 'a squeue" where
  "sq_drop q = q\<lparr> sq_dropped := sq_dropped q + 1 \<rparr>"

definition sq_set :: "nat \<Rightarrow> ('a sslot \<Rightarrow> 'a sslot) \<Rightarrow> 'a squeue \<Rightarrow> 'a squeue" where
  "sq_set i f q = q\<lparr> sq_slots := (sq_slots q)[i := f (sq_slots q ! i)] \<rparr>"

definition sq_claim :: "'a squeue \<Rightarrow> nat option \<times> 'a squeue" where
  "sq_claim q =
     (case position (\<lambda>s. sl_state s = SlotFree) (sq_slots q) of
        None \<Rightarrow> (None, sq_drop q)
      | Some i \<Rightarrow> (Some i, sq_set i (\<lambda>s. s\<lparr> sl_state := SlotWriting \<rparr>) q))"

definition sq_publish :: "nat \<Rightarrow> u32 \<Rightarrow> 'a \<Rightarrow> 'a squeue \<Rightarrow> 'a squeue" where
  "sq_publish i sq x q = sq_set i (\<lambda>s. s\<lparr> sl_state := SlotReady, sl_seq := sq, sl_item := Some x \<rparr>) q"

text \<open>An enqueue that is not preempted.\<close>

definition sq_enqueue :: "'a \<Rightarrow> 'a squeue \<Rightarrow> bool \<times> 'a squeue" where
  "sq_enqueue x q =
     (case sq_alloc q of
        (sq, q1) \<Rightarrow>
          (case sq_claim q1 of
             (None, q2) \<Rightarrow> (False, q2)
           | (Some i, q2) \<Rightarrow> (True, sq_publish i sq x q2)))"

section \<open>The consumer\<close>

fun oldest_ready :: "nat \<Rightarrow> 'a sslot list \<Rightarrow> (nat \<times> u32) option \<Rightarrow> (nat \<times> u32) option" where
  "oldest_ready i [] acc = acc"
| "oldest_ready i (s # ss) acc =
     oldest_ready (i + 1) ss
       (if sl_state s = SlotReady \<and> (case acc of None \<Rightarrow> True | Some (_, current) \<Rightarrow> sequence_before (sl_seq s) current)
        then Some (i, sl_seq s) else acc)"

definition take_oldest_slot :: "'a sslot list \<Rightarrow> nat option" where
  "take_oldest_slot slots =
     (if list_ex (\<lambda>s. sl_state s = SlotWriting) slots then None else map_option fst (oldest_ready 0 slots None))"

definition sq_take :: "'a squeue \<Rightarrow> nat option \<times> 'a squeue" where
  "sq_take q =
     (case take_oldest_slot (sq_slots q) of
        None \<Rightarrow> (None, q)
      | Some i \<Rightarrow> (Some i, sq_set i (\<lambda>s. s\<lparr> sl_state := SlotReading \<rparr>) q))"

definition sq_release :: "nat \<Rightarrow> 'a squeue \<Rightarrow> 'a squeue" where
  "sq_release i q = sq_set i (\<lambda>s. s\<lparr> sl_state := SlotFree \<rparr>) q"

definition sq_has_pending :: "'a squeue \<Rightarrow> bool" where
  "sq_has_pending q = list_ex (\<lambda>s. sl_state s \<noteq> SlotFree) (sq_slots q)"

section \<open>Producers and consumer interleaved\<close>

text \<open>The payload carries the number of its allocation, as a natural number that does not wrap.\<close>

record 'a flight =
  fl_seq :: u32
  fl_item :: "nat \<times> 'a"
  fl_slot :: "nat option"

record 'a sqsys =
  ss_queue :: "(nat \<times> 'a) squeue"
  ss_count :: nat
  ss_flight :: "'a flight list"
  ss_reading :: "nat option"
  ss_published :: "(nat \<times> 'a) list"
  ss_taken :: "(nat \<times> 'a) list"

datatype 'a sqop = PBegin 'a | PClaim nat | PPublish nat | CTake | CRelease

definition remove_at :: "nat \<Rightarrow> 'b list \<Rightarrow> 'b list" where
  "remove_at k xs = take k xs @ drop (Suc k) xs"

fun ss_step :: "'a sqop \<Rightarrow> 'a sqsys \<Rightarrow> 'a sqsys" where
  "ss_step (PBegin x) s =
     (case sq_alloc (ss_queue s) of
        (sq, q) \<Rightarrow> s\<lparr> ss_queue := q, ss_count := ss_count s + 1,
                       ss_flight := ss_flight s @ [\<lparr> fl_seq = sq, fl_item = (ss_count s, x), fl_slot = None \<rparr>] \<rparr>)"
| "ss_step (PClaim k) s =
     (if k < length (ss_flight s) \<and> fl_slot (ss_flight s ! k) = None
      then (case sq_claim (ss_queue s) of
              (None, q) \<Rightarrow> s\<lparr> ss_queue := q, ss_flight := remove_at k (ss_flight s) \<rparr>
            | (Some i, q) \<Rightarrow> s\<lparr> ss_queue := q, ss_flight := (ss_flight s)[k := (ss_flight s ! k)\<lparr> fl_slot := Some i \<rparr>] \<rparr>)
      else s)"
| "ss_step (PPublish k) s =
     (if k < length (ss_flight s)
      then (case fl_slot (ss_flight s ! k) of
              None \<Rightarrow> s
            | Some i \<Rightarrow> s\<lparr> ss_queue := sq_publish i (fl_seq (ss_flight s ! k)) (fl_item (ss_flight s ! k)) (ss_queue s),
                           ss_flight := remove_at k (ss_flight s),
                           ss_published := ss_published s @ [fl_item (ss_flight s ! k)] \<rparr>)
      else s)"
| "ss_step CTake s =
     (if ss_reading s \<noteq> None then s
      else (case sq_take (ss_queue s) of
              (None, q) \<Rightarrow> s\<lparr> ss_queue := q \<rparr>
            | (Some i, q) \<Rightarrow> s\<lparr> ss_queue := q, ss_reading := Some i,
                               ss_taken := ss_taken s @ [the (sl_item (sq_slots (ss_queue s) ! i))] \<rparr>))"
| "ss_step CRelease s =
     (case ss_reading s of
        None \<Rightarrow> s
      | Some i \<Rightarrow> s\<lparr> ss_queue := sq_release i (ss_queue s), ss_reading := None \<rparr>)"

declare ss_step.simps [simp del]

definition ss_new :: "u32 \<Rightarrow> nat \<Rightarrow> 'a sqsys" where
  "ss_new n0 depth = \<lparr> ss_queue = (sq_new depth)\<lparr> sq_next := n0 \<rparr>, ss_count = 0, ss_flight = [], ss_reading = None,
     ss_published = [], ss_taken = [] \<rparr>"

definition ready_item :: "'a sslot \<Rightarrow> 'a option" where
  "ready_item s = (if sl_state s = SlotReady then sl_item s else None)"

definition sq_ready :: "'a squeue \<Rightarrow> 'a list" where
  "sq_ready q = somes (map ready_item (sq_slots q))"

text \<open>Every flight owns the slot it claimed, every ready slot holds a published payload.\<close>

definition claimed :: "'a flight list \<Rightarrow> nat list" where
  "claimed fs = somes (map fl_slot fs)"

definition flights_ok :: "'a sqsys \<Rightarrow> bool" where
  "flights_ok s \<longleftrightarrow> distinct (claimed (ss_flight s)) \<and>
     (\<forall>i \<in> set (claimed (ss_flight s)).
        i < length (sq_slots (ss_queue s)) \<and> sl_state (sq_slots (ss_queue s) ! i) = SlotWriting)"

definition slots_ok :: "'a sqsys \<Rightarrow> bool" where
  "slots_ok s \<longleftrightarrow>
     (\<forall>sl \<in> set (sq_slots (ss_queue s)). sl_state sl = SlotReady \<longrightarrow> sl_item sl \<noteq> None) \<and>
     (\<forall>i. ss_reading s = Some i \<longrightarrow>
        i < length (sq_slots (ss_queue s)) \<and> sl_state (sq_slots (ss_queue s) ! i) = SlotReading)"

text \<open>The numbers of the payloads: taken, waiting in a slot and in the hands of a producer.\<close>

definition live_ids :: "'a sqsys \<Rightarrow> nat list" where
  "live_ids s = map fst (sq_ready (ss_queue s)) @ map (\<lambda>f. fst (fl_item f)) (ss_flight s)"

definition ids_ok :: "'a sqsys \<Rightarrow> bool" where
  "ids_ok s \<longleftrightarrow> distinct (map fst (ss_taken s) @ live_ids s)
     \<and> (\<forall>g \<in> set (map fst (ss_taken s) @ live_ids s). g < ss_count s)"

definition ss_ok :: "'a sqsys \<Rightarrow> bool" where
  "ss_ok s \<longleftrightarrow> flights_ok s \<and> slots_ok s \<and> ids_ok s
     \<and> mset (ss_published s) = mset (ss_taken s) + mset (sq_ready (ss_queue s))"

section \<open>Lists\<close>

lemma at_split:
  assumes "k < length xs"
  obtains ys zs where "xs = ys @ xs ! k # zs" "length ys = k" "remove_at k xs = ys @ zs" "\<And>y. xs[k := y] = ys @ y # zs"
proof
  show "xs = take k xs @ xs ! k # drop (Suc k) xs" using assms by (rule id_take_nth_drop)
  show "length (take k xs) = k" using assms by simp
  show "remove_at k xs = take k xs @ drop (Suc k) xs" by (simp add: remove_at_def)
  show "xs[k := y] = take k xs @ y # drop (Suc k) xs" for y using assms by (rule upd_conv_take_nth_drop)
qed

lemma somes_Cons: "somes (x # xs) = (case x of None \<Rightarrow> [] | Some y \<Rightarrow> [y]) @ somes xs"
  by (cases x) simp_all

lemma sq_ready_set:
  assumes "i < length (sq_slots q)"
  shows "mset (sq_ready (sq_set i f q)) + mset (case ready_item (sq_slots q ! i) of None \<Rightarrow> [] | Some y \<Rightarrow> [y])
    = mset (sq_ready q) + mset (case ready_item (f (sq_slots q ! i)) of None \<Rightarrow> [] | Some y \<Rightarrow> [y])"
proof -
  obtain ys zs where a: "sq_slots q = ys @ sq_slots q ! i # zs"
    and b: "(sq_slots q)[i := f (sq_slots q ! i)] = ys @ f (sq_slots q ! i) # zs"
    using assms by (elim at_split) blast
  have "mset (somes (map ready_item (sq_slots q))) = mset (somes (map ready_item (ys @ sq_slots q ! i # zs)))"
    using a by (rule arg_cong)
  then show ?thesis by (simp add: sq_ready_def sq_set_def b somes_Cons)
qed

lemma sq_set_slots [simp]:
  "length (sq_slots (sq_set i f q)) = length (sq_slots q)"
  "sq_next (sq_set i f q) = sq_next q"
  by (simp_all add: sq_set_def)

lemma sq_set_nth:
  "j < length (sq_slots q) \<Longrightarrow> sq_slots (sq_set i f q) ! j = (if j = i then f (sq_slots q ! i) else sq_slots q ! j)"
  by (simp add: sq_set_def nth_list_update)

lemma set_sq_set: "sl \<in> set (sq_slots (sq_set i f q)) \<Longrightarrow> sl \<in> set (sq_slots q) \<or> sl = f (sq_slots q ! i)"
  by (auto simp: sq_set_def dest: set_update_subset_insert [THEN subsetD])

lemma sq_ready_next [simp]: "sq_ready (q\<lparr> sq_next := n \<rparr>) = sq_ready q" "sq_ready (q\<lparr> sq_dropped := n \<rparr>) = sq_ready q"
  by (simp_all add: sq_ready_def)

section \<open>Single operations\<close>

lemma sq_claim_cases:
  obtains (full) "sq_claim q = (None, sq_drop q)" "\<forall>sl \<in> set (sq_slots q). sl_state sl \<noteq> SlotFree"
  | (slot) i where "sq_claim q = (Some i, sq_set i (\<lambda>s. s\<lparr> sl_state := SlotWriting \<rparr>) q)" "i < length (sq_slots q)"
      "sl_state (sq_slots q ! i) = SlotFree"
  by (cases "position (\<lambda>s. sl_state s = SlotFree) (sq_slots q)")
    (auto simp: sq_claim_def position_None dest: position_Some)

lemma oldest_ready_index:
  "oldest_ready i ss acc = Some (j, w) \<Longrightarrow> acc \<noteq> Some (j, w) \<Longrightarrow>
     i \<le> j \<and> j < i + length ss \<and> sl_state (ss ! (j - i)) = SlotReady \<and> sl_seq (ss ! (j - i)) = w"
proof (induction i ss acc rule: oldest_ready.induct)
  case (2 i s ss acc)
  define acc' where "acc' = (if sl_state s = SlotReady \<and> (case acc of None \<Rightarrow> True | Some (_, current) \<Rightarrow> sequence_before (sl_seq s) current)
        then Some (i, sl_seq s) else acc)"
  show ?case
  proof (cases "acc' = Some (j, w)")
    case True
    then show ?thesis using 2(3) by (auto simp: acc'_def split: if_splits)
  next
    case False
    then show ?thesis using 2(1,2) by (auto simp: acc'_def [symmetric] nth_Cons' Suc_diff_le)
  qed
qed simp

lemma oldest_ready_Some: "oldest_ready i ss (Some a) \<noteq> None"
  by (induction ss arbitrary: i a) auto

lemma oldest_ready_None: "oldest_ready i ss None = None \<longleftrightarrow> (\<forall>sl \<in> set ss. sl_state sl \<noteq> SlotReady)"
  by (induction ss arbitrary: i) (auto simp: oldest_ready_Some)

lemma take_oldest_slot_ready:
  assumes "take_oldest_slot slots = Some i"
  shows "i < length slots \<and> sl_state (slots ! i) = SlotReady"
  using assms oldest_ready_index [of 0 slots None i] by (fastforce simp: take_oldest_slot_def split: if_splits)

lemma sq_take_cases:
  obtains (idle) "sq_take q = (None, q)"
  | (slot) i where "sq_take q = (Some i, sq_set i (\<lambda>s. s\<lparr> sl_state := SlotReading \<rparr>) q)" "i < length (sq_slots q)"
      "sl_state (sq_slots q ! i) = SlotReady" "take_oldest_slot (sq_slots q) = Some i"
  by (cases "take_oldest_slot (sq_slots q)") (auto simp: sq_take_def dest: take_oldest_slot_ready)

section \<open>Every interleaving keeps the queue well formed\<close>

lemma claimed_simps [simp]:
  "claimed [] = []" "claimed (xs @ ys) = claimed xs @ claimed ys"
  "claimed (f # fs) = (case fl_slot f of None \<Rightarrow> [] | Some i \<Rightarrow> [i]) @ claimed fs"
  by (simp_all add: claimed_def somes_Cons)

lemma ss_ok_begin: "ss_ok s \<Longrightarrow> ss_ok (ss_step (PBegin x) s)"
  by (auto simp: ss_ok_def flights_ok_def slots_ok_def ids_ok_def live_ids_def sq_alloc_def less_Suc_eq ss_step.simps)

lemma flights_ok_set:
  assumes "flights_ok s" "i < length (sq_slots (ss_queue s))" "sl_state (sq_slots (ss_queue s) ! i) \<noteq> SlotWriting"
  shows "flights_ok (s\<lparr> ss_queue := sq_set i f (ss_queue s) \<rparr>)"
  using assms by (auto simp: flights_ok_def sq_set_nth)

lemma slots_ok_set:
  assumes "slots_ok s" "i < length (sq_slots (ss_queue s))" "ss_reading s \<noteq> Some i"
    "ready_item (f (sq_slots (ss_queue s) ! i)) = None \<longleftrightarrow> sl_state (f (sq_slots (ss_queue s) ! i)) \<noteq> SlotReady"
  shows "slots_ok (s\<lparr> ss_queue := sq_set i f (ss_queue s) \<rparr>)"
  using assms by (fastforce simp: slots_ok_def sq_set_nth ready_item_def dest: set_sq_set split: if_splits)

lemma sq_ready_unready:
  assumes "i < length (sq_slots q)" "sl_state (sq_slots q ! i) \<noteq> SlotReady" "sl_state (f (sq_slots q ! i)) \<noteq> SlotReady"
  shows "mset (sq_ready (sq_set i f q)) = mset (sq_ready q)"
  using sq_ready_set [OF assms(1), of f] assms(2,3) by (simp add: ready_item_def)

lemma distinct_mset_mono: "mset xs \<subseteq># mset ys \<Longrightarrow> distinct ys \<Longrightarrow> distinct xs"
proof (rule ccontr)
  assume le: "mset xs \<subseteq># mset ys" and ys: "distinct ys" and "\<not> distinct xs"
  then obtain a as bs cs where "xs = as @ [a] @ bs @ [a] @ cs" using not_distinct_decomp by blast
  then have "2 \<le> count (mset xs) a" by simp
  also have "\<dots> \<le> count (mset ys) a" using le by (rule mset_subset_eq_count)
  also have "\<dots> \<le> 1" using ys by (simp add: distinct_count_atmost_1)
  finally show False by simp
qed

lemma ids_ok_mset:
  assumes "mset (map fst (ss_taken t) @ live_ids t) \<subseteq># mset (map fst (ss_taken s) @ live_ids s)" "ss_count t = ss_count s" "ids_ok s"
  shows "ids_ok t"
proof -
  have "set (map fst (ss_taken t) @ live_ids t) \<subseteq> set (map fst (ss_taken s) @ live_ids s)"
    using assms(1) by (metis set_mset_mono set_mset_mset)
  moreover have "distinct (map fst (ss_taken t) @ live_ids t)"
    using assms(1,3) distinct_mset_mono unfolding ids_ok_def by blast
  ultimately show ?thesis using assms(2,3) unfolding ids_ok_def by (metis subset_eq)
qed

lemma live_ids_mset:
  "mset (live_ids s) = image_mset fst (mset (sq_ready (ss_queue s))) + image_mset (\<lambda>f. fst (fl_item f)) (mset (ss_flight s))"
  by (simp add: live_ids_def)

lemma ss_ok_claim: "ss_ok s \<Longrightarrow> ss_ok (ss_step (PClaim k) s)"
proof (cases "k < length (ss_flight s) \<and> fl_slot (ss_flight s ! k) = None")
  case True
  assume ok: "ss_ok s"
  define f where "f = ss_flight s ! k"
  obtain ys zs where fs: "ss_flight s = ys @ f # zs" and rem: "remove_at k (ss_flight s) = ys @ zs"
    and upd: "\<And>y. (ss_flight s)[k := y] = ys @ y # zs"
    using True at_split [of k "ss_flight s"] unfolding f_def by metis
  have none: "fl_slot f = None" using True by (simp add: f_def)
  show ?thesis
  proof (cases rule: sq_claim_cases [of "ss_queue s"])
    case full
    have step: "ss_step (PClaim k) s = s\<lparr> ss_queue := sq_drop (ss_queue s), ss_flight := ys @ zs \<rparr>"
      using True by (simp add: ss_step.simps full rem)
    have "ids_ok (ss_step (PClaim k) s)"
      by (rule ids_ok_mset [of _ s]) (use ok in \<open>auto simp: step fs live_ids_mset sq_drop_def ss_ok_def\<close>)
    then show ?thesis
      using ok none by (auto simp: step fs ss_ok_def sq_drop_def flights_ok_def slots_ok_def)
  next
    case (slot i)
    define t where "t = s\<lparr> ss_queue := sq_set i (\<lambda>s. s\<lparr> sl_state := SlotWriting \<rparr>) (ss_queue s) \<rparr>"
    have step: "ss_step (PClaim k) s = t\<lparr> ss_flight := ys @ f\<lparr> fl_slot := Some i \<rparr> # zs \<rparr>"
      using True by (simp add: ss_step.simps slot(1) t_def upd f_def)
    have r: "mset (sq_ready (ss_queue t)) = mset (sq_ready (ss_queue s))"
      unfolding t_def using slot(2,3) by (simp add: sq_ready_unready)
    have tf: "ss_flight t = ss_flight s" "length (sq_slots (ss_queue t)) = length (sq_slots (ss_queue s))"
      "sl_state (sq_slots (ss_queue t) ! i) = SlotWriting"
      using slot(2) by (simp_all add: t_def sq_set_nth)
    have "flights_ok t" using ok slot(2,3) unfolding t_def by (intro flights_ok_set) (auto simp: ss_ok_def)
    moreover have "slots_ok t"
      using ok slot(2,3) unfolding t_def by (intro slots_ok_set) (auto simp: ss_ok_def slots_ok_def ready_item_def)
    moreover have "i \<notin> set (claimed (ss_flight s))" using ok slot(2,3) by (auto simp: ss_ok_def flights_ok_def)
    ultimately have "flights_ok (ss_step (PClaim k) s)" "slots_ok (ss_step (PClaim k) s)"
      using none slot(2) tf by (auto simp: step flights_ok_def slots_ok_def fs)
    moreover have "ids_ok (ss_step (PClaim k) s)"
      by (rule ids_ok_mset [of _ s]) (use ok r in \<open>auto simp: step fs live_ids_mset ss_ok_def t_def\<close>)
    ultimately show ?thesis using ok r by (simp add: ss_ok_def step) (simp add: t_def)
  qed
next
  case False
  assume ok: "ss_ok s"
  then show ?thesis using False by (auto simp: ss_step.simps)
qed

lemma ss_ok_publish: "ss_ok s \<Longrightarrow> ss_ok (ss_step (PPublish k) s)"
proof (cases "\<exists>i. k < length (ss_flight s) \<and> fl_slot (ss_flight s ! k) = Some i")
  case True
  assume ok: "ss_ok s"
  define f where "f = ss_flight s ! k"
  obtain i where i: "k < length (ss_flight s)" "fl_slot f = Some i" using True by (auto simp: f_def)
  obtain ys zs where fs: "ss_flight s = ys @ f # zs" and rem: "remove_at k (ss_flight s) = ys @ zs"
    using i at_split [of k "ss_flight s"] unfolding f_def by metis
  have w: "i < length (sq_slots (ss_queue s))" "sl_state (sq_slots (ss_queue s) ! i) = SlotWriting"
    "i \<notin> set (claimed (ys @ zs))"
    using ok i(2) by (auto simp: ss_ok_def flights_ok_def fs)
  define q where "q = sq_publish i (fl_seq f) (fl_item f) (ss_queue s)"
  have step: "ss_step (PPublish k) s = s\<lparr> ss_queue := q, ss_flight := ys @ zs, ss_published := ss_published s @ [fl_item f] \<rparr>"
    using i by (simp add: ss_step.simps rem q_def f_def)
  have r: "mset (sq_ready q) = add_mset (fl_item f) (mset (sq_ready (ss_queue s)))"
    using sq_ready_set [OF w(1)] w(2) by (simp add: q_def sq_publish_def ready_item_def)
  have "flights_ok (ss_step (PPublish k) s)"
    using ok w i(2) by (auto simp: step ss_ok_def flights_ok_def fs q_def sq_publish_def sq_set_nth)
  moreover have "slots_ok (ss_step (PPublish k) s)"
    using ok w by (auto simp: step ss_ok_def slots_ok_def q_def sq_publish_def sq_set_nth dest!: set_sq_set)
  moreover have "ids_ok (ss_step (PPublish k) s)"
    by (rule ids_ok_mset [of _ s]) (use ok r in \<open>auto simp: step fs live_ids_mset ss_ok_def\<close>)
  ultimately show ?thesis using ok r by (simp add: ss_ok_def step)
next
  case False
  assume ok: "ss_ok s"
  then show ?thesis using False by (auto simp: ss_step.simps split: option.splits)
qed

lemma ready_nth:
  assumes "slots_ok s" "i < length (sq_slots (ss_queue s))" "sl_state (sq_slots (ss_queue s) ! i) = SlotReady"
  shows "ready_item (sq_slots (ss_queue s) ! i) = Some (the (sl_item (sq_slots (ss_queue s) ! i)))"
  using assms nth_mem by (fastforce simp: slots_ok_def ready_item_def)

lemma ss_ok_take: "ss_ok s \<Longrightarrow> ss_ok (ss_step CTake s)"
proof (cases rule: sq_take_cases [of "ss_queue s"])
  case (slot i)
  assume ok: "ss_ok s"
  define q where "q = sq_set i (\<lambda>s. s\<lparr> sl_state := SlotReading \<rparr>) (ss_queue s)"
  define x where "x = the (sl_item (sq_slots (ss_queue s) ! i))"
  have "ready_item (sq_slots (ss_queue s) ! i) = Some x"
    using ready_nth [of s i] ok slot(2,3) by (simp add: x_def ss_ok_def)
  then have r: "add_mset x (mset (sq_ready q)) = mset (sq_ready (ss_queue s))"
    using sq_ready_set [OF slot(2), of "\<lambda>s. s\<lparr> sl_state := SlotReading \<rparr>"]
    by (simp add: q_def) (simp add: ready_item_def)
  show ?thesis
  proof (cases "ss_reading s")
    case None
    have step: "ss_step CTake s = s\<lparr> ss_queue := q, ss_reading := Some i, ss_taken := ss_taken s @ [x] \<rparr>"
      using None by (simp add: ss_step.simps slot(1) q_def x_def)
    have "flights_ok (ss_step CTake s)" using ok slot(2,3) by (auto simp: step ss_ok_def flights_ok_def q_def sq_set_nth)
    moreover have "slots_ok (ss_step CTake s)"
      using ok slot(2) by (auto simp: step ss_ok_def slots_ok_def q_def sq_set_nth dest!: set_sq_set)
    moreover have "ids_ok (ss_step CTake s)"
      by (rule ids_ok_mset [of _ s]) (use ok in \<open>auto simp: step live_ids_mset ss_ok_def r [symmetric]\<close>)
    ultimately show ?thesis using ok r by (simp add: ss_ok_def step)
  qed (use ok in \<open>simp add: ss_step.simps\<close>)
qed (auto simp: ss_step.simps)

lemma ss_ok_release: "ss_ok s \<Longrightarrow> ss_ok (ss_step CRelease s)"
proof (cases "ss_reading s")
  case (Some i)
  assume ok: "ss_ok s"
  define q where "q = sq_set i (\<lambda>s. s\<lparr> sl_state := SlotFree \<rparr>) (ss_queue s)"
  have i: "i < length (sq_slots (ss_queue s))" "sl_state (sq_slots (ss_queue s) ! i) = SlotReading"
    using ok Some by (auto simp: ss_ok_def slots_ok_def)
  have step: "ss_step CRelease s = s\<lparr> ss_queue := q, ss_reading := None \<rparr>" by (simp add: ss_step.simps Some sq_release_def q_def)
  have r: "mset (sq_ready q) = mset (sq_ready (ss_queue s))" unfolding q_def using i by (simp add: sq_ready_unready)
  have "flights_ok (ss_step CRelease s)" using ok i by (auto simp: step ss_ok_def flights_ok_def q_def sq_set_nth)
  moreover have "slots_ok (ss_step CRelease s)"
    using ok by (auto simp: step ss_ok_def slots_ok_def q_def dest!: set_sq_set)
  moreover have "ids_ok (ss_step CRelease s)"
    by (rule ids_ok_mset [of _ s]) (use ok r in \<open>auto simp: step live_ids_mset ss_ok_def\<close>)
  ultimately show ?thesis using ok r by (simp add: ss_ok_def step)
qed (simp add: ss_step.simps)

lemma ss_ok_step: "ss_ok s \<Longrightarrow> ss_ok (ss_step a s)"
  by (cases a) (simp_all only: ss_ok_begin ss_ok_claim ss_ok_publish ss_ok_take ss_ok_release)

lemma ready_item_new [simp]: "ready_item sl_new = None"
  by (simp add: ready_item_def sl_new_def)

lemma ss_ok_new: "ss_ok (ss_new n0 depth)"
  by (auto simp: ss_ok_def ss_new_def flights_ok_def slots_ok_def ids_ok_def live_ids_def sq_new_def sq_ready_def sl_new_def
      map_replicate_const ready_item_def)

interpretation sequenced: machine "ss_step" ss_ok
  by unfold_locales (rule ss_ok_step)

section \<open>Order\<close>

definition seqs_ok :: "u32 \<Rightarrow> 'a sqsys \<Rightarrow> bool" where
  "seqs_ok n0 s \<longleftrightarrow> sq_next (ss_queue s) = n0 + of_nat (ss_count s)
     \<and> (\<forall>f \<in> set (ss_flight s). fl_seq f = n0 + of_nat (fst (fl_item f)))
     \<and> (\<forall>sl \<in> set (sq_slots (ss_queue s)). \<forall>x. ready_item sl = Some x \<longrightarrow> sl_seq sl = n0 + of_nat (fst x))"

definition order_ok :: "'a sqsys \<Rightarrow> bool" where
  "order_ok s \<longleftrightarrow> sorted_wrt (<) (map fst (ss_taken s))
     \<and> (\<forall>t \<in> set (map fst (ss_taken s)). \<forall>g \<in> set (live_ids s). t < g)"

text \<open>The consumer looks at the queue only when every producer that has a sequence number also has a slot.\<close>

fun orderly :: "'a sqop list \<Rightarrow> 'a sqsys \<Rightarrow> bool" where
  "orderly [] s = True"
| "orderly (a # ops) s \<longleftrightarrow>
     (case a of CTake \<Rightarrow> list_all (\<lambda>f. fl_slot f \<noteq> None) (ss_flight s) | _ \<Rightarrow> True) \<and> orderly ops (ss_step a s)"

lemma sint_diff_small:
  assumes "a < 2 ^ 31" "b < 2 ^ 31"
  shows "sint (of_nat a - of_nat b :: u32) = int a - int b"
proof -
  have "(of_nat a - of_nat b :: u32) = word_of_int (int a - int b)" by simp
  moreover have "sint (word_of_int (int a - int b) :: u32) = int a - int b"
    using assms by (subst signed_of_int) (simp add: signed_take_bit_int_eq_self)
  ultimately show ?thesis by simp
qed

lemma sequence_before_small:
  assumes "a < 2 ^ 31" "b < 2 ^ 31"
  shows "sequence_before (n0 + of_nat a) (n0 + of_nat b) \<longleftrightarrow> a < b"
  using sint_diff_small [OF assms] by (simp add: sequence_before_def)

lemma sequence_before_key:
  assumes "unat (a - n0) < 2 ^ 31" "unat (b - n0) < 2 ^ 31"
  shows "sequence_before a b \<longleftrightarrow> unat (a - n0) < unat (b - n0)"
  using sequence_before_small [OF assms, of n0] by simp

text \<open>The pass over the slots finds the smallest distance from the start of the window.\<close>

lemma oldest_ready_least:
  assumes "oldest_ready i ss acc = Some (j, w)"
    "\<forall>k v. acc = Some (k, v) \<longrightarrow> unat (v - n0) < 2 ^ 31"
    "\<forall>sl \<in> set ss. sl_state sl = SlotReady \<longrightarrow> unat (sl_seq sl - n0) < 2 ^ 31"
  shows "(\<forall>sl \<in> set ss. sl_state sl = SlotReady \<longrightarrow> unat (w - n0) \<le> unat (sl_seq sl - n0))
    \<and> (\<forall>k v. acc = Some (k, v) \<longrightarrow> unat (w - n0) \<le> unat (v - n0))"
  using assms
proof (induction ss arbitrary: i acc)
  case (Cons s ss)
  define acc' where "acc' = (if sl_state s = SlotReady \<and> (case acc of None \<Rightarrow> True | Some (_, current) \<Rightarrow> sequence_before (sl_seq s) current)
        then Some (i, sl_seq s) else acc)"
  have ih: "(\<forall>sl \<in> set ss. sl_state sl = SlotReady \<longrightarrow> unat (w - n0) \<le> unat (sl_seq sl - n0))
      \<and> (\<forall>k v. acc' = Some (k, v) \<longrightarrow> unat (w - n0) \<le> unat (v - n0))"
    by (rule Cons.IH [of "Suc i"]) (use Cons.prems in \<open>auto simp: acc'_def split: if_splits\<close>)
  show ?case
  proof (cases acc)
    case None
    then show ?thesis using ih by (auto simp: acc'_def)
  next
    case (Some kv)
    obtain k v where kv: "kv = (k, v)" by (cases kv)
    show ?thesis
    proof (cases "sl_state s = SlotReady")
      case True
      have "sequence_before (sl_seq s) v \<longleftrightarrow> unat (sl_seq s - n0) < unat (v - n0)"
        using Cons.prems(2,3) Some True kv by (intro sequence_before_key) auto
      then show ?thesis using ih True Some kv by (auto simp: acc'_def split: if_splits)
    next
      case False
      then show ?thesis using ih by (auto simp: acc'_def)
    qed
  qed
qed simp

lemma set_sq_ready: "set (sq_ready q) = {x. \<exists>sl \<in> set (sq_slots q). ready_item sl = Some x}"
proof -
  have "Some x \<in> ready_item ` set (sq_slots q) \<longleftrightarrow> (\<exists>sl \<in> set (sq_slots q). ready_item sl = Some x)" for x
    by (metis image_iff)
  then show ?thesis by (simp add: sq_ready_def set_somes)
qed

lemma sq_ready_Nil: "sq_ready q = [] \<longleftrightarrow> (\<forall>sl \<in> set (sq_slots q). ready_item sl = None)"
proof -
  have "sq_ready q = [] \<longleftrightarrow> (\<forall>x. x \<notin> set (sq_ready q))" by (cases "sq_ready q") auto
  then show ?thesis unfolding set_sq_ready by (cases "\<exists>sl \<in> set (sq_slots q). ready_item sl \<noteq> None") auto
qed

lemma sq_take_None:
  "fst (sq_take q) = None \<longleftrightarrow> list_ex (\<lambda>sl. sl_state sl = SlotWriting) (sq_slots q)
     \<or> (\<forall>sl \<in> set (sq_slots q). sl_state sl \<noteq> SlotReady)"
  unfolding oldest_ready_None [of 0, symmetric] by (auto simp: sq_take_def take_oldest_slot_def split: option.split)

lemma take_oldest_least:
  assumes "slots_ok s" "seqs_ok n0 s" "ids_ok s" "ss_count s \<le> 2 ^ 31" "take_oldest_slot (sq_slots (ss_queue s)) = Some i"
    and y: "y \<in> set (sq_ready (ss_queue s))"
  shows "fst (the (sl_item (sq_slots (ss_queue s) ! i))) \<le> fst y"
proof -
  let ?ss = "sq_slots (ss_queue s)"
  obtain w where w: "oldest_ready 0 ?ss None = Some (i, w)" using assms(5) by (auto simp: take_oldest_slot_def split: if_splits)
  have small: "fst x < 2 ^ 31" if "x \<in> set (sq_ready (ss_queue s))" for x
  proof -
    have "fst x \<in> set (live_ids s)" using that by (simp add: live_ids_def)
    then have "fst x < ss_count s" using assms(3) by (simp add: ids_ok_def)
    then show ?thesis using assms(4) by simp
  qed
  have key: "unat (sl_seq sl - n0) = fst x \<and> fst x < 2 ^ 31" if "sl \<in> set ?ss" "ready_item sl = Some x" for sl x
  proof -
    have "x \<in> set (sq_ready (ss_queue s))" using that by (auto simp: set_sq_ready)
    then have "fst x < 2 ^ 31" by (rule small)
    moreover have "sl_seq sl = n0 + of_nat (fst x)" using assms(2) that unfolding seqs_ok_def by blast
    ultimately show ?thesis by (simp add: unat_of_nat)
  qed
  have ready: "\<exists>x. ready_item sl = Some x" if "sl \<in> set ?ss" "sl_state sl = SlotReady" for sl
    using assms(1) that by (auto simp: slots_ok_def ready_item_def)
  have small_key: "\<forall>sl \<in> set ?ss. sl_state sl = SlotReady \<longrightarrow> unat (sl_seq sl - n0) < 2 ^ 31"
    using key ready by metis
  have least: "\<forall>sl \<in> set ?ss. sl_state sl = SlotReady \<longrightarrow> unat (w - n0) \<le> unat (sl_seq sl - n0)"
    using oldest_ready_least [OF w, of n0] small_key by simp
  have i: "i < length ?ss" "sl_state (?ss ! i) = SlotReady" "sl_seq (?ss ! i) = w"
    using oldest_ready_index [OF w] by auto
  obtain sl where sl: "sl \<in> set ?ss" "ready_item sl = Some y" using y by (auto simp: set_sq_ready)
  have "sl_state sl = SlotReady" using sl(2) by (simp add: ready_item_def split: if_splits)
  then have "unat (w - n0) \<le> unat (sl_seq sl - n0)" using least sl(1) by blast
  moreover have "unat (w - n0) = fst (the (sl_item (?ss ! i)))"
    using key [of "?ss ! i", OF _ ready_nth [OF assms(1) i(1,2)]] i by simp
  ultimately show ?thesis using key [OF sl] by simp
qed

lemma set_remove_at: "x \<in> set (remove_at k xs) \<Longrightarrow> x \<in> set xs"
  by (auto simp: remove_at_def dest: in_set_takeD in_set_dropD)

lemma seqs_ok_set:
  assumes "seqs_ok n0 s" "\<And>x. ready_item (f (sq_slots (ss_queue s) ! i)) = Some x \<Longrightarrow>
    sl_seq (f (sq_slots (ss_queue s) ! i)) = n0 + of_nat (fst x)"
  shows "seqs_ok n0 (s\<lparr> ss_queue := sq_set i f (ss_queue s) \<rparr>)"
  using assms unfolding seqs_ok_def by (auto dest!: set_sq_set)

lemma seqs_ok_frame:
  "seqs_ok n0 (s\<lparr> ss_reading := r \<rparr>) = seqs_ok n0 s" "seqs_ok n0 (s\<lparr> ss_taken := t \<rparr>) = seqs_ok n0 s"
  "seqs_ok n0 (s\<lparr> ss_published := p \<rparr>) = seqs_ok n0 s"
  "seqs_ok n0 s \<Longrightarrow> \<forall>f \<in> set fs. fl_seq f = n0 + of_nat (fst (fl_item f)) \<Longrightarrow> seqs_ok n0 (s\<lparr> ss_flight := fs \<rparr>)"
  by (simp_all add: seqs_ok_def)

lemma seqs_ok_step: "seqs_ok n0 s \<Longrightarrow> seqs_ok n0 (ss_step a s)"
proof (cases a)
  case (PBegin x)
  assume "seqs_ok n0 s"
  then show ?thesis by (simp add: PBegin ss_step.simps sq_alloc_def seqs_ok_def algebra_simps)
next
  case (PClaim k)
  assume ok: "seqs_ok n0 s"
  show ?thesis
  proof (cases rule: sq_claim_cases [of "ss_queue s"])
    case full
    show ?thesis
      using ok by (auto simp: PClaim ss_step.simps full sq_drop_def seqs_ok_def dest: set_remove_at)
  next
    case (slot i)
    have "seqs_ok n0 (s\<lparr> ss_queue := sq_set i (\<lambda>s. s\<lparr> sl_state := SlotWriting \<rparr>) (ss_queue s) \<rparr>)"
      using ok by (rule seqs_ok_set) (simp add: ready_item_def)
    moreover have "\<forall>f \<in> set ((ss_flight s)[k := (ss_flight s ! k)\<lparr> fl_slot := Some i \<rparr>]). fl_seq f = n0 + of_nat (fst (fl_item f))"
      if "k < length (ss_flight s)"
      using ok that by (auto simp: seqs_ok_def dest!: set_update_subset_insert [THEN subsetD])
    ultimately show ?thesis using ok seqs_ok_frame(4) by (fastforce simp: PClaim ss_step.simps slot(1))
  qed
next
  case (PPublish k)
  assume ok: "seqs_ok n0 s"
  show ?thesis
  proof (cases "k < length (ss_flight s) \<and> fl_slot (ss_flight s ! k) \<noteq> None")
    case True
    then obtain i where i: "fl_slot (ss_flight s ! k) = Some i" by auto
    have f: "fl_seq (ss_flight s ! k) = n0 + of_nat (fst (fl_item (ss_flight s ! k)))"
      using ok True by (auto simp: seqs_ok_def)
    have "seqs_ok n0 (s\<lparr> ss_queue := sq_publish i (fl_seq (ss_flight s ! k)) (fl_item (ss_flight s ! k)) (ss_queue s) \<rparr>)"
      unfolding sq_publish_def using ok by (rule seqs_ok_set) (simp add: ready_item_def f)
    moreover have "\<forall>f \<in> set (remove_at k (ss_flight s)). fl_seq f = n0 + of_nat (fst (fl_item f))"
      using ok by (auto simp: seqs_ok_def dest: set_remove_at)
    ultimately show ?thesis using True i seqs_ok_frame by (fastforce simp: PPublish ss_step.simps)
  qed (use ok in \<open>auto simp: PPublish ss_step.simps\<close>)
next
  case CTake
  assume ok: "seqs_ok n0 s"
  have "seqs_ok n0 (s\<lparr> ss_queue := sq_set i (\<lambda>s. s\<lparr> sl_state := SlotReading \<rparr>) (ss_queue s) \<rparr>)" for i
    using ok by (rule seqs_ok_set) (simp add: ready_item_def)
  then show ?thesis
    using ok by (cases rule: sq_take_cases [of "ss_queue s"]) (auto simp: CTake ss_step.simps seqs_ok_frame)
next
  case CRelease
  assume ok: "seqs_ok n0 s"
  have "seqs_ok n0 (s\<lparr> ss_queue := sq_release i (ss_queue s) \<rparr>)" for i
    unfolding sq_release_def using ok by (rule seqs_ok_set) (simp add: ready_item_def)
  then show ?thesis using ok by (auto simp: CRelease ss_step.simps seqs_ok_frame split: option.splits)
qed

lemma sq_ready_set_subset:
  "x \<in> set (sq_ready (sq_set i f q)) \<Longrightarrow> x \<in> set (sq_ready q) \<or> ready_item (f (sq_slots q ! i)) = Some x"
  unfolding set_sq_ready using set_sq_set by fastforce

lemma live_step:
  assumes "case a of PClaim _ \<Rightarrow> True | PPublish _ \<Rightarrow> True | CRelease \<Rightarrow> True | _ \<Rightarrow> False"
  shows "ss_taken (ss_step a s) = ss_taken s \<and> set (live_ids (ss_step a s)) \<subseteq> set (live_ids s)"
proof (cases a)
  case (PClaim k)
  show ?thesis
  proof (cases rule: sq_claim_cases [of "ss_queue s"])
    case full
    show ?thesis by (auto simp: PClaim ss_step.simps full sq_drop_def live_ids_def dest: set_remove_at)
  next
    case (slot i)
    have "map (\<lambda>f. fst (fl_item f)) ((ss_flight s)[k := (ss_flight s ! k)\<lparr> fl_slot := Some i \<rparr>])
      = map (\<lambda>f. fst (fl_item f)) (ss_flight s)"
      by (simp add: map_update list_update_same_conv) (metis list_update_id map_update)
    from this [THEN arg_cong, of set]
    have "(\<lambda>f. fst (fl_item f)) ` set ((ss_flight s)[k := (ss_flight s ! k)\<lparr> fl_slot := Some i \<rparr>])
      = (\<lambda>f. fst (fl_item f)) ` set (ss_flight s)" by (simp only: set_map)
    moreover have "set (sq_ready (sq_set i (\<lambda>s. s\<lparr> sl_state := SlotWriting \<rparr>) (ss_queue s))) \<subseteq> set (sq_ready (ss_queue s))"
      by (auto simp: ready_item_def dest!: sq_ready_set_subset)
    ultimately show ?thesis by (simp add: PClaim ss_step.simps slot(1) live_ids_def) blast
  qed
next
  case (PPublish k)
  have "a \<in> (\<lambda>f. fst (fl_item f)) ` set (ss_flight s)"
    if "k < length (ss_flight s)" "fl_item (ss_flight s ! k) = (a, b)" for a b
    using that by (intro image_eqI [of _ _ "ss_flight s ! k"]) simp_all
  then show ?thesis
    by (auto simp: PPublish ss_step.simps live_ids_def sq_publish_def ready_item_def
        dest!: sq_ready_set_subset set_remove_at split: option.splits)
next
  case CRelease
  then show ?thesis
    by (auto simp: ss_step.simps live_ids_def sq_release_def ready_item_def dest!: sq_ready_set_subset split: option.splits)
qed (use assms in auto)

lemma order_take:
  assumes ok: "ss_ok s" "seqs_ok n0 s" "ss_count s \<le> 2 ^ 31" "order_ok s"
    and quiet: "list_all (\<lambda>f. fl_slot f \<noteq> None) (ss_flight s)"
  shows "order_ok (ss_step CTake s)"
proof (cases rule: sq_take_cases [of "ss_queue s"])
  case idle
  then show ?thesis using ok(4) by (simp add: ss_step.simps)
next
  case (slot i)
  define x where "x = the (sl_item (sq_slots (ss_queue s) ! i))"
  define q where "q = sq_set i (\<lambda>s. s\<lparr> sl_state := SlotReading \<rparr>) (ss_queue s)"
  have parts: "flights_ok s" "slots_ok s" "ids_ok s" using ok(1) by (auto simp: ss_ok_def)
  have "\<forall>sl \<in> set (sq_slots (ss_queue s)). sl_state sl \<noteq> SlotWriting"
    using slot(4) by (auto simp: take_oldest_slot_def list_ex_iff split: if_splits)
  then have "claimed (ss_flight s) = []"
    using parts(1) nth_mem unfolding flights_ok_def by (metis hd_in_set)
  then have none: "ss_flight s = []" using quiet by (cases "ss_flight s") auto
  show ?thesis
  proof (cases "ss_reading s")
    case None
    have step: "ss_step CTake s = s\<lparr> ss_queue := q, ss_reading := Some i, ss_taken := ss_taken s @ [x] \<rparr>"
      using None by (simp add: ss_step.simps slot(1) q_def x_def)
    have item: "ready_item (sq_slots (ss_queue s) ! i) = Some x"
      using ready_nth [OF parts(2) slot(2,3)] by (simp add: x_def)
    then have xr: "x \<in> set (sq_ready (ss_queue s))" using slot(2) by (auto simp: set_sq_ready)
    have "distinct (map fst (ss_taken (ss_step CTake s)) @ live_ids (ss_step CTake s))"
      using ss_ok_take [OF ok(1)] by (auto simp: ss_ok_def ids_ok_def)
    then have "fst x \<notin> set (live_ids (ss_step CTake s))" by (auto simp: step)
    moreover have "fst x \<le> fst y" if "y \<in> set (sq_ready q)" for y
    proof -
      have "y \<in> set (sq_ready (ss_queue s))"
        using that by (auto simp: q_def ready_item_def dest!: sq_ready_set_subset)
      then show ?thesis using take_oldest_least [OF parts(2) ok(2) parts(3) ok(3) slot(4)] by (simp add: x_def)
    qed
    moreover have "set (live_ids (ss_step CTake s)) = fst ` set (sq_ready q)"
      by (simp add: step live_ids_def none)
    ultimately have "\<forall>g \<in> set (live_ids (ss_step CTake s)). fst x < g"
      by (metis (no_types, lifting) imageE le_neq_implies_less)
    moreover have "\<forall>t \<in> set (map fst (ss_taken s)). t < fst x"
      using ok(4) xr by (auto simp: order_ok_def live_ids_def)
    moreover have "set (live_ids (ss_step CTake s)) \<subseteq> set (live_ids s)"
      by (auto simp: step live_ids_def q_def ready_item_def dest!: sq_ready_set_subset)
    ultimately show ?thesis using ok(4) by (fastforce simp: order_ok_def step sorted_wrt_append)
  qed (use ok(4) in \<open>simp add: ss_step.simps\<close>)
qed

lemma order_step:
  assumes ok: "ss_ok s" "seqs_ok n0 s" "ss_count s \<le> 2 ^ 31" "order_ok s"
    and quiet: "case a of CTake \<Rightarrow> list_all (\<lambda>f. fl_slot f \<noteq> None) (ss_flight s) | _ \<Rightarrow> True"
  shows "order_ok (ss_step a s)"
proof (cases a)
  case (PBegin x)
  have "\<forall>t \<in> set (map fst (ss_taken s)). t < ss_count s" using ok(1) by (auto simp: ss_ok_def ids_ok_def)
  then show ?thesis using ok(4) by (auto simp: PBegin order_ok_def ss_step.simps sq_alloc_def live_ids_def)
next
  case CTake
  then show ?thesis using order_take [OF ok] quiet by simp
qed (use live_step [of a s] ok(4) in \<open>auto simp: order_ok_def\<close>)

lemma ss_count_step: "ss_count (ss_step a s) \<le> ss_count s + 1"
  by (cases a) (auto simp: ss_step.simps sq_alloc_def split: option.splits prod.splits)

lemma order_run:
  "\<lbrakk> ss_ok s; seqs_ok n0 s; order_ok s; ss_count s + length ops \<le> 2 ^ 31; orderly ops s \<rbrakk>
    \<Longrightarrow> order_ok (fold ss_step ops s)"
proof (induction ops arbitrary: s)
  case (Cons a ops)
  have "order_ok (ss_step a s)"
    using Cons.prems by (intro order_step [of s n0]) auto
  then have "order_ok (fold ss_step ops (ss_step a s))"
    using Cons.prems ss_count_step [of a s] by (intro Cons.IH ss_ok_step seqs_ok_step) auto
  then show ?case by simp
qed simp

section \<open>Properties\<close>

text \<open>C17: however producers and the consumer interleave, every published payload is taken at most once and is
  otherwise still ready in a slot, no payload is published twice, and the slot a producer claimed stays its own until
  it publishes.  The consumer finds nothing only when a producer owns a slot or no slot is ready.\<close>

theorem sequenced_exactly_once:
  "let s = fold ss_step ops (ss_new n0 depth); slots = sq_slots (ss_queue s)
   in mset (ss_published s) = mset (ss_taken s) + mset (sq_ready (ss_queue s))
     \<and> distinct (map fst (ss_published s)) \<and> distinct (claimed (ss_flight s))
     \<and> list_all (\<lambda>i. i < length slots \<and> sl_state (slots ! i) = SlotWriting) (claimed (ss_flight s))
     \<and> (fst (sq_take (ss_queue s)) = None
         \<longleftrightarrow> list_ex (\<lambda>sl. sl_state sl = SlotWriting) slots \<or> sq_ready (ss_queue s) = [])"
proof -
  define s where "s = fold ss_step ops (ss_new n0 depth)"
  have ok: "ss_ok s" unfolding s_def by (rule sequenced.run_inv [OF ss_ok_new])
  have p: "mset (ss_published s) = mset (ss_taken s @ sq_ready (ss_queue s))" using ok by (simp add: ss_ok_def)
  have "distinct (map fst (ss_taken s @ sq_ready (ss_queue s)))"
    using ok by (auto simp: ss_ok_def ids_ok_def live_ids_def)
  then have "distinct (map fst (ss_published s))"
    using p mset_eq_imp_distinct_iff [of "map fst (ss_published s)" "map fst (ss_taken s @ sq_ready (ss_queue s))"]
    by (simp add: mset_map)
  moreover have "sq_ready (ss_queue s) = [] \<longleftrightarrow> (\<forall>sl \<in> set (sq_slots (ss_queue s)). sl_state sl \<noteq> SlotReady)"
  proof -
    have "sq_ready (ss_queue s) = [] \<longleftrightarrow> (\<forall>sl \<in> set (sq_slots (ss_queue s)). ready_item sl = None)"
      by (rule sq_ready_Nil)
    also have "\<dots> \<longleftrightarrow> (\<forall>sl \<in> set (sq_slots (ss_queue s)). sl_state sl \<noteq> SlotReady)"
      using ok by (auto simp: ss_ok_def slots_ok_def ready_item_def)
    finally show ?thesis .
  qed
  ultimately show ?thesis
    unfolding s_def [symmetric] Let_def using ok p
    by (auto simp: ss_ok_def flights_ok_def list_all_iff sq_take_None)
qed

text \<open>C18: when the consumer looks at the queue only while no producer is between its sequence number and its
  slot, it takes the payloads in the order their sequence numbers were given out, whatever the number was at the
  start and although the numbers wrap, for up to two to the power of 31 steps.\<close>

theorem sequenced_in_order:
  assumes "orderly ops (ss_new n0 depth)" "length ops \<le> 2 ^ 31"
  shows "sorted_wrt (<) (map fst (ss_taken (fold ss_step ops (ss_new n0 depth))))"
proof -
  have "seqs_ok n0 (ss_new n0 depth)" "order_ok (ss_new n0 depth)"
    by (auto simp: seqs_ok_def order_ok_def ss_new_def sq_new_def)
  then have "order_ok (fold ss_step ops (ss_new n0 depth))"
    using assms by (intro order_run [of _ n0] ss_ok_new) (auto simp: ss_new_def)
  then show ?thesis by (simp add: order_ok_def)
qed

text \<open>Nested producers around the wrap of the sequence number.\<close>

definition nested_ops :: "nat sqop list" where
  "nested_ops = [PBegin 10, PBegin 20, PClaim 1, PPublish 1, PClaim 0, PPublish 0, PBegin 30, PClaim 0, PPublish 0,
     CTake, CRelease, CTake, CRelease, CTake, CRelease]"

theorem sequenced_in_order_witness:
  "sorted_wrt (<) (map fst (ss_taken (fold ss_step nested_ops (ss_new 0xFFFFFFFF 8))))
    \<and> map snd (ss_taken (fold ss_step nested_ops (ss_new 0xFFFFFFFF 8))) = [10, 20, 30]"
proof -
  have "orderly nested_ops (ss_new 0xFFFFFFFF 8)" by code_simp
  moreover have "length nested_ops \<le> 2 ^ 31" by (simp add: nested_ops_def)
  moreover have "map snd (ss_taken (fold ss_step nested_ops (ss_new 0xFFFFFFFF 8))) = [10, 20, 30]" by code_simp
  ultimately show ?thesis using sequenced_in_order by blast
qed

text \<open>A producer that has its sequence number but not yet its slot is overtaken: the consumer takes the later
  payload of a second producer first.\<close>

theorem sequenced_overtaken:
  "map snd (ss_taken (fold ss_step
     [PBegin x, PBegin y, PClaim 1, PPublish 1, CTake, CRelease, PClaim 0, PPublish 0, CTake] (ss_new n0 8))) = [y, x]"
  by (simp add: ss_step.simps ss_new_def sq_new_def sl_new_def sq_alloc_def sq_claim_def sq_set_def sq_publish_def sq_take_def
      sq_release_def take_oldest_slot_def remove_at_def numeral_eq_Suc)

end
