(* ===== verification/Events.thy ===== *)
theory Events
  imports SeqQueue Disconnect Wait Memory
begin

text \<open>
  The native event boundary of the supplicant (\<open>src/src/upstream_supplicant.rs\<close>): what the vendor callbacks put into
  the sequenced queues of \<open>SeqQueue\<close>, the scan transaction, and the link events that close the route of \<open>Route\<close>.

  A queue payload is a metadata record with the bytes that were copied behind it.  The shared statics of the module
  are one record; a callback is a function of it.  \<open>ABI_VERSION\<close> and \<open>MAX_SCAN_IE_LEN\<close> belong to the native
  interface crate and are arguments, as is the time a callback reads.  Counters that are only printed are left out.
\<close>

section \<open>Association results of the vendor\<close>

definition VENDOR_ASSOC_STATUS_OFFSET :: u16 where "VENDOR_ASSOC_STATUS_OFFSET = 8000"
definition MAX_STANDARD_IEEE_STATUS :: u16 where "MAX_STANDARD_IEEE_STATUS = 255"
definition WLAN_STATUS_ASSOC_REJECTED_TEMPORARILY :: u16 where "WLAN_STATUS_ASSOC_REJECTED_TEMPORARILY = 30"
definition VENDOR_AUTH_STATUS_OFFSET :: u16 where "VENDOR_AUTH_STATUS_OFFSET = 7000"
definition WLAN_STATUS_AUTH_TIMEOUT :: u16 where "WLAN_STATUS_AUTH_TIMEOUT = 16"
definition WLAN_STATUS_INVALID_PMKID :: u16 where "WLAN_STATUS_INVALID_PMKID = 53"
definition WLAN_EID_TIMEOUT_INTERVAL :: u8 where "WLAN_EID_TIMEOUT_INTERVAL = 56"
definition WLAN_TIMEOUT_ASSOC_COMEBACK :: u8 where "WLAN_TIMEOUT_ASSOC_COMEBACK = 3"
definition NO_COMEBACK_INTERVAL :: u32 where "NO_COMEBACK_INTERVAL = - 1"
definition ASSOCIATION_ATTEMPT_CAPACITY :: nat where "ASSOCIATION_ATTEMPT_CAPACITY = 8"

definition vendor_result_requires_stale_state_clear :: "u16 \<Rightarrow> bool" where
  "vendor_result_requires_stale_state_clear raw \<longleftrightarrow>
     raw = VENDOR_ASSOC_STATUS_OFFSET + WLAN_STATUS_ASSOC_REJECTED_TEMPORARILY"

definition normalize_vendor_association_status :: "u16 \<Rightarrow> u16" where
  "normalize_vendor_association_status status =
     (if VENDOR_ASSOC_STATUS_OFFSET \<le> status \<and> status - VENDOR_ASSOC_STATUS_OFFSET \<noteq> 0
         \<and> status - VENDOR_ASSOC_STATUS_OFFSET \<le> MAX_STANDARD_IEEE_STATUS
      then status - VENDOR_ASSOC_STATUS_OFFSET else status)"

definition vendor_result_uses_association_reject :: "u16 \<Rightarrow> bool" where
  "vendor_result_uses_association_reject raw \<longleftrightarrow>
     raw = VENDOR_ASSOC_STATUS_OFFSET + WLAN_STATUS_INVALID_PMKID
     \<or> raw = VENDOR_AUTH_STATUS_OFFSET + WLAN_STATUS_AUTH_TIMEOUT"

definition vendor_result_uses_disconnect :: "u16 \<Rightarrow> bool" where
  "vendor_result_uses_disconnect raw \<longleftrightarrow> raw \<noteq> 0 \<and> \<not> vendor_result_uses_association_reject raw"

definition le32 :: "u8 \<Rightarrow> u8 \<Rightarrow> u8 \<Rightarrow> u8 \<Rightarrow> u32" where
  "le32 a b c d = ucast a + push_bit 8 (ucast b) + push_bit 16 (ucast c) + push_bit 24 (ucast d)"

definition le16 :: "u8 \<Rightarrow> u8 \<Rightarrow> u16" where
  "le16 a b = ucast a + push_bit 8 (ucast b)"

function association_comeback_interval :: "u8 list \<Rightarrow> u32 option" where
  "association_comeback_interval ies =
     (if length ies < 2 then None
      else
        let len = unat (ies ! 1); tot = len + 2
        in if length ies < tot then None
           else if ies ! 0 = WLAN_EID_TIMEOUT_INTERVAL \<and> len = 5 \<and> ies ! 2 = WLAN_TIMEOUT_ASSOC_COMEBACK
             then Some (le32 (ies ! 3) (ies ! 4) (ies ! 5) (ies ! 6))
           else association_comeback_interval (drop tot ies))"
  by pat_completeness auto
termination
  by (relation "measure length") auto

declare association_comeback_interval.simps [simp del]

record association_attempt =
  aa_sequence :: u32
  aa_timestamp_ms :: u32
  aa_raw_status :: u32
  aa_status :: u32
  aa_response_ie_len :: u32
  aa_comeback_tu :: u32

definition aa_new :: association_attempt where
  "aa_new = \<lparr> aa_sequence = 0, aa_timestamp_ms = 0, aa_raw_status = 0, aa_status = 0, aa_response_ie_len = 0,
     aa_comeback_tu = NO_COMEBACK_INTERVAL \<rparr>"

definition aa_record :: "u64 \<Rightarrow> u32 \<Rightarrow> u16 \<Rightarrow> u16 \<Rightarrow> u8 list \<Rightarrow> association_attempt" where
  "aa_record now_ms sq raw status response =
     \<lparr> aa_sequence = sq, aa_timestamp_ms = ucast now_ms, aa_raw_status = ucast raw, aa_status = ucast status,
       aa_response_ie_len = of_nat (length response),
       aa_comeback_tu = (case association_comeback_interval response of None \<Rightarrow> NO_COMEBACK_INTERVAL | Some tu \<Rightarrow> tu) \<rparr>"

record authentication_header =
  ah_algorithm :: u16
  ah_transaction :: u16
  ah_status :: u16

definition authentication_header :: "u8 list \<Rightarrow> authentication_header option" where
  "authentication_header frame =
     (if length frame < 30 \<or> frame ! 0 \<noteq> 0xb0 then None
      else Some \<lparr> ah_algorithm = le16 (frame ! 24) (frame ! 25), ah_transaction = le16 (frame ! 26) (frame ! 27),
                  ah_status = le16 (frame ! 28) (frame ! 29) \<rparr>)"

section \<open>Payloads and their queues\<close>

definition MAX_MGMT_FRAME_LEN :: nat where "MAX_MGMT_FRAME_LEN = 768"
definition MGMT_RX_QUEUE_DEPTH :: nat where "MGMT_RX_QUEUE_DEPTH = 8"
definition SCAN_EVENT_QUEUE_DEPTH :: nat where "SCAN_EVENT_QUEUE_DEPTH = 33"
definition LINK_EVENT_QUEUE_DEPTH :: nat where "LINK_EVENT_QUEUE_DEPTH = 4"
definition EXTERNAL_AUTH_QUEUE_DEPTH :: nat where "EXTERNAL_AUTH_QUEUE_DEPTH = 2"
definition MAX_ASSOCIATION_IE_LEN :: nat where "MAX_ASSOCIATION_IE_LEN = 768"
definition MAX_SCAN_RESULTS :: nat where "MAX_SCAN_RESULTS = 32"
definition SCAN_EVENT_RESULT :: u8 where "SCAN_EVENT_RESULT = 1"
definition SCAN_EVENT_DONE :: u8 where "SCAN_EVENT_DONE = 2"
definition LINK_EVENT_ASSOCIATE :: u8 where "LINK_EVENT_ASSOCIATE = 1"
definition LINK_EVENT_DISCONNECT :: u8 where "LINK_EVENT_DISCONNECT = 2"

record mgmt_meta =
  mm_frequency_mhz :: u32
  mm_rssi_dbm :: i32
  mm_frame_len :: nat

type_synonym mgmt_item = "mgmt_meta \<times> u8 list"

definition mgmt_enqueue :: "u32 \<Rightarrow> i32 \<Rightarrow> u8 list \<Rightarrow> mgmt_item squeue \<Rightarrow> bool \<times> mgmt_item squeue" where
  "mgmt_enqueue frequency rssi frame q =
     (if frame = [] \<or> MAX_MGMT_FRAME_LEN < length frame then (False, sq_drop q)
      else sq_enqueue (\<lparr> mm_frequency_mhz = frequency, mm_rssi_dbm = rssi, mm_frame_len = length frame \<rparr>, frame) q)"

definition mgmt_bytes :: "mgmt_item \<Rightarrow> u8 list" where
  "mgmt_bytes item = take (mm_frame_len (fst item)) (snd item)"

record scan_meta =
  sm_kind :: u8
  sm_capabilities :: u16
  sm_flags :: u32
  sm_bssid :: "u8 list"
  sm_frequency_mhz :: i32
  sm_beacon_interval :: u16
  sm_quality :: i32
  sm_level_mbm :: i32
  sm_age_ms :: u32
  sm_ie_len :: nat
  sm_beacon_ie_len :: nat
  sm_status :: i32

type_synonym scan_item = "scan_meta \<times> u8 list"

record scan_queue =
  sc_queue :: "scan_item squeue"
  sc_accepted :: u32
  sc_truncated :: u32

definition sc_new :: scan_queue where
  "sc_new = \<lparr> sc_queue = sq_new SCAN_EVENT_QUEUE_DEPTH, sc_accepted = 0, sc_truncated = 0 \<rparr>"

definition sc_begin_transaction :: "scan_queue \<Rightarrow> scan_queue" where
  "sc_begin_transaction q = q\<lparr> sc_accepted := 0 \<rparr>"

definition sc_on_queue :: "(scan_item squeue \<Rightarrow> 'r \<times> scan_item squeue) \<Rightarrow> scan_queue \<Rightarrow> 'r \<times> scan_queue" where
  "sc_on_queue f q = (case f (sc_queue q) of (r, q') \<Rightarrow> (r, q\<lparr> sc_queue := q' \<rparr>))"

definition sc_well_formed :: "nat \<Rightarrow> scan_item \<Rightarrow> bool" where
  "sc_well_formed max_ie item \<longleftrightarrow>
     sm_kind (fst item) = SCAN_EVENT_RESULT
     \<and> usz_sat (sm_ie_len (fst item) + sm_beacon_ie_len (fst item)) = length (snd item)
     \<and> length (snd item) \<le> max_ie"

definition sc_enqueue_result :: "nat \<Rightarrow> scan_item \<Rightarrow> scan_queue \<Rightarrow> bool \<times> scan_queue" where
  "sc_enqueue_result max_ie item q =
     (if \<not> sc_well_formed max_ie item then (False, q\<lparr> sc_queue := sq_drop (sc_queue q) \<rparr>)
      else if sc_accepted q < of_nat MAX_SCAN_RESULTS
        then sc_on_queue (sq_enqueue item) (q\<lparr> sc_accepted := sc_accepted q + 1 \<rparr>)
      else (True, q\<lparr> sc_truncated := sc_truncated q + 1 \<rparr>))"

definition scan_done_item :: "i32 \<Rightarrow> scan_item" where
  "scan_done_item status =
     (\<lparr> sm_kind = SCAN_EVENT_DONE, sm_capabilities = 0, sm_flags = 0, sm_bssid = replicate 6 0, sm_frequency_mhz = 0,
        sm_beacon_interval = 0, sm_quality = 0, sm_level_mbm = 0, sm_age_ms = 0, sm_ie_len = 0, sm_beacon_ie_len = 0,
        sm_status = status \<rparr>, [])"

definition sc_enqueue_done :: "i32 \<Rightarrow> scan_queue \<Rightarrow> bool \<times> scan_queue" where
  "sc_enqueue_done status = sc_on_queue (sq_enqueue (scan_done_item status))"

definition scan_ies :: "scan_item \<Rightarrow> u8 list" where
  "scan_ies item = take (sm_ie_len (fst item) + sm_beacon_ie_len (fst item)) (snd item)"

record link_meta =
  lm_kind :: u8
  lm_status_or_reason :: u16
  lm_frequency_mhz :: u16
  lm_bssid :: "u8 list"
  lm_first_len :: nat
  lm_second_len :: nat

type_synonym link_item = "link_meta \<times> u8 list \<times> u8 list"

definition lk_enqueue :: "link_meta \<Rightarrow> u8 list \<Rightarrow> u8 list \<Rightarrow> link_item squeue \<Rightarrow> bool \<times> link_item squeue" where
  "lk_enqueue meta fst_ies snd_ies q =
     (if length fst_ies \<noteq> lm_first_len meta \<or> length snd_ies \<noteq> lm_second_len meta
         \<or> MAX_ASSOCIATION_IE_LEN < length fst_ies \<or> MAX_ASSOCIATION_IE_LEN < length snd_ies
      then (False, sq_drop q)
      else sq_enqueue (meta, fst_ies, snd_ies) q)"

definition link_first :: "link_item \<Rightarrow> u8 list" where
  "link_first item = take (lm_first_len (fst item)) (fst (snd item))"

definition link_second :: "link_item \<Rightarrow> u8 list" where
  "link_second item = take (lm_second_len (fst item)) (snd (snd item))"

text \<open>The state is the queue and whatever the close hook changes; \<open>gap\<close> is what other contexts do between the close
  and the publication.\<close>

definition lk_enqueue_with_admission ::
  "bool \<Rightarrow> link_meta \<Rightarrow> u8 list \<Rightarrow> u8 list \<Rightarrow> ('r \<Rightarrow> 'r) \<Rightarrow> (link_item squeue \<times> 'r \<Rightarrow> link_item squeue \<times> 'r)
     \<Rightarrow> link_item squeue \<times> 'r \<Rightarrow> bool \<times> link_item squeue \<times> 'r" where
  "lk_enqueue_with_admission port_ready meta fst_ies snd_ies close gap s =
     (let early = (\<not> port_ready \<or> lm_kind meta = LINK_EVENT_DISCONNECT \<or> lm_status_or_reason meta \<noteq> 0);
          s1 = (if early then (fst s, close (snd s)) else s)
      in if \<not> port_ready then (False, s1)
         else
           (case gap s1 of
              (q, r) \<Rightarrow>
                (case lk_enqueue meta fst_ies snd_ies q of
                   (queued, q') \<Rightarrow> (queued, q', if \<not> queued \<and> \<not> early then close r else r))))"

definition lk_enqueue_initial_association ::
  "bool \<Rightarrow> link_meta \<Rightarrow> u8 list \<Rightarrow> u8 list \<Rightarrow> (link_item squeue \<times> route \<Rightarrow> link_item squeue \<times> route)
     \<Rightarrow> link_item squeue \<times> route \<Rightarrow> bool \<times> link_item squeue \<times> route" where
  "lk_enqueue_initial_association port_ready meta fst_ies snd_ies gap s =
     lk_enqueue_with_admission port_ready meta fst_ies snd_ies (snd \<circ> cr_close_admission) gap
       (fst s, snd (cr_initial_association_result
                      (port_ready \<and> lm_kind meta = LINK_EVENT_ASSOCIATE \<and> lm_status_or_reason meta = 0) (snd s)))"

record external_auth_event =
  ea_abi_version :: u16
  ea_action :: u8
  ea_ssid_len :: u8
  ea_bssid :: "u8 list"
  ea_status :: u16
  ea_key_mgmt_suite :: u32
  ea_pmkid_present :: u8
  ea_ssid :: "u8 list"
  ea_pmkid :: "u8 list"

section \<open>Shared state and callbacks\<close>

definition PORT_FREE :: u8 where "PORT_FREE = 0"
definition PORT_INSTALLING :: u8 where "PORT_INSTALLING = 1"
definition PORT_READY :: u8 where "PORT_READY = 2"
definition PORT_POISONED :: u8 where "PORT_POISONED = 3"

text \<open>The sequence and the time of the last event of a kind.\<close>

record auth_progress =
  ap_sequence :: u32
  ap_timestamp_ms :: u32

text \<open>The status of the last external authentication, kept for one repetition.\<close>

record auth_cache =
  ac_status :: u16
  ac_bssid :: "u8 list"
  ac_pmkid_present :: bool
  ac_pmkid :: "u8 list"

text \<open>The statics of the module.  \<open>nh_native\<close> is the disconnect system with the route, as \<open>Disconnect\<close> models it.\<close>

record nshared =
  nh_port :: u8
  nh_eapol_pending :: bool
  nh_scan_active :: bool
  nh_mgmt :: "mgmt_item squeue"
  nh_scan :: scan_queue
  nh_link :: "link_item squeue"
  nh_auth :: "external_auth_event squeue"
  nh_native :: dsys
  nh_runner_ups :: nat
  nh_signals :: wait_signals
  nh_event_sequence :: u32
  nh_auth_started :: auth_progress
  nh_auth_rx_last :: auth_progress
  nh_status_sent :: auth_progress
  nh_association_event :: auth_progress
  nh_association_sequence :: u32
  nh_attempts :: "association_attempt list"
  nh_auth_cache :: "auth_cache option"
  nh_status_retries :: u32
  nh_retry_status :: u32

abbreviation nh_route :: "nshared \<Rightarrow> route" where
  "nh_route s \<equiv> ds_route (nh_native s)"

definition nh_set_route :: "route \<Rightarrow> nshared \<Rightarrow> nshared" where
  "nh_set_route r s = s\<lparr> nh_native := (nh_native s)\<lparr> ds_route := r \<rparr> \<rparr>"

definition ap_new :: auth_progress where
  "ap_new = \<lparr> ap_sequence = 0, ap_timestamp_ms = 0 \<rparr>"

definition nh_new :: "dsys \<Rightarrow> nshared" where
  "nh_new d = \<lparr> nh_port = PORT_FREE, nh_eapol_pending = False, nh_scan_active = False, nh_mgmt = sq_new MGMT_RX_QUEUE_DEPTH,
     nh_scan = sc_new, nh_link = sq_new LINK_EVENT_QUEUE_DEPTH, nh_auth = sq_new EXTERNAL_AUTH_QUEUE_DEPTH,
     nh_native = d, nh_runner_ups = 0, nh_signals = ws_new, nh_event_sequence = 1, nh_auth_started = ap_new,
     nh_auth_rx_last = ap_new, nh_status_sent = ap_new, nh_association_event = ap_new, nh_association_sequence = 1,
     nh_attempts = replicate ASSOCIATION_ATTEMPT_CAPACITY aa_new, nh_auth_cache = None, nh_status_retries = 0, nh_retry_status = 0 \<rparr>"

definition notify_runner :: "nshared \<Rightarrow> nshared" where
  "notify_runner s = s\<lparr> nh_runner_ups := nh_runner_ups s + 1, nh_signals := signal_backend (nh_signals s) \<rparr>"

definition ap_observe :: "u64 \<Rightarrow> nshared \<Rightarrow> auth_progress \<times> nshared" where
  "ap_observe now_ms s =
     (\<lparr> ap_sequence = nh_event_sequence s, ap_timestamp_ms = ucast now_ms \<rparr>,
      s\<lparr> nh_event_sequence := nh_event_sequence s + 1 \<rparr>)"

definition enqueue_mgmt_rx :: "u64 \<Rightarrow> u32 \<Rightarrow> i32 \<Rightarrow> u8 list \<Rightarrow> nshared \<Rightarrow> bool \<times> nshared" where
  "enqueue_mgmt_rx now_ms frequency rssi frame s =
     (if nh_port s \<noteq> PORT_READY then (False, s)
      else
        (case mgmt_enqueue frequency rssi frame (nh_mgmt s) of
           (queued, q) \<Rightarrow>
             let s1 = s\<lparr> nh_mgmt := q \<rparr>
             in if queued
                then (True, notify_runner
                       (if authentication_header frame \<noteq> None
                        then (case ap_observe now_ms s1 of (p, s2) \<Rightarrow> s2\<lparr> nh_auth_rx_last := p \<rparr>) else s1))
                else (False, s1)))"

definition pad :: "nat \<Rightarrow> u8 list \<Rightarrow> u8 list" where
  "pad n xs = xs @ replicate (n - length xs) 0"

definition enqueue_external_auth ::
  "u16 \<Rightarrow> u64 \<Rightarrow> u8 \<Rightarrow> u8 list \<Rightarrow> u8 list \<Rightarrow> u32 \<Rightarrow> u16 \<Rightarrow> u8 list option \<Rightarrow> nshared \<Rightarrow> bool \<times> nshared" where
  "enqueue_external_auth abi now_ms action bssid ssid suite status pmkid s =
     (if nh_port s \<noteq> PORT_READY \<or> 1 < action \<or> 32 < length ssid \<or> (action = 0 \<and> ssid = []) then (False, s)
      else
        (case sq_enqueue \<lparr> ea_abi_version = abi, ea_action = action, ea_ssid_len = of_nat (length ssid), ea_bssid = bssid,
             ea_status = status, ea_key_mgmt_suite = suite, ea_pmkid_present = (if pmkid = None then 0 else 1),
             ea_ssid = pad 32 ssid, ea_pmkid = (case pmkid of None \<Rightarrow> replicate 16 0 | Some p \<Rightarrow> p) \<rparr> (nh_auth s) of
           (queued, q) \<Rightarrow>
             let s1 = s\<lparr> nh_auth := q \<rparr>
             in if queued
                then (True, notify_runner
                       (if action = 0 then (case ap_observe now_ms s1 of (p, s2) \<Rightarrow> s2\<lparr> nh_auth_started := p \<rparr>) else s1))
                else (False, s1)))"

definition enqueue_scan_result :: "nat \<Rightarrow> scan_item \<Rightarrow> nshared \<Rightarrow> bool \<times> nshared" where
  "enqueue_scan_result max_ie item s =
     (if nh_port s \<noteq> PORT_READY \<or> \<not> nh_scan_active s then (False, s)
      else
        (case sc_enqueue_result max_ie ((fst item)\<lparr> sm_kind := SCAN_EVENT_RESULT, sm_status := 0 \<rparr>, snd item) (nh_scan s) of
           (queued, q) \<Rightarrow> (queued, (if queued then notify_runner else id) (s\<lparr> nh_scan := q \<rparr>))))"

definition enqueue_scan_done :: "i32 \<Rightarrow> nshared \<Rightarrow> bool \<times> nshared" where
  "enqueue_scan_done status s =
     (if nh_port s \<noteq> PORT_READY then (False, s)
      else if \<not> nh_scan_active s then (False, s\<lparr> nh_scan_active := False \<rparr>)
      else
        (case sc_enqueue_done status (nh_scan s) of
           (queued, q) \<Rightarrow> (queued, (if queued then notify_runner else id) (s\<lparr> nh_scan_active := False, nh_scan := q \<rparr>))))"

definition on_link :: "(link_item squeue \<times> route \<Rightarrow> bool \<times> link_item squeue \<times> route) \<Rightarrow> nshared \<Rightarrow> bool \<times> nshared" where
  "on_link f s = (case f (nh_link s, nh_route s) of (queued, q, r) \<Rightarrow> (queued, nh_set_route r (s\<lparr> nh_link := q \<rparr>)))"

definition close_native_link_admission :: "nshared \<Rightarrow> nshared" where
  "close_native_link_admission s = nh_set_route (snd (cr_close_admission (nh_route s))) s"

definition record_attempt :: "u64 \<Rightarrow> u16 \<Rightarrow> u8 list \<Rightarrow> nshared \<Rightarrow> nshared" where
  "record_attempt now_ms status response s =
     s\<lparr> nh_association_sequence := nh_association_sequence s + 1,
        nh_attempts := (nh_attempts s)[unat (nh_association_sequence s - 1) mod ASSOCIATION_ATTEMPT_CAPACITY :=
          aa_record now_ms (nh_association_sequence s) status (normalize_vendor_association_status status) response] \<rparr>"

definition associate_meta :: "u16 \<Rightarrow> u16 \<Rightarrow> u8 list \<Rightarrow> u8 list \<Rightarrow> u8 list \<Rightarrow> link_item" where
  "associate_meta status frequency bssid request response =
     (let down = vendor_result_uses_disconnect status;
          fst_ies = (if down then [] else request); snd_ies = (if down then [] else response)
      in (\<lparr> lm_kind = (if down then LINK_EVENT_DISCONNECT else LINK_EVENT_ASSOCIATE),
            lm_status_or_reason = (if down then status else normalize_vendor_association_status status),
            lm_frequency_mhz = frequency, lm_bssid = bssid, lm_first_len = length fst_ies, lm_second_len = length snd_ies \<rparr>,
          fst_ies, snd_ies))"

text \<open>\<open>initial\<close> is the feature of the initial session.\<close>

definition enqueue_associate_result ::
  "bool \<Rightarrow> u64 \<Rightarrow> (link_item squeue \<times> route \<Rightarrow> link_item squeue \<times> route) \<Rightarrow> u16 \<Rightarrow> u16 \<Rightarrow> u8 list \<Rightarrow> u8 list \<Rightarrow> u8 list
     \<Rightarrow> nshared \<Rightarrow> bool \<times> nshared" where
  "enqueue_associate_result initial now_ms gap status frequency bssid request response s =
     (if nh_port s \<noteq> PORT_READY then (False, close_native_link_admission s)
      else
        (case associate_meta status frequency bssid request response of
           (meta, fst_ies, snd_ies) \<Rightarrow>
             (case on_link (if initial then lk_enqueue_initial_association True meta fst_ies snd_ies gap
                            else lk_enqueue_with_admission True meta fst_ies snd_ies (snd \<circ> cr_close_admission) gap)
                     (record_attempt now_ms status response s) of
                (queued, s1) \<Rightarrow>
                  (queued, if queued
                           then notify_runner (case ap_observe now_ms s1 of (p, s2) \<Rightarrow> s2\<lparr> nh_association_event := p \<rparr>)
                           else s1))))"

definition enqueue_disconnect ::
  "(link_item squeue \<times> route \<Rightarrow> link_item squeue \<times> route) \<Rightarrow> u16 \<Rightarrow> u8 list \<Rightarrow> nshared \<Rightarrow> bool \<times> nshared" where
  "enqueue_disconnect gap reason ies s =
     (case on_link (lk_enqueue_with_admission (nh_port s = PORT_READY)
              \<lparr> lm_kind = LINK_EVENT_DISCONNECT, lm_status_or_reason = reason, lm_frequency_mhz = 0, lm_bssid = replicate 6 0,
                lm_first_len = length ies, lm_second_len = 0 \<rparr> ies [] (snd \<circ> cr_close_admission) gap) s of
        (queued, s1) \<Rightarrow> (queued, if queued then notify_runner s1 else s1))"

definition eapol_notify :: "nshared \<Rightarrow> nshared" where
  "eapol_notify s = notify_runner (s\<lparr> nh_eapol_pending := True \<rparr>)"

section \<open>Scan capture\<close>

definition try_claim_scan_timeout :: "nshared \<Rightarrow> bool \<times> nshared" where
  "try_claim_scan_timeout s = (nh_scan_active s, s\<lparr> nh_scan_active := False \<rparr>)"

definition ready_count :: "'a squeue \<Rightarrow> nat" where
  "ready_count q = length (filter (\<lambda>sl. sl_state sl = SlotReady) (sq_slots q))"

lemma length_filter_update:
  assumes "i < length xs"
  shows "length (filter P (xs[i := y])) + (if P (xs ! i) then 1 else 0) = length (filter P xs) + (if P y then 1 else 0)"
proof -
  obtain ys zs where a: "xs = ys @ xs ! i # zs" and b: "xs[i := y] = ys @ y # zs"
    using assms(1) by (elim at_split) blast
  have "length (filter P xs) = length (filter P (ys @ xs ! i # zs))" using a by (rule arg_cong)
  then show ?thesis by (simp add: b)
qed

lemma ready_count_take:
  assumes "sq_take q = (Some i, q')"
  shows "ready_count (sq_release i q') < ready_count q"
  using assms length_filter_update [of i "sq_slots q" "\<lambda>sl. sl_state sl = SlotReady" "(sq_slots q ! i)\<lparr> sl_state := SlotFree \<rparr>"]
  by (cases rule: sq_take_cases [of q]) (auto simp: ready_count_def sq_release_def sq_set_def)

function sq_discard_pending :: "'a squeue \<Rightarrow> 'a squeue" where
  "sq_discard_pending q =
     (case sq_take q of (None, q') \<Rightarrow> q' | (Some i, q') \<Rightarrow> sq_discard_pending (sq_release i q'))"
  by pat_completeness auto
termination
  by (relation "measure ready_count") (auto dest: ready_count_take [OF sym])

declare sq_discard_pending.simps [simp del]

definition cancel_scan_cache_capture :: "nshared \<Rightarrow> nshared" where
  "cancel_scan_cache_capture s =
     s\<lparr> nh_scan_active := False, nh_scan := (nh_scan s)\<lparr> sc_queue := sq_discard_pending (sc_queue (nh_scan s)) \<rparr> \<rparr>"

definition scan_cache_capture_pending :: "nshared \<Rightarrow> bool" where
  "scan_cache_capture_pending s \<longleftrightarrow> nh_scan_active s \<or> sq_has_pending (sc_queue (nh_scan s))"

section \<open>A scan transaction\<close>

text \<open>The vendor worker reports results while the runner takes events and drops them again.\<close>

record scan_sys =
  zs_queue :: scan_queue
  zs_held :: "nat option"
  zs_taken :: "scan_item list"

datatype scan_op = ZResult scan_item | ZTake | ZDrop

fun zs_step :: "nat \<Rightarrow> scan_op \<Rightarrow> scan_sys \<Rightarrow> scan_sys" where
  "zs_step max_ie (ZResult item) s = s\<lparr> zs_queue := snd (sc_enqueue_result max_ie item (zs_queue s)) \<rparr>"
| "zs_step max_ie ZTake s =
     (if zs_held s \<noteq> None then s
      else
        (case sc_on_queue sq_take (zs_queue s) of
           (None, q) \<Rightarrow> s\<lparr> zs_queue := q \<rparr>
         | (Some i, q) \<Rightarrow> s\<lparr> zs_queue := q, zs_held := Some i,
                            zs_taken := zs_taken s @ [the (sl_item (sq_slots (sc_queue (zs_queue s)) ! i))] \<rparr>))"
| "zs_step max_ie ZDrop s =
     (case zs_held s of
        None \<Rightarrow> s
      | Some i \<Rightarrow> s\<lparr> zs_queue := (zs_queue s)\<lparr> sc_queue := sq_release i (sc_queue (zs_queue s)) \<rparr>, zs_held := None \<rparr>)"

definition zs_begin :: "scan_queue \<Rightarrow> scan_sys" where
  "zs_begin q = \<lparr> zs_queue = sc_begin_transaction q, zs_held = None, zs_taken = [] \<rparr>"

fun zs_results :: "scan_op list \<Rightarrow> scan_item list" where
  "zs_results [] = []"
| "zs_results (ZResult item # ops) = item # zs_results ops"
| "zs_results (_ # ops) = zs_results ops"

definition busy :: "'a squeue \<Rightarrow> nat" where
  "busy q = length (filter (\<lambda>sl. sl_state sl \<noteq> SlotFree) (sq_slots q))"

lemma busy_set:
  "i < length (sq_slots q) \<Longrightarrow>
     busy (sq_set i f q) + (if sl_state (sq_slots q ! i) \<noteq> SlotFree then 1 else 0)
       = busy q + (if sl_state (f (sq_slots q ! i)) \<noteq> SlotFree then 1 else 0)"
  using length_filter_update [of i "sq_slots q" "\<lambda>sl. sl_state sl \<noteq> SlotFree" "f (sq_slots q ! i)"]
  by (simp add: busy_def sq_set_def)

lemma busy_next [simp]: "busy (q\<lparr> sq_next := n \<rparr>) = busy q" "busy (sq_drop q) = busy q"
  by (simp_all add: busy_def sq_drop_def)

lemma free_slot:
  assumes "busy q < length (sq_slots q)"
  shows "\<exists>sl \<in> set (sq_slots q). sl_state sl = SlotFree"
proof (rule ccontr)
  assume "\<not> ?thesis"
  then have "filter (\<lambda>sl. sl_state sl \<noteq> SlotFree) (sq_slots q) = sq_slots q" by (auto simp: filter_id_conv)
  then show False using assms by (simp add: busy_def)
qed

lemma sq_enqueue_free:
  assumes "busy q < length (sq_slots q)"
  obtains i where "i < length (sq_slots q)" "sl_state (sq_slots q ! i) = SlotFree"
    "sq_enqueue x q = (True, sq_set i (\<lambda>s. s\<lparr> sl_state := SlotReady, sl_seq := sq_next q, sl_item := Some x \<rparr>)
                               (q\<lparr> sq_next := sq_next q + 1 \<rparr>))"
proof (cases rule: sq_claim_cases [of "q\<lparr> sq_next := sq_next q + 1 \<rparr>"])
  case full
  then show ?thesis using free_slot [OF assms] by auto
next
  case (slot i)
  have "sq_publish i (sq_next q) x (sq_set i (\<lambda>s. s\<lparr> sl_state := SlotWriting \<rparr>) (q\<lparr> sq_next := sq_next q + 1 \<rparr>))
    = sq_set i (\<lambda>s. s\<lparr> sl_state := SlotReady, sl_seq := sq_next q, sl_item := Some x \<rparr>) (q\<lparr> sq_next := sq_next q + 1 \<rparr>)"
    using slot(2) by (simp add: sq_publish_def sq_set_def)
  then show ?thesis using slot by (intro that [of i]) (simp_all add: sq_enqueue_def sq_alloc_def)
qed

text \<open>The account of a transaction that has reported \<open>rs\<close> since it began with the queue \<open>q0\<close>.\<close>

definition zs_ok :: "nat \<Rightarrow> scan_queue \<Rightarrow> scan_item list \<Rightarrow> scan_sys \<Rightarrow> bool" where
  "zs_ok max_ie q0 rs s \<longleftrightarrow>
     (let q = sc_queue (zs_queue s); good = filter (sc_well_formed max_ie) rs
      in length (sq_slots q) = SCAN_EVENT_QUEUE_DEPTH \<and> busy q \<le> min MAX_SCAN_RESULTS (length good)
        \<and> sc_accepted (zs_queue s) = of_nat (min MAX_SCAN_RESULTS (length good))
        \<and> sq_dropped q = sq_dropped (sc_queue q0) + of_nat (length rs - length good)
        \<and> sc_truncated (zs_queue s) = sc_truncated q0 + of_nat (length good - MAX_SCAN_RESULTS)
        \<and> mset (zs_taken s) + mset (sq_ready q) = mset (take MAX_SCAN_RESULTS good)
        \<and> (\<forall>sl \<in> set (sq_slots q). sl_state sl = SlotReady \<longrightarrow> sl_item sl \<noteq> None)
        \<and> (\<forall>i. zs_held s = Some i \<longrightarrow> i < length (sq_slots q) \<and> sl_state (sq_slots q ! i) = SlotReading))"

lemma min_of_nat_less:
  "(of_nat (min MAX_SCAN_RESULTS n) :: u32) < of_nat MAX_SCAN_RESULTS \<longleftrightarrow> n < MAX_SCAN_RESULTS"
  by (simp add: MAX_SCAN_RESULTS_def word_less_nat_alt unat_of_nat min_def)

lemma sq_set_dropped [simp]: "sq_dropped (sq_set i f q) = sq_dropped q"
  by (simp add: sq_set_def)

lemma length_filter_diff_snoc:
  "length (rs @ [x]) - length (filter P (rs @ [x])) = length rs - length (filter P rs) + (if P x then 0 else 1)"
  using length_filter_le [of P rs] by (simp add: Suc_diff_le)

lemma zs_ok_malformed:
  assumes "zs_ok max_ie q0 rs s" "\<not> sc_well_formed max_ie item"
  shows "zs_ok max_ie q0 (rs @ [item]) (zs_step max_ie (ZResult item) s)"
  using assms length_filter_diff_snoc [of rs item "sc_well_formed max_ie"]
  by (auto simp: zs_ok_def sc_enqueue_result_def Let_def sq_drop_def busy_def)

lemma zs_ok_truncated:
  assumes "zs_ok max_ie q0 rs s" "sc_well_formed max_ie item"
    "MAX_SCAN_RESULTS \<le> length (filter (sc_well_formed max_ie) rs)"
  shows "zs_ok max_ie q0 (rs @ [item]) (zs_step max_ie (ZResult item) s)"
  using assms min_of_nat_less [of "length (filter (sc_well_formed max_ie) rs)"]
  by (auto simp: zs_ok_def sc_enqueue_result_def Let_def Suc_diff_le)

lemma zs_ok_accepted:
  assumes ok: "zs_ok max_ie q0 rs s" and wf: "sc_well_formed max_ie item"
    and room: "length (filter (sc_well_formed max_ie) rs) < MAX_SCAN_RESULTS"
  shows "zs_ok max_ie q0 (rs @ [item]) (zs_step max_ie (ZResult item) s)"
proof -
  define q where "q = sc_queue (zs_queue s)"
  have b: "busy q < length (sq_slots q)" "busy q \<le> length (filter (sc_well_formed max_ie) rs)"
    using ok room by (auto simp: zs_ok_def Let_def q_def MAX_SCAN_RESULTS_def SCAN_EVENT_QUEUE_DEPTH_def)
  obtain i where i: "i < length (sq_slots q)" "sl_state (sq_slots q ! i) = SlotFree"
    and enq: "sq_enqueue item q = (True, sq_set i (\<lambda>s. s\<lparr> sl_state := SlotReady, sl_seq := sq_next q, sl_item := Some item \<rparr>)
                               (q\<lparr> sq_next := sq_next q + 1 \<rparr>))"
    using sq_enqueue_free [OF b(1)] by blast
  define q' where "q' = snd (sq_enqueue item q)"
  have acc: "sc_accepted (zs_queue s) < of_nat MAX_SCAN_RESULTS"
    using ok room min_of_nat_less [of "length (filter (sc_well_formed max_ie) rs)"] by (simp add: zs_ok_def Let_def)
  have step: "zs_step max_ie (ZResult item) s
    = s\<lparr> zs_queue := (zs_queue s)\<lparr> sc_accepted := sc_accepted (zs_queue s) + 1, sc_queue := q' \<rparr> \<rparr>"
    using wf acc by (simp add: sc_enqueue_result_def sc_on_queue_def q_def [symmetric] q'_def split: prod.splits)
  have "busy q' = busy q + 1" "mset (sq_ready q') = add_mset item (mset (sq_ready q))"
    using busy_set [of i "q\<lparr> sq_next := sq_next q + 1 \<rparr>"] sq_ready_set [of i "q\<lparr> sq_next := sq_next q + 1 \<rparr>"] i
    by (simp_all add: q'_def enq ready_item_def)
  moreover have "length (sq_slots q') = length (sq_slots q)" "sq_dropped q' = sq_dropped q"
    by (simp_all add: q'_def enq)
  moreover have "\<forall>sl \<in> set (sq_slots q'). sl_state sl = SlotReady \<longrightarrow> sl_item sl \<noteq> None"
    using ok by (auto simp: zs_ok_def Let_def q'_def enq q_def [symmetric] dest!: set_sq_set)
  moreover have "\<forall>j. zs_held s = Some j \<longrightarrow> j < length (sq_slots q') \<and> sl_state (sq_slots q' ! j) = SlotReading"
    using ok i by (auto simp: zs_ok_def Let_def q'_def enq q_def [symmetric] sq_set_nth)
  moreover have "mset (zs_taken s) + mset (sq_ready q) = mset (filter (sc_well_formed max_ie) rs)"
    using ok room by (simp add: zs_ok_def Let_def q_def)
  moreover have "min MAX_SCAN_RESULTS (length (filter (sc_well_formed max_ie) rs)) = length (filter (sc_well_formed max_ie) rs)"
    "min MAX_SCAN_RESULTS (Suc (length (filter (sc_well_formed max_ie) rs))) = Suc (length (filter (sc_well_formed max_ie) rs))"
    using room by simp_all
  ultimately show ?thesis
    using ok wf room b(2) unfolding step
    by (auto simp: zs_ok_def Let_def q_def [symmetric])
qed

lemma zs_ok_take:
  assumes ok: "zs_ok max_ie q0 rs s"
  shows "zs_ok max_ie q0 rs (zs_step max_ie ZTake s)"
proof (cases rule: sq_take_cases [of "sc_queue (zs_queue s)"])
  case idle
  then show ?thesis using ok by (simp add: sc_on_queue_def)
next
  case (slot i)
  show ?thesis
  proof (cases "zs_held s")
    case None
    define q where "q = sc_queue (zs_queue s)"
    define q' where "q' = sq_set i (\<lambda>s. s\<lparr> sl_state := SlotReading \<rparr>) q"
    define x where "x = the (sl_item (sq_slots q ! i))"
    have step: "zs_step max_ie ZTake s
      = s\<lparr> zs_queue := (zs_queue s)\<lparr> sc_queue := q' \<rparr>, zs_held := Some i, zs_taken := zs_taken s @ [x] \<rparr>"
      using None by (simp add: sc_on_queue_def slot(1) q_def q'_def x_def)
    have "sl_item (sq_slots q ! i) \<noteq> None"
      using ok slot(2,3) nth_mem by (fastforce simp: zs_ok_def Let_def q_def)
    then have "ready_item (sq_slots q ! i) = Some x" using slot(3) by (auto simp: ready_item_def x_def q_def)
    then have r: "add_mset x (mset (sq_ready q')) = mset (sq_ready q)"
      using sq_ready_set [of i q "\<lambda>s. s\<lparr> sl_state := SlotReading \<rparr>"] slot(2)
      by (simp add: q'_def q_def) (simp add: ready_item_def)
    have "mset (zs_taken s @ [x]) + mset (sq_ready q') = mset (zs_taken s) + mset (sq_ready q)"
      by (simp add: r [symmetric])
    moreover have "busy q' = busy q"
      using busy_set [of i q "\<lambda>s. s\<lparr> sl_state := SlotReading \<rparr>"] slot(2,3) by (simp add: q'_def q_def)
    moreover have "\<forall>sl \<in> set (sq_slots q'). sl_state sl = SlotReady \<longrightarrow> sl_item sl \<noteq> None"
      using ok by (auto simp: zs_ok_def Let_def q'_def q_def [symmetric] dest!: set_sq_set)
    moreover have "i < length (sq_slots q') \<and> sl_state (sq_slots q' ! i) = SlotReading"
      using slot(2) by (simp add: q'_def sq_set_nth q_def)
    moreover have "length (sq_slots q') = length (sq_slots q)" "sq_dropped q' = sq_dropped q" by (simp_all add: q'_def)
    ultimately show ?thesis using ok unfolding step zs_ok_def Let_def by (simp add: q_def [symmetric] del: mset_append)
  qed (use ok in simp)
qed

lemma zs_ok_drop:
  assumes ok: "zs_ok max_ie q0 rs s"
  shows "zs_ok max_ie q0 rs (zs_step max_ie ZDrop s)"
proof (cases "zs_held s")
  case (Some i)
  define q where "q = sc_queue (zs_queue s)"
  define q' where "q' = sq_set i (\<lambda>s. s\<lparr> sl_state := SlotFree \<rparr>) q"
  have i: "i < length (sq_slots q)" "sl_state (sq_slots q ! i) = SlotReading"
    using ok Some by (auto simp: zs_ok_def Let_def q_def)
  have "mset (sq_ready q') = mset (sq_ready q)" unfolding q'_def using i by (simp add: sq_ready_unready)
  moreover have "busy q' \<le> busy q" using busy_set [of i q "\<lambda>s. s\<lparr> sl_state := SlotFree \<rparr>"] i by (simp add: q'_def)
  moreover have "\<forall>sl \<in> set (sq_slots q'). sl_state sl = SlotReady \<longrightarrow> sl_item sl \<noteq> None"
    using ok by (auto simp: zs_ok_def Let_def q'_def q_def [symmetric] dest!: set_sq_set)
  moreover have "length (sq_slots q') = length (sq_slots q)" "sq_dropped q' = sq_dropped q" by (simp_all add: q'_def)
  ultimately show ?thesis
    using ok Some by (simp add: zs_ok_def Let_def sq_release_def q_def [symmetric] q'_def [symmetric])
qed (use ok in simp)

lemma zs_run:
  "zs_ok max_ie q0 rs s \<Longrightarrow> zs_ok max_ie q0 (rs @ zs_results ops) (fold (zs_step max_ie) ops s)"
proof (induction ops arbitrary: rs s)
  case (Cons a ops)
  show ?case
  proof (cases a)
    case (ZResult item)
    have "zs_ok max_ie q0 (rs @ [item]) (zs_step max_ie (ZResult item) s)"
      using Cons.prems zs_ok_malformed zs_ok_truncated zs_ok_accepted by (meson not_le)
    from Cons.IH [OF this] show ?thesis by (simp add: ZResult)
  next
    case ZTake
    then show ?thesis using Cons.IH [OF zs_ok_take [OF Cons.prems]] by simp
  next
    case ZDrop
    then show ?thesis using Cons.IH [OF zs_ok_drop [OF Cons.prems]] by simp
  qed
qed simp

lemma zs_ok_begin:
  assumes "\<not> sq_has_pending (sc_queue q)" "length (sq_slots (sc_queue q)) = SCAN_EVENT_QUEUE_DEPTH"
  shows "zs_ok max_ie q [] (zs_begin q)"
proof -
  have "\<forall>sl \<in> set (sq_slots (sc_queue q)). sl_state sl = SlotFree"
    using assms(1) by (auto simp: sq_has_pending_def list_ex_iff)
  then show ?thesis
    using assms(2) by (auto simp: zs_ok_def zs_begin_def sc_begin_transaction_def busy_def sq_ready_Nil ready_item_def)
qed

section \<open>Information elements\<close>

definition ie_encode :: "u8 \<times> u8 list \<Rightarrow> u8 list" where
  "ie_encode e = fst e # of_nat (length (snd e)) # snd e"

definition is_comeback :: "u8 \<times> u8 list \<Rightarrow> bool" where
  "is_comeback e \<longleftrightarrow> fst e = WLAN_EID_TIMEOUT_INTERVAL \<and> length (snd e) = 5 \<and> snd e ! 0 = WLAN_TIMEOUT_ASSOC_COMEBACK"

lemma comeback_element:
  assumes "length (snd e) < 256"
  shows "association_comeback_interval (ie_encode e @ rest) =
    (if is_comeback e then Some (le32 (snd e ! 1) (snd e ! 2) (snd e ! 3) (snd e ! 4)) else association_comeback_interval rest)"
proof -
  obtain i p where e: "e = (i, p)" by (cases e)
  have len: "unat (of_nat (length p) :: u8) = length p" using assms by (simp add: e unat_of_nat)
  have nth: "(p @ rest) ! k = p ! k" if "length p = 5" "k < 5" for k using that by (simp add: nth_append)
  have ies: "ie_encode e @ rest = i # of_nat (length p) # p @ rest" by (simp add: ie_encode_def e)
  have at: "(i # l # ys) ! 3 = ys ! 1" "(i # l # ys) ! 4 = ys ! 2" "(i # l # ys) ! 5 = ys ! 3" "(i # l # ys) ! 6 = ys ! 4"
    "(i # l # ys) ! 2 = ys ! 0" for l :: u8 and ys
    by (simp_all add: numeral_eq_Suc)
  show ?thesis
  proof (cases "is_comeback e")
    case True
    then show ?thesis
      unfolding ies using len nth by (subst association_comeback_interval.simps) (simp add: at is_comeback_def e Let_def)
  next
    case False
    then show ?thesis
      unfolding ies using len nth [of 0] by (subst association_comeback_interval.simps) (auto simp: at is_comeback_def e Let_def)
  qed
qed

text \<open>On a list of information elements the parser finds the first association comeback interval.\<close>

theorem association_comeback_exact:
  assumes "list_all (\<lambda>e. length (snd e) < 256) es"
  shows "association_comeback_interval (concat (map ie_encode es) @ rest) =
    (case find is_comeback es of
       Some e \<Rightarrow> Some (le32 (snd e ! 1) (snd e ! 2) (snd e ! 3) (snd e ! 4))
     | None \<Rightarrow> association_comeback_interval rest)"
  using assms by (induction es) (auto simp: comeback_element)

section \<open>Discarding\<close>

lemma sq_discard_writing:
  assumes "list_ex (\<lambda>sl. sl_state sl = SlotWriting) (sq_slots q)"
  shows "sq_discard_pending q = q"
  using assms by (subst sq_discard_pending.simps) (simp add: sq_take_def take_oldest_slot_def)

lemma sq_discard_clean:
  assumes "\<not> list_ex (\<lambda>sl. sl_state sl = SlotWriting) (sq_slots q)"
  shows "list_all (\<lambda>sl. sl_state sl \<noteq> SlotReady) (sq_slots (sq_discard_pending q))
    \<and> sq_dropped (sq_discard_pending q) = sq_dropped q"
  using assms
proof (induction q rule: sq_discard_pending.induct)
  case (1 q)
  show ?case
  proof (cases rule: sq_take_cases [of q])
    case idle
    then have "fst (sq_take q) = None" by simp
    then have "list_all (\<lambda>sl. sl_state sl \<noteq> SlotReady) (sq_slots q)"
      using 1(2) unfolding sq_take_None by (simp add: list_all_iff)
    then show ?thesis by (subst (1 2) sq_discard_pending.simps) (simp add: idle)
  next
    case (slot i)
    define q' where "q' = sq_release i (sq_set i (\<lambda>s. s\<lparr> sl_state := SlotReading \<rparr>) q)"
    have "\<not> list_ex (\<lambda>sl. sl_state sl = SlotWriting) (sq_slots q')"
      using 1(2) slot(2) by (auto simp: q'_def sq_release_def list_ex_iff sq_set_nth dest!: set_sq_set)
    then have "list_all (\<lambda>sl. sl_state sl \<noteq> SlotReady) (sq_slots (sq_discard_pending q'))
        \<and> sq_dropped (sq_discard_pending q') = sq_dropped q'"
      using 1(1) [OF slot(1) [symmetric] refl] by (simp add: q'_def)
    moreover have "sq_discard_pending q = sq_discard_pending q'"
      by (subst sq_discard_pending.simps) (simp add: slot(1) q'_def)
    ultimately show ?thesis by (simp add: q'_def sq_release_def)
  qed
qed

section \<open>Link events and the route\<close>

text \<open>Other contexts between the close and the publication: any change of the queue, any steps of the route.\<close>

definition link_gap ::
  "(link_item squeue \<Rightarrow> link_item squeue) \<Rightarrow> rop list \<Rightarrow> rsys \<Rightarrow> link_item squeue \<times> route \<Rightarrow> link_item squeue \<times> route" where
  "link_gap other rops w s = (other (fst s), rs_route (fold rs_step rops (w\<lparr> rs_route := snd s \<rparr>)))"

definition route_drops :: "route \<Rightarrow> route \<Rightarrow> bool" where
  "route_drops before after \<longleftrightarrow> fst (cr_enter_allocated (cr_allocation_epoch before) after) = None"

lemma route_dropsI: "\<exists>a \<in> set ops. closes a \<Longrightarrow> route_drops (rs_route w) (rs_route (fold rs_step ops w))"
  unfolding route_drops_def using stale_epoch_rejected by blast

lemma with_admission_cases:
  "lk_enqueue_with_admission ready meta f1 f2 close gap (q, r) =
     (if \<not> ready then (False, q, close r)
      else if lm_kind meta = LINK_EVENT_DISCONNECT \<or> lm_status_or_reason meta \<noteq> 0
        then (fst (lk_enqueue meta f1 f2 (fst (gap (q, close r)))), snd (lk_enqueue meta f1 f2 (fst (gap (q, close r)))),
              snd (gap (q, close r)))
      else (fst (lk_enqueue meta f1 f2 (fst (gap (q, r)))), snd (lk_enqueue meta f1 f2 (fst (gap (q, r)))),
            if fst (lk_enqueue meta f1 f2 (fst (gap (q, r)))) then snd (gap (q, r)) else close (snd (gap (q, r)))))"
  by (auto simp: lk_enqueue_with_admission_def Let_def case_prod_beta)

lemma with_admission_route:
  assumes "lk_enqueue_with_admission ready meta f1 f2 (snd \<circ> cr_close_admission) (link_gap other rops w) (q, rs_route w) = (queued, q', r')"
  shows "\<exists>ops. r' = rs_route (fold rs_step ops w) \<and>
    (if ready \<and> lm_kind meta \<noteq> LINK_EVENT_DISCONNECT \<and> lm_status_or_reason meta = 0 \<and> queued
     then ops = rops else (\<exists>a \<in> set ops. closes a))"
proof -
  have early: "snd (link_gap other rops w (q, (snd \<circ> cr_close_admission) (rs_route w))) = rs_route (fold rs_step (RClose # rops) w)"
    by (simp add: link_gap_def)
  have late: "snd (link_gap other rops w (q, rs_route w)) = rs_route (fold rs_step rops w)"
    by (simp add: link_gap_def)
  have last: "(snd \<circ> cr_close_admission) (rs_route (fold rs_step rops w)) = rs_route (fold rs_step (rops @ [RClose]) w)"
    by simp
  have only: "(snd \<circ> cr_close_admission) (rs_route w) = rs_route (fold rs_step [RClose] w)" by simp
  consider "\<not> ready" "r' = rs_route (fold rs_step [RClose] w)"
    | "ready" "lm_kind meta = LINK_EVENT_DISCONNECT \<or> lm_status_or_reason meta \<noteq> 0" "r' = rs_route (fold rs_step (RClose # rops) w)"
    | "ready" "lm_kind meta \<noteq> LINK_EVENT_DISCONNECT" "lm_status_or_reason meta = 0"
      "r' = rs_route (fold rs_step (if queued then rops else rops @ [RClose]) w)"
    using assms unfolding with_admission_cases unfolding early late unfolding last only
    by (cases "ready"; cases "lm_kind meta = LINK_EVENT_DISCONNECT \<or> lm_status_or_reason meta \<noteq> 0"; cases queued)
      (simp_all del: fold.simps fold_append)
  then show ?thesis
  proof cases
    case 1
    then show ?thesis by (intro exI [of _ "[RClose]"]) (simp del: fold.simps)
  next
    case 2
    then show ?thesis by (intro exI [of _ "RClose # rops"]) (auto simp del: fold.simps)
  next
    case 3
    then show ?thesis by (intro exI [of _ "if queued then rops else rops @ [RClose]"]) (auto simp del: fold_append)
  qed
qed

lemma normalize_zero: "normalize_vendor_association_status status = 0 \<longleftrightarrow> status = 0"
  by (auto simp: normalize_vendor_association_status_def VENDOR_ASSOC_STATUS_OFFSET_def)

lemma vendor_disconnect_zero: "\<not> vendor_result_uses_disconnect 0"
  by (simp add: vendor_result_uses_disconnect_def)

lemma associate_meta_success:
  "lm_kind (fst (associate_meta status frequency bssid request response)) \<noteq> LINK_EVENT_DISCONNECT
     \<and> lm_status_or_reason (fst (associate_meta status frequency bssid request response)) = 0 \<longleftrightarrow> status = 0"
  by (auto simp: associate_meta_def Let_def normalize_zero vendor_disconnect_zero LINK_EVENT_ASSOCIATE_def LINK_EVENT_DISCONNECT_def)

lemma nh_set_route_simps [simp]:
  "nh_route (nh_set_route r s) = r" "nh_port (nh_set_route r s) = nh_port s" "nh_link (nh_set_route r s) = nh_link s"
  by (simp_all add: nh_set_route_def)

lemma notify_frame [simp]: "nh_route (notify_runner s) = nh_route s" "nh_link (notify_runner s) = nh_link s"
  by (simp_all add: notify_runner_def)

lemma observe_frame [simp]: "nh_route (snd (ap_observe now s)) = nh_route s"
  by (simp add: ap_observe_def)

lemma record_attempt_frame [simp]:
  "nh_route (record_attempt now status response s) = nh_route s" "nh_link (record_attempt now status response s) = nh_link s"
  by (simp_all add: record_attempt_def)

lemma on_link_route:
  "fst (on_link f s) = fst (f (nh_link s, nh_route s)) \<and> nh_route (snd (on_link f s)) = snd (snd (f (nh_link s, nh_route s)))"
  by (simp add: on_link_def case_prod_beta)

lemma initial_association_route:
  assumes "lk_enqueue_initial_association ready meta f1 f2 (link_gap other rops w) (q, rs_route w) = (queued, q', r')"
  shows "route_drops (rs_route w) r'"
proof -
  define ok where "ok \<longleftrightarrow> ready \<and> lm_kind meta = LINK_EVENT_ASSOCIATE \<and> lm_status_or_reason meta = 0"
  define w' where "w' = rs_step (RAssociated ok) w"
  have "link_gap other rops w = link_gap other rops w'" by (simp add: link_gap_def w'_def fun_eq_iff)
  then have "lk_enqueue_with_admission ready meta f1 f2 (snd \<circ> cr_close_admission) (link_gap other rops w') (q, rs_route w') = (queued, q', r')"
    using assms by (simp add: lk_enqueue_initial_association_def w'_def ok_def)
  then obtain ops where "r' = rs_route (fold rs_step ops w')" using with_admission_route by blast
  then have "r' = rs_route (fold rs_step (RAssociated ok # ops) w)" by (simp add: w'_def)
  then show ?thesis using route_dropsI [of "RAssociated ok # ops" w] by (simp del: fold.simps)
qed

text \<open>What runs just before the publication of an event that is not a success finds the queue as it was and the route
  closed.\<close>

definition same_when_closed ::
  "rsys \<Rightarrow> link_item squeue \<Rightarrow> (link_item squeue \<times> route \<Rightarrow> 'a) \<Rightarrow> (link_item squeue \<times> route \<Rightarrow> 'a) \<Rightarrow> bool" where
  "same_when_closed w q before1 before2 \<longleftrightarrow> (\<forall>r. route_drops (rs_route w) r \<longrightarrow> before1 (q, r) = before2 (q, r))"

lemma with_admission_before:
  assumes "same_when_closed w q before1 before2"
    and "lm_kind meta = LINK_EVENT_DISCONNECT \<or> lm_status_or_reason meta \<noteq> 0"
  shows "lk_enqueue_with_admission ready meta f1 f2 (snd \<circ> cr_close_admission) before1 (q, rs_route w)
     = lk_enqueue_with_admission ready meta f1 f2 (snd \<circ> cr_close_admission) before2 (q, rs_route w)"
proof -
  have "route_drops (rs_route w) (snd (cr_close_admission (rs_route w)))"
    using route_dropsI [of "[RClose]" w] by simp
  with assms show ?thesis
    by (simp add: with_admission_cases same_when_closed_def)
qed

lemma initial_association_before:
  assumes "same_when_closed w q before1 before2"
    and "lm_kind meta = LINK_EVENT_DISCONNECT \<or> lm_status_or_reason meta \<noteq> 0"
  shows "lk_enqueue_initial_association ready meta f1 f2 before1 (q, rs_route w)
     = lk_enqueue_initial_association ready meta f1 f2 before2 (q, rs_route w)"
proof -
  have "route_drops (rs_route w) (snd (cr_close_admission (snd (cr_initial_association_result ok (rs_route w)))))" for ok
    using route_dropsI [of "[RAssociated ok, RClose]" w] by simp
  with assms show ?thesis
    by (simp add: lk_enqueue_initial_association_def with_admission_cases same_when_closed_def)
qed

lemma disconnect_before_publication:
  assumes "same_when_closed w (nh_link s) before1 before2"
  shows "enqueue_disconnect before1 reason ies (nh_set_route (rs_route w) s)
     = enqueue_disconnect before2 reason ies (nh_set_route (rs_route w) s)"
  by (simp add: enqueue_disconnect_def on_link_def with_admission_before [OF assms])

lemma associate_before_publication:
  assumes "same_when_closed w (nh_link s) before1 before2"
  shows "status \<noteq> 0 \<longrightarrow>
     enqueue_associate_result initial now_ms before1 status frequency bssid request response (nh_set_route (rs_route w) s)
   = enqueue_associate_result initial now_ms before2 status frequency bssid request response (nh_set_route (rs_route w) s)"
proof
  assume "status \<noteq> 0"
  then have "lm_kind (fst (associate_meta status frequency bssid request response)) = LINK_EVENT_DISCONNECT
      \<or> lm_status_or_reason (fst (associate_meta status frequency bssid request response)) \<noteq> 0"
    using associate_meta_success by blast
  note eqs = with_admission_before [OF assms this] initial_association_before [OF assms this]
  show "enqueue_associate_result initial now_ms before1 status frequency bssid request response (nh_set_route (rs_route w) s)
   = enqueue_associate_result initial now_ms before2 status frequency bssid request response (nh_set_route (rs_route w) s)"
    by (simp add: enqueue_associate_result_def on_link_def case_prod_beta eqs)
qed

text \<open>The route after an event.\<close>

lemma associate_final_route:
  "let s0 = nh_set_route (rs_route w) s;
       assoc = enqueue_associate_result initial now_ms (link_gap other rops w) status frequency bssid request response s0
   in if \<not> initial \<and> nh_port s = PORT_READY \<and> status = 0 \<and> fst assoc
      then nh_route (snd assoc) = rs_route (fold rs_step rops w)
      else route_drops (rs_route w) (nh_route (snd assoc))"
proof -
  define s0 where "s0 = nh_set_route (rs_route w) s"
  define m where "m = associate_meta status frequency bssid request response"
  let ?assoc = "enqueue_associate_result initial now_ms (link_gap other rops w) status frequency bssid request response s0"
  have closed: "route_drops (rs_route w) (snd (cr_close_admission (rs_route w)))"
    using route_dropsI [of "[RClose]" w] by simp
  have "if \<not> initial \<and> nh_port s = PORT_READY \<and> status = 0 \<and> fst ?assoc
       then nh_route (snd ?assoc) = rs_route (fold rs_step rops w)
       else route_drops (rs_route w) (nh_route (snd ?assoc))"
  proof (cases "nh_port s = PORT_READY")
    case True
    obtain queued q' r' where call: "(if initial then lk_enqueue_initial_association True (fst m) (fst (snd m)) (snd (snd m)) (link_gap other rops w)
        else lk_enqueue_with_admission True (fst m) (fst (snd m)) (snd (snd m)) (snd \<circ> cr_close_admission) (link_gap other rops w))
          (nh_link s, rs_route w) = (queued, q', r')" by (cases rule: prod_cases3)
    have res: "fst ?assoc = queued \<and> nh_route (snd ?assoc) = r'"
      using True call by (auto simp: enqueue_associate_result_def s0_def m_def [symmetric] case_prod_beta on_link_def ap_observe_def)
    show ?thesis
    proof (cases initial)
      case init: True
      have "route_drops (rs_route w) r'"
        by (rule initial_association_route [of True "fst m" "fst (snd m)" "snd (snd m)" other rops w "nh_link s" queued q'])
          (use call init in simp)
      then show ?thesis using res init by simp
    next
      case False
      have "lk_enqueue_with_admission True (fst m) (fst (snd m)) (snd (snd m)) (snd \<circ> cr_close_admission)
          (link_gap other rops w) (nh_link s, rs_route w) = (queued, q', r')" using call False by simp
      from with_admission_route [OF this] obtain ops where "r' = rs_route (fold rs_step ops w)"
        "if lm_kind (fst m) \<noteq> LINK_EVENT_DISCONNECT \<and> lm_status_or_reason (fst m) = 0 \<and> queued
         then ops = rops else (\<exists>a \<in> set ops. closes a)"
        by auto
      then show ?thesis
        using res False True associate_meta_success [of status frequency bssid request response] route_dropsI [of ops w]
        by (auto simp: m_def split: if_splits)
    qed
  next
    case False
    then show ?thesis using closed by (simp add: enqueue_associate_result_def close_native_link_admission_def s0_def)
  qed
  then show ?thesis unfolding s0_def [symmetric] Let_def .
qed

lemma disconnect_final_route:
  "route_drops (rs_route w) (nh_route (snd (enqueue_disconnect (link_gap other rops w) reason ies (nh_set_route (rs_route w) s))))"
proof -
  obtain queued q' r' where call: "lk_enqueue_with_admission (nh_port s = PORT_READY)
       \<lparr> lm_kind = LINK_EVENT_DISCONNECT, lm_status_or_reason = reason, lm_frequency_mhz = 0, lm_bssid = replicate 6 0,
         lm_first_len = length ies, lm_second_len = 0 \<rparr> ies [] (snd \<circ> cr_close_admission) (link_gap other rops w)
       (nh_link s, rs_route w) = (queued, q', r')" by (cases rule: prod_cases3)
  have "route_drops (rs_route w) r'" using with_admission_route [OF call] route_dropsI by auto
  moreover have "nh_route (snd (enqueue_disconnect (link_gap other rops w) reason ies (nh_set_route (rs_route w) s))) = r'"
    using call by (simp add: enqueue_disconnect_def on_link_def)
  ultimately show ?thesis by simp
qed

section \<open>Properties\<close>

text \<open>C19: a scan transaction that begins with an empty queue always delivers its end: whatever results the vendor
  reports and however the runner takes events meanwhile, the done event finds a free slot.  Of the well-formed results
  exactly the first 32 are queued, each is taken once or still waits, the others are counted as truncated, and only
  malformed results are counted as dropped.\<close>

theorem scan_done_delivered:
  assumes "\<not> sq_has_pending (sc_queue q)" "length (sq_slots (sc_queue q)) = SCAN_EVENT_QUEUE_DEPTH"
  shows "let s = fold (zs_step max_ie) ops (zs_begin q); good = filter (sc_well_formed max_ie) (zs_results ops);
             last = sc_enqueue_done status (zs_queue s)
    in fst last
      \<and> mset (zs_taken s) + mset (sq_ready (sc_queue (zs_queue s))) = mset (take MAX_SCAN_RESULTS good)
      \<and> sq_dropped (sc_queue (snd last)) = sq_dropped (sc_queue q) + of_nat (length (zs_results ops) - length good)
      \<and> sc_truncated (snd last) = sc_truncated q + of_nat (length good - MAX_SCAN_RESULTS)"
proof -
  define s where "s = fold (zs_step max_ie) ops (zs_begin q)"
  have ok: "zs_ok max_ie q (zs_results ops) s"
    using zs_run [OF zs_ok_begin [OF assms], of max_ie ops] by (simp add: s_def)
  have "busy (sc_queue (zs_queue s)) < length (sq_slots (sc_queue (zs_queue s)))"
    using ok by (auto simp: zs_ok_def Let_def MAX_SCAN_RESULTS_def SCAN_EVENT_QUEUE_DEPTH_def)
  then show ?thesis
    using ok unfolding s_def [symmetric] Let_def
    by (elim sq_enqueue_free [of _ "scan_done_item status"])
      (auto simp: zs_ok_def Let_def sc_enqueue_done_def sc_on_queue_def)
qed

definition demo_result :: scan_item where
  "demo_result = ((fst (scan_done_item 0))\<lparr> sm_kind := SCAN_EVENT_RESULT, sm_ie_len := 2 \<rparr>, [0, 0])"

theorem scan_done_delivered_witness:
  "fst (sc_enqueue_done 0 (zs_queue (fold (zs_step 1024) (replicate 40 (ZResult demo_result)) (zs_begin sc_new))))
    \<and> sc_truncated (snd (sc_enqueue_done 0 (zs_queue (fold (zs_step 1024) (replicate 40 (ZResult demo_result)) (zs_begin sc_new))))) = 8"
proof -
  have e: "\<not> sq_has_pending (sc_queue sc_new)" "length (sq_slots (sc_queue sc_new)) = SCAN_EVENT_QUEUE_DEPTH"
    by (simp_all add: sc_new_def sq_new_def sq_has_pending_def sl_new_def list_ex_iff)
  have "zs_results (replicate n (ZResult demo_result)) = replicate n demo_result" for n by (induction n) simp_all
  moreover have "sc_well_formed 1024 demo_result"
    by (simp add: sc_well_formed_def demo_result_def scan_done_item_def usz_sat_def)
  ultimately show ?thesis
    using scan_done_delivered [OF e, of 1024 "replicate 40 (ZResult demo_result)" 0]
    by (simp only: Let_def filter_replicate length_replicate if_True) (simp add: sc_new_def MAX_SCAN_RESULTS_def)
qed


text \<open>Another context that spoils the queue, but only while the route still admits the old buffers.\<close>

definition demo_before :: "link_item squeue \<times> route \<Rightarrow> link_item squeue \<times> route" where
  "demo_before s = (if route_drops (rs_route rs_new) (snd s) then s else (sq_new 0, snd s))"


text \<open>C21: cancelling a scan capture empties the queue only when no callback is copying a result: then no ready event
  is left.  While a slot is being written it discards nothing at all, so that the events of the cancelled scan reach the
  next one.\<close>

theorem scan_cancel_exact:
  "let q = sc_queue (nh_scan s); s' = cancel_scan_cache_capture s; q' = sc_queue (nh_scan s')
   in \<not> nh_scan_active s'
     \<and> (if list_ex (\<lambda>sl. sl_state sl = SlotWriting) (sq_slots q) then q' = q
        else list_all (\<lambda>sl. sl_state sl \<noteq> SlotReady) (sq_slots q') \<and> sq_dropped q' = sq_dropped q)"
  by (simp add: cancel_scan_cache_capture_def Let_def sq_discard_writing sq_discard_clean)

end
