(* ===== verification/Supplicant.thy ===== *)
theory Supplicant
  imports Events
begin

text \<open>
  The owner of the native supplicant (\<open>NativeSupplicant\<close> in \<open>src/src/upstream_supplicant.rs\<close>): the bounded poll that
  feeds queued events to hostap, the EAPOL receive path, the repetition of an external authentication status, scan
  capture, and the installation of the port.

  The hostap context and the vendor's ioctls are functions of the context and the shared statics.  They may call the
  driver hooks and be interrupted by callbacks, so what they do to the statics is arbitrary.  Budgets that only count
  down are naturals.  \<open>None\<close> means that a native disconnect did not return.
\<close>

section \<open>Errors and state\<close>

datatype nsup_error =
    InvalidContextLayout
  | AllocationFailed
  | CreateFailed
  | InitializeFailed i32
  | EnableEapolFailed i32
  | FeedMgmtFailed i32
  | BeginScanCaptureFailed i32
  | MgmtQueueOverflow u32
  | FeedScanFailed i32
  | ScanQueueOverflow u32
  | FeedLinkFailed i32
  | LinkQueueOverflow u32
  | FeedExternalAuthFailed i32
  | ExternalAuthQueueOverflow u32
  | FeedEapolFailed i32
  | ConfigureFailed i32
  | ConnectFailed i32
  | DisconnectFailed i32
  | InvalidResult
  | PollFailed i32

record native_poll_result =
  nr_status :: i32
  nr_work_completed :: u32
  nr_output_pending :: u32
  nr_next_deadline_ms :: u64

record native_event =
  ev_abi_version :: u16
  ev_kind :: u16
  ev_status :: i32
  ev_data_len :: u32

record 'c psys =
  ps_context :: 'c
  ps_shared :: nshared
  ps_mgmt_seen :: u32
  ps_scan_seen :: u32
  ps_link_seen :: u32
  ps_auth_seen :: u32
  ps_fallback :: u16
  ps_status_sequence :: u32
  ps_retry_deadline :: u64
  ps_retry_pending :: bool
  ps_receipt :: dreceipt_state

text \<open>The hostap context and the ioctls.\<close>

record 'c nport =
  np_feed_scan_result :: "scan_meta \<Rightarrow> u8 list \<Rightarrow> 'c \<times> nshared \<Rightarrow> i32 \<times> 'c \<times> nshared"
  np_feed_scan_done :: "i32 \<Rightarrow> 'c \<times> nshared \<Rightarrow> i32 \<times> 'c \<times> nshared"
  np_feed_associate :: "link_meta \<Rightarrow> u8 list \<Rightarrow> u8 list \<Rightarrow> 'c \<times> nshared \<Rightarrow> i32 \<times> 'c \<times> nshared"
  np_feed_disconnect :: "u16 \<Rightarrow> u8 list \<Rightarrow> 'c \<times> nshared \<Rightarrow> i32 \<times> 'c \<times> nshared"
  np_feed_external_auth :: "external_auth_event \<Rightarrow> 'c \<times> nshared \<Rightarrow> i32 \<times> 'c \<times> nshared"
  np_feed_mgmt :: "u32 \<Rightarrow> i32 \<Rightarrow> u8 list \<Rightarrow> 'c \<times> nshared \<Rightarrow> i32 \<times> 'c \<times> nshared"
  np_receive_eapol :: "'c \<times> nshared \<Rightarrow> (i32 \<times> u8 list \<times> u32) \<times> 'c \<times> nshared"
  np_feed_eapol :: "u8 list \<Rightarrow> u8 list \<Rightarrow> 'c \<times> nshared \<Rightarrow> i32 \<times> 'c \<times> nshared"
  np_send_auth_status :: "auth_cache \<Rightarrow> 'c \<times> nshared \<Rightarrow> i32 \<times> 'c \<times> nshared"
  np_poll :: "u64 \<Rightarrow> u32 \<Rightarrow> 'c \<times> nshared \<Rightarrow> native_poll_result \<times> 'c \<times> nshared"
  np_next_event :: "'c \<times> nshared \<Rightarrow> (i32 \<times> native_event) \<times> 'c \<times> nshared"
  np_begin_scan_capture :: "'c \<times> nshared \<Rightarrow> i32 \<times> 'c \<times> nshared"
  np_connect :: "'c \<times> nshared \<Rightarrow> i32 \<times> 'c \<times> nshared"
  np_env :: denv
  np_wake :: "dsys \<Rightarrow> bool \<times> dsys"

definition native :: "('c \<times> nshared \<Rightarrow> 'r \<times> 'c \<times> nshared) \<Rightarrow> 'c psys \<Rightarrow> 'r \<times> 'c psys" where
  "native f s = (case f (ps_context s, ps_shared s) of (r, c, sh) \<Rightarrow> (r, s\<lparr> ps_context := c, ps_shared := sh \<rparr>))"

definition on_shared :: "(nshared \<Rightarrow> nshared) \<Rightarrow> 'c psys \<Rightarrow> 'c psys" where
  "on_shared f s = s\<lparr> ps_shared := f (ps_shared s) \<rparr>"

definition checked :: "(i32 \<Rightarrow> nsup_error) \<Rightarrow> i32 \<times> 'c psys \<Rightarrow> (nsup_error + unit) \<times> 'c psys" where
  "checked e r = (if fst r \<noteq> 0 then Inl (e (fst r)) else Inr (), snd r)"

section \<open>Disconnect receipts\<close>

definition ps_disconnect_returned :: "'c psys \<Rightarrow> (nsup_error + bool) \<times> 'c psys" where
  "ps_disconnect_returned s =
     (case disconnect_ioctls_returned (ps_receipt s) (ds_queue (nh_native (ps_shared s))) of
        (Inl e, rc) \<Rightarrow> (Inl (DisconnectFailed e), s\<lparr> ps_receipt := rc \<rparr>)
      | (Inr b, rc) \<Rightarrow> (Inr b, s\<lparr> ps_receipt := rc \<rparr>))"

definition ps_require_returned :: "'c psys \<Rightarrow> (nsup_error + unit) \<times> 'c psys" where
  "ps_require_returned s =
     (case require_disconnect_returned (ps_receipt s) (ds_queue (nh_native (ps_shared s))) of
        (Inl e, rc) \<Rightarrow> (Inl (DisconnectFailed e), s\<lparr> ps_receipt := rc \<rparr>)
      | (Inr _, rc) \<Rightarrow> (Inr (), s\<lparr> ps_receipt := rc \<rparr>))"

definition ps_connect :: "'c nport \<Rightarrow> 'c psys \<Rightarrow> (nsup_error + unit) \<times> 'c psys" where
  "ps_connect P s =
     (case ps_require_returned s of
        (Inl e, s1) \<Rightarrow> (Inl e, s1)
      | (Inr _, s1) \<Rightarrow> checked ConnectFailed (native (np_connect P) s1))"

section \<open>Scan capture\<close>

definition begin_scan_cache_capture :: "'c nport \<Rightarrow> 'c psys \<Rightarrow> (nsup_error + unit) \<times> 'c psys" where
  "begin_scan_cache_capture P s =
     (case ps_require_returned s of
        (Inl e, s1) \<Rightarrow> (Inl e, s1)
      | (Inr _, s1) \<Rightarrow>
          if nh_port (ps_shared s1) \<noteq> PORT_READY \<or> nh_scan_active (ps_shared s1) then (Inl InvalidResult, s1)
          else
            (case native (np_begin_scan_capture P) (on_shared (\<lambda>h. h\<lparr> nh_scan_active := True \<rparr>) s1) of
               (status, s2) \<Rightarrow>
                 if status \<noteq> 0
                 then (Inl (BeginScanCaptureFailed status), on_shared (\<lambda>h. h\<lparr> nh_scan_active := False \<rparr>) s2)
                 else (Inr (), on_shared (\<lambda>h. h\<lparr> nh_scan := sc_begin_transaction (nh_scan h) \<rparr>) s2)))"

section \<open>Feeding queued events\<close>

text \<open>One queue of the poll: while budget is left, take the oldest event, feed it, and free its slot, also when the
  feed fails.\<close>

fun feed_queue ::
  "(nshared \<Rightarrow> 'a squeue) \<Rightarrow> (('a squeue \<Rightarrow> 'a squeue) \<Rightarrow> nshared \<Rightarrow> nshared)
     \<Rightarrow> ('a \<Rightarrow> 'c psys \<Rightarrow> ((nsup_error + unit) \<times> 'c psys) option) \<Rightarrow> nat \<Rightarrow> 'c psys
     \<Rightarrow> ((nsup_error + nat) \<times> 'c psys) option" where
  "feed_queue get put feed 0 s = Some (Inr 0, s)"
| "feed_queue get put feed (Suc n) s =
     (case sq_take (get (ps_shared s)) of
        (None, _) \<Rightarrow> Some (Inr (Suc n), s)
      | (Some i, q) \<Rightarrow>
          (case feed (the (sl_item (sq_slots q ! i))) (on_shared (put (\<lambda>_. q)) s) of
             None \<Rightarrow> None
           | Some (Inl e, s1) \<Rightarrow> Some (Inl e, on_shared (put (sq_release i)) s1)
           | Some (Inr _, s1) \<Rightarrow> feed_queue get put feed n (on_shared (put (sq_release i)) s1)))"

definition put_scan :: "(scan_item squeue \<Rightarrow> scan_item squeue) \<Rightarrow> nshared \<Rightarrow> nshared" where
  "put_scan f h = h\<lparr> nh_scan := (nh_scan h)\<lparr> sc_queue := f (sc_queue (nh_scan h)) \<rparr> \<rparr>"

definition put_link :: "(link_item squeue \<Rightarrow> link_item squeue) \<Rightarrow> nshared \<Rightarrow> nshared" where
  "put_link f h = h\<lparr> nh_link := f (nh_link h) \<rparr>"

definition put_auth :: "(external_auth_event squeue \<Rightarrow> external_auth_event squeue) \<Rightarrow> nshared \<Rightarrow> nshared" where
  "put_auth f h = h\<lparr> nh_auth := f (nh_auth h) \<rparr>"

definition put_mgmt :: "(mgmt_item squeue \<Rightarrow> mgmt_item squeue) \<Rightarrow> nshared \<Rightarrow> nshared" where
  "put_mgmt f h = h\<lparr> nh_mgmt := f (nh_mgmt h) \<rparr>"

definition feed_scan :: "'c nport \<Rightarrow> scan_item \<Rightarrow> 'c psys \<Rightarrow> ((nsup_error + unit) \<times> 'c psys) option" where
  "feed_scan P item s = Some
     (if sm_kind (fst item) = SCAN_EVENT_RESULT
      then checked FeedScanFailed (native (np_feed_scan_result P (fst item) (scan_ies item)) s)
      else if sm_kind (fst item) = SCAN_EVENT_DONE
      then checked FeedScanFailed (native (np_feed_scan_done P (sm_status (fst item))) s)
      else (Inl InvalidResult, s))"

definition EAPOL_FALLBACK_POLL_WINDOW :: u16 where "EAPOL_FALLBACK_POLL_WINDOW = 2000"
definition WLAN_REASON_PREV_AUTH_NOT_VALID :: u16 where "WLAN_REASON_PREV_AUTH_NOT_VALID = 2"

text \<open>A temporary reject clears the vendor's station state before hostap hears of it.\<close>

definition clear_stale_state :: "'c nport \<Rightarrow> u16 \<Rightarrow> 'c psys \<Rightarrow> ((nsup_error + unit) \<times> 'c psys) option" where
  "clear_stale_state P raw s =
     (if \<not> vendor_result_requires_stale_state_clear raw then Some (Inr (), s)
      else
        (case disconnect_inline (np_env P) (np_wake P) WLAN_REASON_PREV_AUTH_NOT_VALID (nh_native (ps_shared s)) of
           None \<Rightarrow> None
         | Some (status, _, d) \<Rightarrow> Some (checked DisconnectFailed (status, on_shared (\<lambda>h. h\<lparr> nh_native := d \<rparr>) s))))"

definition feed_link :: "'c nport \<Rightarrow> link_item \<Rightarrow> 'c psys \<Rightarrow> ((nsup_error + unit) \<times> 'c psys) option" where
  "feed_link P item s =
     (let meta = fst item
      in if lm_kind meta = LINK_EVENT_ASSOCIATE
         then (case native (np_feed_associate P meta (link_first item) (link_second item)) s of
                 (status, s1) \<Rightarrow>
                   Some (checked FeedLinkFailed
                     (status, if status = 0 \<and> lm_status_or_reason meta = 0
                              then s1\<lparr> ps_fallback := EAPOL_FALLBACK_POLL_WINDOW \<rparr> else s1)))
         else if lm_kind meta = LINK_EVENT_DISCONNECT
         then (case clear_stale_state P (lm_status_or_reason meta) s of
                 None \<Rightarrow> None
               | Some (Inl e, s1) \<Rightarrow> Some (Inl e, s1)
               | Some (Inr _, s1) \<Rightarrow>
                   Some (checked FeedLinkFailed
                     (native (np_feed_disconnect P (lm_status_or_reason meta) (link_first item)) s1)))
         else Some (Inl InvalidResult, s))"

definition feed_external_auth :: "'c nport \<Rightarrow> external_auth_event \<Rightarrow> 'c psys \<Rightarrow> ((nsup_error + unit) \<times> 'c psys) option" where
  "feed_external_auth P event s = Some (checked FeedExternalAuthFailed (native (np_feed_external_auth P event) s))"

definition feed_mgmt :: "'c nport \<Rightarrow> mgmt_item \<Rightarrow> 'c psys \<Rightarrow> ((nsup_error + unit) \<times> 'c psys) option" where
  "feed_mgmt P item s = Some (checked FeedMgmtFailed
     (native (np_feed_mgmt P (mm_frequency_mhz (fst item)) (mm_rssi_dbm (fst item)) (mgmt_bytes item)) s))"

definition poll_scan :: "'c nport \<Rightarrow> nat \<Rightarrow> 'c psys \<Rightarrow> ((nsup_error + nat) \<times> 'c psys) option" where
  "poll_scan P = feed_queue (\<lambda>h. sc_queue (nh_scan h)) put_scan (feed_scan P)"

definition poll_link :: "'c nport \<Rightarrow> nat \<Rightarrow> 'c psys \<Rightarrow> ((nsup_error + nat) \<times> 'c psys) option" where
  "poll_link P = feed_queue nh_link put_link (feed_link P)"

definition poll_auth :: "'c nport \<Rightarrow> nat \<Rightarrow> 'c psys \<Rightarrow> ((nsup_error + nat) \<times> 'c psys) option" where
  "poll_auth P = feed_queue nh_auth put_auth (feed_external_auth P)"

definition poll_mgmt :: "'c nport \<Rightarrow> nat \<Rightarrow> 'c psys \<Rightarrow> ((nsup_error + nat) \<times> 'c psys) option" where
  "poll_mgmt P = feed_queue nh_mgmt put_mgmt (feed_mgmt P)"

section \<open>EAPOL\<close>

definition ETHERNET_HEADER_LEN :: nat where "ETHERNET_HEADER_LEN = 14"
definition EAPOL_ETHERTYPE :: "u8 list" where "EAPOL_ETHERTYPE = [0x88, 0x8e]"
definition MAX_EAPOL_RX_FRAME_LEN :: nat where "MAX_EAPOL_RX_FRAME_LEN = 800"

definition classify_eapol_receive :: "i32 \<Rightarrow> i32 + bool" where
  "classify_eapol_receive status = (if status = 0 then Inr True else if status = 0xffff then Inr False else Inl status)"

definition claim_eapol_notification :: "nat \<Rightarrow> 'c psys \<Rightarrow> bool \<times> 'c psys" where
  "claim_eapol_notification rx_budget s =
     (nh_eapol_pending (ps_shared s),
      if rx_budget = 0 then s else on_shared (\<lambda>h. h\<lparr> nh_eapol_pending := False \<rparr>) s)"

text \<open>The buffer of the ioctl has \<open>MAX_EAPOL_RX_FRAME_LEN\<close> bytes.\<close>

definition eapol_valid :: "u8 list \<Rightarrow> nat \<Rightarrow> bool" where
  "eapol_valid frame len \<longleftrightarrow> ETHERNET_HEADER_LEN < len \<and> len \<le> MAX_EAPOL_RX_FRAME_LEN \<and> take 2 (drop 12 frame) = EAPOL_ETHERTYPE"

fun drain_eapol_loop :: "'c nport \<Rightarrow> nat \<Rightarrow> 'c psys \<Rightarrow> (nsup_error + nat) \<times> 'c psys" where
  "drain_eapol_loop P 0 s = (Inr 0, s)"
| "drain_eapol_loop P (Suc n) s =
     (case native (np_receive_eapol P) s of
        ((status, frame, len), s1) \<Rightarrow>
          (case classify_eapol_receive status of
             Inl e \<Rightarrow> (Inl (FeedEapolFailed e), s1)
           | Inr False \<Rightarrow> (Inr (Suc n), s1)
           | Inr True \<Rightarrow>
               if \<not> eapol_valid frame (unat len) then (Inl InvalidResult, s1)
               else
                 (case native (np_feed_eapol P (take 6 (drop 6 frame))
                         (take (unat len - ETHERNET_HEADER_LEN) (drop ETHERNET_HEADER_LEN frame))) s1 of
                    (fed, s2) \<Rightarrow> if fed \<noteq> 0 then (Inl (FeedEapolFailed fed), s2) else drain_eapol_loop P n s2)))"

definition drain_eapol :: "'c nport \<Rightarrow> nat \<Rightarrow> 'c psys \<Rightarrow> (nsup_error + nat) \<times> 'c psys" where
  "drain_eapol P rx_budget s =
     (case drain_eapol_loop P rx_budget s of
        (Inl e, s1) \<Rightarrow> (Inl e, s1)
      | (Inr n, s1) \<Rightarrow> (Inr n, if n = 0 then on_shared (\<lambda>h. h\<lparr> nh_eapol_pending := True \<rparr>) s1 else s1))"

definition poll_eapol :: "'c nport \<Rightarrow> nat \<Rightarrow> 'c psys \<Rightarrow> (nsup_error + nat) \<times> 'c psys" where
  "poll_eapol P rx_budget s =
     (case claim_eapol_notification rx_budget s of
        (notified, s1) \<Rightarrow>
          let fallback = (\<not> notified \<and> ps_fallback s1 \<noteq> 0)
          in if rx_budget \<noteq> 0 \<and> (notified \<or> fallback)
             then drain_eapol P rx_budget (if fallback then s1\<lparr> ps_fallback := ps_fallback s1 - 1 \<rparr> else s1)
             else (Inr rx_budget, s1))"

definition input_pending :: "'c psys \<Rightarrow> bool" where
  "input_pending s \<longleftrightarrow> nh_eapol_pending (ps_shared s) \<or> ps_fallback s \<noteq> 0"

section \<open>Repeating an external authentication status\<close>

definition event_sequence_after :: "u32 \<Rightarrow> u32 \<Rightarrow> bool" where
  "event_sequence_after candidate reference \<longleftrightarrow> candidate - reference \<noteq> 0 \<and> candidate - reference < 0x80000000"

definition RETRY_DELAY_MS :: u64 where "RETRY_DELAY_MS = 1000"

definition send_cached_external_auth_status :: "'c nport \<Rightarrow> 'c psys \<Rightarrow> i32 \<times> 'c psys" where
  "send_cached_external_auth_status P s =
     (case nh_auth_cache (ps_shared s) of
        None \<Rightarrow> (- 1, s)
      | Some cached \<Rightarrow> native (np_send_auth_status P cached) s)"

definition retry_observe :: "u64 \<Rightarrow> 'c psys \<Rightarrow> 'c psys" where
  "retry_observe now_ms s =
     (let sent = ap_sequence (nh_status_sent (ps_shared s)); assoc = ap_sequence (nh_association_event (ps_shared s));
          s1 = (if sent \<noteq> 0 \<and> sent \<noteq> ps_status_sequence s
                then s\<lparr> ps_status_sequence := sent, ps_retry_deadline := sat_add now_ms RETRY_DELAY_MS,
                        ps_retry_pending := \<not> event_sequence_after assoc sent \<rparr>
                else s)
      in if ps_retry_pending s1 \<and> event_sequence_after assoc (ps_status_sequence s1)
         then s1\<lparr> ps_retry_pending := False \<rparr> else s1)"

definition service_external_auth_status_retry :: "'c nport \<Rightarrow> u64 \<Rightarrow> 'c psys \<Rightarrow> (nsup_error + u64 option) \<times> 'c psys" where
  "service_external_auth_status_retry P now_ms s =
     (let s1 = retry_observe now_ms s
      in if \<not> ps_retry_pending s1 then (Inr None, s1)
         else if now_ms < ps_retry_deadline s1 then (Inr (Some (ps_retry_deadline s1)), s1)
         else
           (case send_cached_external_auth_status P (s1\<lparr> ps_retry_pending := False \<rparr>) of
              (status, s2) \<Rightarrow>
                (if status \<noteq> 0 then Inl (ConnectFailed status) else Inr None,
                 on_shared (\<lambda>h. h\<lparr> nh_status_retries := nh_status_retries h + 1, nh_retry_status := word_of_int status \<rparr>) s2)))"

definition external_auth_retry_stalled :: "'c psys \<Rightarrow> bool" where
  "external_auth_retry_stalled s \<longleftrightarrow>
     ps_status_sequence s \<noteq> 0 \<and> \<not> ps_retry_pending s \<and> nh_status_retries (ps_shared s) \<noteq> 0
     \<and> nh_retry_status (ps_shared s) = 0
     \<and> \<not> event_sequence_after (ap_sequence (nh_association_event (ps_shared s))) (ps_status_sequence s)"

section \<open>The poll\<close>

definition account_poll_work :: "u32 \<Rightarrow> u32 \<Rightarrow> native_poll_result \<Rightarrow> native_poll_result" where
  "account_poll_work rx_grant rx_remaining r =
     r\<lparr> nr_work_completed := sat_add (nr_work_completed r) (sat_sub rx_grant rx_remaining) \<rparr>"

definition idle_result :: native_poll_result where
  "idle_result = \<lparr> nr_status = 0, nr_work_completed = 0, nr_output_pending = 0, nr_next_deadline_ms = - 1 \<rparr>"

text \<open>The first queue with events that were dropped since the last look.\<close>

definition poll_overflow :: "'c psys \<Rightarrow> (nsup_error \<times> 'c psys) option" where
  "poll_overflow s =
     (let h = ps_shared s; m = sq_dropped (nh_mgmt h); z = sq_dropped (sc_queue (nh_scan h));
          l = sq_dropped (nh_link h); a = sq_dropped (nh_auth h)
      in if m \<noteq> ps_mgmt_seen s then Some (MgmtQueueOverflow (m - ps_mgmt_seen s), s\<lparr> ps_mgmt_seen := m \<rparr>)
         else if z \<noteq> ps_scan_seen s then Some (ScanQueueOverflow (z - ps_scan_seen s), s\<lparr> ps_scan_seen := z \<rparr>)
         else if l \<noteq> ps_link_seen s then Some (LinkQueueOverflow (l - ps_link_seen s), s\<lparr> ps_link_seen := l \<rparr>)
         else if a \<noteq> ps_auth_seen s then Some (ExternalAuthQueueOverflow (a - ps_auth_seen s), s\<lparr> ps_auth_seen := a \<rparr>)
         else None)"

text \<open>Sequencing of the parts, with the budget they leave.\<close>

definition then_poll ::
  "((nsup_error + nat) \<times> 'c psys) option \<Rightarrow> (nat \<Rightarrow> 'c psys \<Rightarrow> ((nsup_error + nat) \<times> 'c psys) option)
     \<Rightarrow> ((nsup_error + nat) \<times> 'c psys) option" where
  "then_poll r f =
     (case r of None \<Rightarrow> None | Some (Inl e, s) \<Rightarrow> Some (Inl e, s) | Some (Inr n, s) \<Rightarrow> f n s)"

definition poll_feeds :: "'c nport \<Rightarrow> nat \<Rightarrow> 'c psys \<Rightarrow> ((nsup_error + nat) \<times> 'c psys) option" where
  "poll_feeds P rx_grant s =
     then_poll (then_poll (then_poll (then_poll (poll_scan P rx_grant s) (poll_link P)) (poll_auth P)) (poll_mgmt P))
       (\<lambda>n s. Some (poll_eapol P n s))"

text \<open>The eloop turn with the rest of the budget, between two looks at the status repetition.\<close>

definition poll_finish :: "'c nport \<Rightarrow> u64 \<Rightarrow> u64 \<Rightarrow> u32 \<Rightarrow> nat \<Rightarrow> 'c psys \<Rightarrow> (nsup_error + native_poll_result) \<times> 'c psys" where
  "poll_finish P now1 now2 rx_grant rx_budget s =
     (case service_external_auth_status_retry P now1 s of
        (Inl e, s1) \<Rightarrow> (Inl e, s1)
      | (Inr _, s1) \<Rightarrow>
          (case native (np_poll P now1 (of_nat (max rx_budget 1))) s1 of
             (r, s2) \<Rightarrow>
               (case service_external_auth_status_retry P now2 s2 of
                  (Inl e, s3) \<Rightarrow> (Inl e, s3)
                | (Inr deadline, s3) \<Rightarrow>
                    let r1 = (case deadline of None \<Rightarrow> r | Some d \<Rightarrow> r\<lparr> nr_next_deadline_ms := min (nr_next_deadline_ms r) d \<rparr>);
                        r2 = account_poll_work rx_grant (of_nat rx_budget) r1
                    in if nr_status r2 \<noteq> 0 then (Inl (PollFailed (nr_status r2)), s3) else (Inr r2, s3))))"

definition supplicant_poll :: "'c nport \<Rightarrow> u64 \<Rightarrow> u64 \<Rightarrow> u32 \<Rightarrow> 'c psys \<Rightarrow> ((nsup_error + native_poll_result) \<times> 'c psys) option" where
  "supplicant_poll P now1 now2 work_budget s =
     (case ps_disconnect_returned s of
        (Inl e, s1) \<Rightarrow> Some (Inl e, s1)
      | (Inr False, s1) \<Rightarrow> Some (Inr idle_result, s1)
      | (Inr True, s1) \<Rightarrow>
          (case poll_overflow s1 of
             Some (e, s2) \<Rightarrow> Some (Inl e, s2)
           | None \<Rightarrow>
               let rx_grant = sat_sub work_budget 1
               in (case poll_feeds P (unat rx_grant) s1 of
                     None \<Rightarrow> None
                   | Some (Inl e, s2) \<Rightarrow> Some (Inl e, s2)
                   | Some (Inr n, s2) \<Rightarrow> Some (poll_finish P now1 now2 rx_grant n s2))))"

definition supplicant_next_event ::
  "'c nport \<Rightarrow> u16 \<Rightarrow> nat \<Rightarrow> 'c psys \<Rightarrow> (nsup_error + native_event option) \<times> 'c psys" where
  "supplicant_next_event P abi capacity s =
     (case ps_disconnect_returned s of
        (Inl e, s1) \<Rightarrow> (Inl e, s1)
      | (Inr False, s1) \<Rightarrow> (Inr None, s1)
      | (Inr True, s1) \<Rightarrow>
          (case native (np_next_event P) s1 of
             ((code, event), s2) \<Rightarrow>
               (if code = 0 then Inr None
                else if code = 1
                  then (if ev_abi_version event \<noteq> abi \<or> capacity < unat (ev_data_len event) then Inl InvalidResult
                        else Inr (Some event))
                else Inl (PollFailed code), s2)))"

section \<open>Installing the port\<close>

datatype 'e port_error =
    Runtime 'e
  | InvalidInterfaceName
  | PortBusy
  | PortPoisoned
  | InterfaceConflict
  | PortAbi i32
  | PortRollback i32 i32

definition IFNAME_CAPACITY :: nat where "IFNAME_CAPACITY = 17"

record driver_context =
  dc_ifname :: "u8 list"
  dc_cookie :: u64

definition dc_initialize :: "u8 list \<Rightarrow> driver_context \<Rightarrow> driver_context option" where
  "dc_initialize ifname d =
     (if ifname = [] \<or> IFNAME_CAPACITY \<le> length ifname \<or> 0 \<in> set ifname then None
      else Some (d\<lparr> dc_ifname := pad IFNAME_CAPACITY ifname, dc_cookie := 0 \<rparr>))"

definition dc_matches :: "u8 list \<Rightarrow> driver_context \<Rightarrow> bool" where
  "dc_matches ifname d =
     (case position (\<lambda>b. b = 0) (dc_ifname d) of None \<Rightarrow> False | Some n \<Rightarrow> take n (dc_ifname d) = ifname)"

text \<open>What the installation calls answer: the semaphore, the worker's semaphore and task, and the two hook tables of
  the C boundary.\<close>

record 'e port_calls =
  pc_init :: "'e + unit"
  pc_already_installed :: 'e
  pc_worker_wake :: "'e + unit"
  pc_worker_task :: "'e + unit"
  pc_os_install :: i32
  pc_driver_install :: i32
  pc_os_uninstall :: i32

definition prepare_upstream_supplicant_port ::
  "'e port_calls \<Rightarrow> u8 list \<Rightarrow> nshared \<times> driver_context \<Rightarrow> ('e port_error + unit) \<times> nshared \<times> driver_context" where
  "prepare_upstream_supplicant_port C ifname w =
     (case w of
        (h, d) \<Rightarrow>
          (case pc_init C of
             Inl e \<Rightarrow> (Inl (Runtime e), h, d)
           | Inr _ \<Rightarrow>
               if nh_port h = PORT_READY then (if dc_matches ifname d then Inr () else Inl InterfaceConflict, h, d)
               else if nh_port h = PORT_INSTALLING then (Inl PortBusy, h, d)
               else if nh_port h \<noteq> PORT_FREE then (Inl PortPoisoned, h, d)
               else
                 (case dc_initialize ifname d of
                    None \<Rightarrow> (Inl InvalidInterfaceName, h\<lparr> nh_port := PORT_FREE \<rparr>, d)
                  | Some d1 \<Rightarrow>
                      (case start_deauth_worker (pc_already_installed C) (pc_worker_wake C) (pc_worker_task C) (nh_native h) of
                         (Inl e, n) \<Rightarrow> (Inl (Runtime e), h\<lparr> nh_port := PORT_POISONED, nh_native := n, nh_auth_cache := None \<rparr>, d1)
                       | (Inr _, n) \<Rightarrow>
                           let h1 = h\<lparr> nh_native := n, nh_auth_cache := None \<rparr>
                           in if pc_os_install C \<noteq> 0 then (Inl (PortAbi (pc_os_install C)), h1\<lparr> nh_port := PORT_FREE \<rparr>, d1)
                              else if pc_driver_install C = 0 then (Inr (), h1\<lparr> nh_port := PORT_READY \<rparr>, d1)
                              else if pc_os_uninstall C = 0
                                then (Inl (PortAbi (pc_driver_install C)), h1\<lparr> nh_port := PORT_FREE \<rparr>, d1)
                              else (Inl (PortRollback (pc_driver_install C) (pc_os_uninstall C)), h1\<lparr> nh_port := PORT_POISONED \<rparr>, d1)))))"

section \<open>Creating and dropping the owner\<close>

text \<open>What the allocator, the C boundary and the ioctl that enables EAPOL answer, and the calls that are made.\<close>

record 'c create_calls =
  cc_size :: nat
  cc_align :: nat
  cc_allocate :: bool
  cc_create :: "'c option"
  cc_init :: i32
  cc_enable :: i32

datatype owner_call = CallAllocate | CallCreate | CallInit | CallEnable | CallDisable | CallDestroy | CallFree

definition valid_context_layout :: "nat \<Rightarrow> nat \<Rightarrow> bool" where
  "valid_context_layout sz alignment \<longleftrightarrow> sz \<noteq> 0 \<and> 4 \<le> alignment \<and> list_ex (\<lambda>k. alignment = 2 ^ k) [0..<32]"

definition new_owner :: "'c \<Rightarrow> nshared \<Rightarrow> 'c psys" where
  "new_owner c h =
     \<lparr> ps_context = c, ps_shared = h, ps_mgmt_seen = sq_dropped (nh_mgmt h), ps_scan_seen = sq_dropped (sc_queue (nh_scan h)),
       ps_link_seen = sq_dropped (nh_link h), ps_auth_seen = sq_dropped (nh_auth h), ps_fallback = 0, ps_status_sequence = 0,
       ps_retry_deadline = 0, ps_retry_pending = False, ps_receipt = Inr None \<rparr>"

definition supplicant_create ::
  "'e port_calls \<Rightarrow> 'c create_calls \<Rightarrow> u8 list \<Rightarrow> nshared \<times> driver_context
     \<Rightarrow> (('e port_error + nsup_error) + 'c psys) \<times> owner_call list \<times> nshared \<times> driver_context" where
  "supplicant_create C K ifname w =
     (case prepare_upstream_supplicant_port C ifname w of
        (Inl e, w1) \<Rightarrow> (Inl (Inl e), [], w1)
      | (Inr _, h, d) \<Rightarrow>
          if \<not> valid_context_layout (cc_size K) (cc_align K) then (Inl (Inr InvalidContextLayout), [], h, d)
          else if \<not> cc_allocate K then (Inl (Inr AllocationFailed), [], h, d)
          else
            (case cc_create K of
               None \<Rightarrow> (Inl (Inr CreateFailed), [CallAllocate, CallFree], h, d)
             | Some c \<Rightarrow>
                 if cc_init K \<noteq> 0
                 then (Inl (Inr (InitializeFailed (cc_init K))), [CallAllocate, CallCreate, CallInit, CallDestroy, CallFree], h, d)
                 else
                   let h1 = h\<lparr> nh_eapol_pending := False \<rparr>
                   in if cc_enable K \<noteq> 0
                      then (Inl (Inr (EnableEapolFailed (cc_enable K))),
                            [CallAllocate, CallCreate, CallInit, CallEnable, CallDestroy, CallFree], h1, d)
                      else (Inr (new_owner c h1), [CallAllocate, CallCreate, CallInit, CallEnable], h1, d)))"

definition supplicant_drop :: "'c psys \<Rightarrow> nshared \<times> owner_call list" where
  "supplicant_drop s = ((ps_shared s)\<lparr> nh_eapol_pending := False \<rparr>, [CallDisable, CallDestroy, CallFree])"

text \<open>Creation releases what it acquired when it fails, and dropping the owner releases what creation acquired; a new
  owner has reported all events that were dropped before it.\<close>

lemma new_owner_fresh: "poll_overflow (new_owner c h) = None" "ps_fallback (new_owner c h) = 0" "ps_shared (new_owner c h) = h"
  by (simp_all add: new_owner_def poll_overflow_def Let_def)

theorem owner_calls_balanced:
  "case supplicant_create C K ifname w of
     (Inl _, calls, _) \<Rightarrow> count_list calls CallAllocate = count_list calls CallFree
       \<and> count_list calls CallCreate = count_list calls CallDestroy
   | (Inr s, calls, _) \<Rightarrow> poll_overflow s = None \<and> \<not> input_pending s
       \<and> count_list (calls @ snd (supplicant_drop s)) CallAllocate = count_list (calls @ snd (supplicant_drop s)) CallFree
       \<and> count_list (calls @ snd (supplicant_drop s)) CallCreate = count_list (calls @ snd (supplicant_drop s)) CallDestroy
       \<and> count_list (calls @ snd (supplicant_drop s)) CallEnable = count_list (calls @ snd (supplicant_drop s)) CallDisable"
proof -
  have fresh: "poll_overflow (new_owner c h) = None" "ps_fallback (new_owner c h) = 0" "ps_shared (new_owner c h) = h" for c h
    by (simp_all add: new_owner_def poll_overflow_def Let_def)
  obtain r h d where p: "prepare_upstream_supplicant_port C ifname w = (r, h, d)" by (cases rule: prod_cases3)
  show ?thesis
    by (cases r; cases "valid_context_layout (cc_size K) (cc_align K)"; cases "cc_allocate K"; cases "cc_create K";
        cases "cc_init K = 0"; cases "cc_enable K = 0")
      (simp_all add: supplicant_create_def supplicant_drop_def p Let_def input_pending_def fresh)
qed

section \<open>Budgets\<close>

lemma feed_queue_budget: "feed_queue get put feed n s = Some (Inr m, s') \<Longrightarrow> m \<le> n"
proof (induction n arbitrary: s)
  case (Suc n)
  then show ?case by (fastforce split: prod.splits option.splits sum.splits)
qed simp

lemma drain_eapol_loop_budget: "drain_eapol_loop P n s = (Inr m, s') \<Longrightarrow> m \<le> n"
proof (induction n arbitrary: s)
  case (Suc n)
  then show ?case by (fastforce split: prod.splits sum.splits bool.splits if_splits)
qed simp

lemma poll_eapol_budget: "poll_eapol P n s = (Inr m, s') \<Longrightarrow> m \<le> n"
  by (auto simp: poll_eapol_def drain_eapol_def Let_def claim_eapol_notification_def dest: drain_eapol_loop_budget
      split: prod.splits sum.splits if_splits)

lemma then_poll_Some:
  assumes "then_poll r f = Some (Inr m, s')"
  obtains n s where "r = Some (Inr n, s)" "f n s = Some (Inr m, s')"
  using assms by (auto simp: then_poll_def split: option.splits prod.splits sum.splits)

lemma poll_feeds_budget:
  assumes "poll_feeds P n s = Some (Inr m, s')"
  shows "m \<le> n"
  using assms unfolding poll_feeds_def poll_scan_def poll_link_def poll_auth_def poll_mgmt_def
  by (elim then_poll_Some) (auto dest!: feed_queue_budget poll_eapol_budget)

lemma poll_finish_Inr:
  assumes "poll_finish P now1 now2 grant m s = (Inr r, s')"
  obtains w where "nr_work_completed r = sat_add (nr_work_completed (fst (np_poll P now1 (of_nat (max m 1)) w))) (sat_sub grant (of_nat m))"
proof -
  obtain o1 s1 where 1: "service_external_auth_status_retry P now1 s = (Inr o1, s1)"
    using assms by (auto simp: poll_finish_def split: prod.splits sum.splits)
  obtain r0 s2 where 2: "native (np_poll P now1 (of_nat (max m (Suc 0)))) s1 = (r0, s2)" by (cases rule: prod.exhaust)
  obtain o2 s3 where 3: "service_external_auth_status_retry P now2 s2 = (Inr o2, s3)"
    using assms by (auto simp: poll_finish_def 1 2 split: prod.splits sum.splits)
  have "nr_work_completed r = sat_add (nr_work_completed r0) (sat_sub grant (of_nat m))"
    using assms by (auto simp: poll_finish_def 1 2 3 Let_def account_poll_work_def split: if_splits option.splits)
  moreover have "r0 = fst (np_poll P now1 (of_nat (max m 1)) (ps_context s1, ps_shared s1))"
    using 2 by (auto simp: native_def split: prod.splits)
  ultimately show ?thesis using that by blast
qed

lemma supplicant_poll_Inr:
  assumes "supplicant_poll P now1 now2 work_budget s = Some (Inr r, s')"
  obtains "r = idle_result" "s' = snd (ps_disconnect_returned s)"
  | m s2 where "poll_feeds P (unat (sat_sub work_budget 1)) (snd (ps_disconnect_returned s)) = Some (Inr m, s2)"
      "poll_finish P now1 now2 (sat_sub work_budget 1) m s2 = (Inr r, s')"
proof (cases "ps_disconnect_returned s")
  case (Pair b s1)
  consider e where "b = Inl e" | "b = Inr False" | "b = Inr True" by (metis (full_types) old.sum.exhaust)
  then show ?thesis
  proof cases
    case 1
    then show ?thesis using assms Pair by (simp add: supplicant_poll_def)
  next
    case 2
    then show ?thesis using assms Pair that(1) by (simp add: supplicant_poll_def)
  next
    case 3
    have none: "poll_overflow s1 = None" using assms Pair 3 by (cases "poll_overflow s1") (auto simp: supplicant_poll_def)
    obtain m s2 where feeds: "poll_feeds P (unat (sat_sub work_budget 1)) s1 = Some (Inr m, s2)"
      using assms Pair 3 none by (auto simp: supplicant_poll_def Let_def split: option.splits sum.splits)
    then show ?thesis using assms Pair 3 none that(2) [of m s2] by (simp add: supplicant_poll_def Let_def)
  qed
qed

section \<open>EAPOL notifications\<close>

text \<open>A frame that the vendor holds is either announced or the vendor's queue is drained.\<close>

definition announced :: "('c \<Rightarrow> bool) \<Rightarrow> 'c \<times> nshared \<Rightarrow> bool" where
  "announced drained w \<longleftrightarrow> nh_eapol_pending (snd w) \<or> drained (fst w)"

abbreviation ps_announced :: "('c \<Rightarrow> bool) \<Rightarrow> 'c psys \<Rightarrow> bool" where
  "ps_announced drained s \<equiv> announced drained (ps_context s, ps_shared s)"

definition call_announces :: "('c \<Rightarrow> bool) \<Rightarrow> ('c \<times> nshared \<Rightarrow> 'r \<times> 'c \<times> nshared) \<Rightarrow> bool" where
  "call_announces drained f \<longleftrightarrow> (\<forall>w. announced drained w \<longrightarrow> announced drained (snd (f w)))"

text \<open>The vendor announces the frames it receives during a call, and answers with the empty code only when its queue
  is drained.\<close>

definition port_announces :: "('c \<Rightarrow> bool) \<Rightarrow> 'c nport \<Rightarrow> bool" where
  "port_announces drained P \<longleftrightarrow>
     (\<forall>m i. call_announces drained (np_feed_scan_result P m i)) \<and> (\<forall>st. call_announces drained (np_feed_scan_done P st))
     \<and> (\<forall>m f g. call_announces drained (np_feed_associate P m f g)) \<and> (\<forall>r i. call_announces drained (np_feed_disconnect P r i))
     \<and> (\<forall>e. call_announces drained (np_feed_external_auth P e)) \<and> (\<forall>f r b. call_announces drained (np_feed_mgmt P f r b))
     \<and> (\<forall>c. call_announces drained (np_send_auth_status P c)) \<and> (\<forall>t n. call_announces drained (np_poll P t n))
     \<and> (\<forall>w. fst (fst (np_receive_eapol P w)) = 0xffff \<longrightarrow> announced drained (snd (np_receive_eapol P w)))"

lemma port_announcesD:
  assumes "port_announces drained P"
  shows "call_announces drained (np_feed_scan_result P m i)" "call_announces drained (np_feed_scan_done P st)"
    "call_announces drained (np_feed_associate P lm f g)" "call_announces drained (np_feed_disconnect P r i)"
    "call_announces drained (np_feed_external_auth P e)" "call_announces drained (np_feed_mgmt P fq rs b)"
    "call_announces drained (np_send_auth_status P c)" "call_announces drained (np_poll P t n)"
  using assms unfolding port_announces_def by blast+

lemma native_announces:
  "call_announces drained f \<Longrightarrow> native f s = (r, s') \<Longrightarrow> ps_announced drained s \<Longrightarrow> ps_announced drained s'"
  by (auto simp: native_def call_announces_def split: prod.splits) (metis snd_conv)

lemma on_shared_announces:
  "(\<And>h. nh_eapol_pending (f h) = nh_eapol_pending h) \<Longrightarrow> ps_announced drained (on_shared f s) = ps_announced drained s"
  by (simp add: announced_def on_shared_def)

lemma put_pending [simp]:
  "nh_eapol_pending (put_scan f h) = nh_eapol_pending h" "nh_eapol_pending (put_link g h) = nh_eapol_pending h"
  "nh_eapol_pending (put_auth i h) = nh_eapol_pending h" "nh_eapol_pending (put_mgmt j h) = nh_eapol_pending h"
  by (simp_all add: put_scan_def put_link_def put_auth_def put_mgmt_def)

lemma feed_queue_announces:
  assumes put: "\<And>f h. nh_eapol_pending (put f h) = nh_eapol_pending h"
    and feed: "\<And>x s r s'. feed x s = Some (r, s') \<Longrightarrow> ps_announced drained s \<Longrightarrow> ps_announced drained s'"
    and run: "feed_queue get put feed n s = Some (r, s')" and ok: "ps_announced drained s"
  shows "ps_announced drained s'"
  using run ok
proof (induction n arbitrary: s)
  case (Suc n)
  show ?case
  proof (cases "sq_take (get (ps_shared s))")
    case (Pair t q)
    show ?thesis
    proof (cases t)
      case None
      then show ?thesis using Suc.prems Pair by simp
    next
      case (Some i)
      have "ps_announced drained (on_shared (put (\<lambda>_. q)) s)" using Suc.prems(2) put by (simp add: on_shared_announces)
      then have "ps_announced drained s1" if "feed (the (sl_item (sq_slots q ! i))) (on_shared (put (\<lambda>_. q)) s) = Some (r1, s1)" for r1 s1
        using feed that by blast
      then show ?thesis
        using Suc Pair Some put by (auto simp: on_shared_announces split: option.splits prod.splits sum.splits)
    qed
  qed
qed simp

lemma checked_snd [simp]: "snd (checked e r) = snd r"
  by (simp add: checked_def)

lemma checked_announces:
  assumes "call_announces drained f" "checked e (native f s) = (r, s')" "ps_announced drained s"
  shows "ps_announced drained s'"
proof -
  have "s' = snd (native f s)" using assms(2) checked_snd [of e "native f s"] by simp
  then show ?thesis using native_announces [OF assms(1) prod.collapse [symmetric] assms(3)] by simp
qed

lemma clear_announces:
  assumes "clear_stale_state P raw s = Some (r, s')" "ps_announced drained s"
  shows "ps_announced drained s'"
  using assms by (auto simp: clear_stale_state_def checked_def on_shared_def announced_def split: if_splits option.splits)

lemma feeds_announce:
  assumes P: "port_announces drained P" and ok: "ps_announced drained s"
  shows "feed_scan P x s = Some (r, s') \<Longrightarrow> ps_announced drained s'"
    and "feed_link P y s = Some (r, s') \<Longrightarrow> ps_announced drained s'"
    and "feed_external_auth P z s = Some (r, s') \<Longrightarrow> ps_announced drained s'"
    and "feed_mgmt P u s = Some (r, s') \<Longrightarrow> ps_announced drained s'"
proof -
  show "feed_scan P x s = Some (r, s') \<Longrightarrow> ps_announced drained s'"
    using ok by (auto simp: feed_scan_def split: if_splits intro: checked_announces [OF port_announcesD(1) [OF P] _ ok]
        checked_announces [OF port_announcesD(2) [OF P] _ ok])
  show "feed_external_auth P z s = Some (r, s') \<Longrightarrow> ps_announced drained s'"
    by (auto simp: feed_external_auth_def intro: checked_announces [OF port_announcesD(5) [OF P] _ ok])
  show "feed_mgmt P u s = Some (r, s') \<Longrightarrow> ps_announced drained s'"
    by (auto simp: feed_mgmt_def intro: checked_announces [OF port_announcesD(6) [OF P] _ ok])
  assume link: "feed_link P y s = Some (r, s')"
  show "ps_announced drained s'"
  proof (cases "lm_kind (fst y) = LINK_EVENT_ASSOCIATE")
    case True
    obtain st s1 where n: "native (np_feed_associate P (fst y) (link_first y) (link_second y)) s = (st, s1)"
      by (cases rule: prod.exhaust)
    have "ps_announced drained s1" by (rule native_announces [OF port_announcesD(3) [OF P] n ok])
    moreover have "ps_context s' = ps_context s1 \<and> ps_shared s' = ps_shared s1"
      using link True n by (auto simp: feed_link_def Let_def checked_def)
    ultimately show ?thesis by simp
  next
    case False
    show ?thesis
    proof (cases "lm_kind (fst y) = LINK_EVENT_DISCONNECT")
      case True
      obtain r1 s1 where c: "clear_stale_state P (lm_status_or_reason (fst y)) s = Some (r1, s1)"
        using link False True by (auto simp: feed_link_def Let_def split: option.splits)
      have ok1: "ps_announced drained s1" by (rule clear_announces [OF c ok])
      show ?thesis
        using link False True c ok1 checked_announces [OF port_announcesD(4) [OF P] _ ok1]
        by (auto simp: feed_link_def Let_def split: sum.splits)
    qed (use link False ok in \<open>simp add: feed_link_def Let_def\<close>)
  qed
qed

lemma drain_eapol_announces:
  assumes P: "port_announces drained P" and run: "drain_eapol P n s = (Inr m, s')"
  shows "ps_announced drained s'"
proof -
  have loop: "m = 0 \<or> ps_announced drained s'" if "drain_eapol_loop P n s = (Inr m, s')" for n s m s'
    using that
  proof (induction n arbitrary: s)
    case (Suc n)
    obtain st fr len s1 where n: "native (np_receive_eapol P) s = ((st, fr, len), s1)" by (metis prod_cases3 prod.exhaust)
    have empty_code: "ps_announced drained s1" if "st = 0xffff"
      using P n that by (auto simp: port_announces_def native_def split: prod.splits) (metis fst_conv snd_conv)
    show ?case
      using Suc.prems Suc.IH empty_code
      by (auto simp: n classify_eapol_receive_def split: if_splits prod.splits)
  qed simp
  show ?thesis
    using run loop by (auto simp: drain_eapol_def announced_def on_shared_def split: prod.splits sum.splits if_splits)
qed

lemma poll_eapol_announces:
  assumes P: "port_announces drained P" and run: "poll_eapol P n s = (Inr m, s')" and ok: "ps_announced drained s"
  shows "ps_announced drained s'"
  using run ok drain_eapol_announces [OF P]
  by (auto simp: poll_eapol_def claim_eapol_notification_def Let_def announced_def on_shared_def split: if_splits)

lemma poll_feeds_announces:
  assumes P: "port_announces drained P" and run: "poll_feeds P n s = Some (Inr m, s')" and ok: "ps_announced drained s"
  shows "ps_announced drained s'"
proof -
  obtain n1 s1 n2 s2 n3 s3 n4 s4 where 1: "poll_scan P n s = Some (Inr n1, s1)" and 2: "poll_link P n1 s1 = Some (Inr n2, s2)"
    and 3: "poll_auth P n2 s2 = Some (Inr n3, s3)" and 4: "poll_mgmt P n3 s3 = Some (Inr n4, s4)"
    and 5: "poll_eapol P n4 s4 = (Inr m, s')"
    using run unfolding poll_feeds_def by (elim then_poll_Some) auto
  have "ps_announced drained s1"
    using feed_queue_announces [OF _ feeds_announce(1) [OF P] 1 [unfolded poll_scan_def] ok] by simp
  then have "ps_announced drained s2"
    using feed_queue_announces [OF _ feeds_announce(2) [OF P] 2 [unfolded poll_link_def]] by simp
  then have "ps_announced drained s3"
    using feed_queue_announces [OF _ feeds_announce(3) [OF P] 3 [unfolded poll_auth_def]] by simp
  then have "ps_announced drained s4"
    using feed_queue_announces [OF _ feeds_announce(4) [OF P] 4 [unfolded poll_mgmt_def]] by simp
  then show ?thesis using poll_eapol_announces [OF P 5] by blast
qed

lemma retry_announces:
  assumes P: "port_announces drained P" and run: "service_external_auth_status_retry P now s = (r, s')" and ok: "ps_announced drained s"
  shows "ps_announced drained s'"
proof -
  have obs: "ps_context (retry_observe now s) = ps_context s" "ps_shared (retry_observe now s) = ps_shared s"
    by (auto simp: retry_observe_def Let_def)
  have send: "ps_announced drained s2" if "send_cached_external_auth_status P t = (st, s2)" "ps_announced drained t" for t st s2
    using that native_announces [OF port_announcesD(7) [OF P] _ that(2)]
    by (auto simp: send_cached_external_auth_status_def split: option.splits)
  show ?thesis
    using run ok obs send
    by (auto simp: service_external_auth_status_retry_def Let_def on_shared_announces split: if_splits prod.splits)
qed

lemma poll_finish_announces:
  assumes P: "port_announces drained P" and run: "poll_finish P now1 now2 grant m s = (Inr r, s')" and ok: "ps_announced drained s"
  shows "ps_announced drained s'"
proof -
  obtain o1 s1 where 1: "service_external_auth_status_retry P now1 s = (Inr o1, s1)"
    using run by (auto simp: poll_finish_def split: prod.splits sum.splits)
  obtain r0 s2 where 2: "native (np_poll P now1 (of_nat (max m (Suc 0)))) s1 = (r0, s2)" by (cases rule: prod.exhaust)
  obtain o2 s3 where 3: "service_external_auth_status_retry P now2 s2 = (Inr o2, s3)"
    using run by (auto simp: poll_finish_def 1 2 split: prod.splits sum.splits)
  have "ps_announced drained s1" by (rule retry_announces [OF P 1 ok])
  then have "ps_announced drained s2" by (rule native_announces [OF port_announcesD(8) [OF P] 2])
  then have "ps_announced drained s3" by (rule retry_announces [OF P 3])
  moreover have "s' = s3" using run by (auto simp: poll_finish_def 1 2 3 Let_def split: if_splits)
  ultimately show ?thesis by simp
qed

section \<open>Status repetition\<close>

text \<open>A run of looks at the status repetition; before each of them the context and the shared statics take any value.
  \<open>sent\<close> reads off the context how many status requests the vendor has received, so that the result is the looks in
  which the vendor received one.\<close>

type_synonym 'c look = "u64 \<times> 'c \<times> nshared"

definition counts_sends :: "('c \<Rightarrow> nat) \<Rightarrow> 'c nport \<Rightarrow> bool" where
  "counts_sends sent P \<longleftrightarrow> (\<forall>cached w. sent (fst (snd (np_send_auth_status P cached w))) = Suc (sent (fst w)))"

fun retry_sends :: "('c \<Rightarrow> nat) \<Rightarrow> 'c nport \<Rightarrow> 'c look list \<Rightarrow> 'c psys \<Rightarrow> 'c look list" where
  "retry_sends sent P [] s = []"
| "retry_sends sent P ((now_ms, c, h) # looks) s =
     (let s1 = s\<lparr> ps_context := c, ps_shared := h \<rparr>; s2 = snd (service_external_auth_status_retry P now_ms s1)
      in replicate (sent (ps_context s2) - sent c) (now_ms, c, h) @ retry_sends sent P looks s2)"

definition sent_sequence :: "nshared \<Rightarrow> u32" where
  "sent_sequence h = ap_sequence (nh_status_sent h)"

definition association_after :: "u32 \<Rightarrow> nshared \<Rightarrow> bool" where
  "association_after sq h = event_sequence_after (ap_sequence (nh_association_event h)) sq"

definition retry_due :: "u64 \<Rightarrow> 'c psys \<Rightarrow> bool" where
  "retry_due now_ms s \<longleftrightarrow> ps_retry_pending (retry_observe now_ms s) \<and> \<not> now_ms < ps_retry_deadline (retry_observe now_ms s)"

lemma native_owner:
  "native f s = (r, s') \<Longrightarrow> ps_status_sequence s' = ps_status_sequence s \<and> ps_retry_pending s' = ps_retry_pending s
     \<and> ps_retry_deadline s' = ps_retry_deadline s"
  by (auto simp: native_def split: prod.splits)

lemma service_owner:
  "let s' = snd (service_external_auth_status_retry P now_ms s); s1 = retry_observe now_ms s
   in ps_status_sequence s' = ps_status_sequence s1 \<and> ps_retry_deadline s' = ps_retry_deadline s1
     \<and> ps_retry_pending s' = (ps_retry_pending s1 \<and> \<not> retry_due now_ms s)"
  by (auto simp: service_external_auth_status_retry_def retry_due_def Let_def send_cached_external_auth_status_def on_shared_def
      dest: native_owner split: prod.splits option.splits)

lemma retry_observe_frame [simp]:
  "ps_context (retry_observe now_ms s) = ps_context s" "ps_shared (retry_observe now_ms s) = ps_shared s"
  by (simp_all add: retry_observe_def Let_def)

lemma service_sends:
  assumes "counts_sends sent P"
  shows "sent (ps_context (snd (service_external_auth_status_retry P now_ms s))) - sent (ps_context s)
    = (if retry_due now_ms s \<and> nh_auth_cache (ps_shared s) \<noteq> None then 1 else 0)"
proof -
  have "sent (ps_context (snd (native (np_send_auth_status P cached) x))) = Suc (sent (ps_context x))" for cached x
    using assms by (simp add: native_def counts_sends_def case_prod_beta)
  then show ?thesis
    by (auto simp: service_external_auth_status_retry_def retry_due_def Let_def send_cached_external_auth_status_def
        on_shared_def case_prod_beta split: option.splits)
qed

text \<open>One look when the status is known already, and the look that sees it first.\<close>

lemma look_known:
  fixes s :: "'c psys" and c :: 'c and P :: "'c nport" and now_ms :: u64
  assumes "sent_sequence h = sq" "ps_status_sequence s = sq"
  defines "s1 \<equiv> s\<lparr> ps_context := c, ps_shared := h \<rparr>"
  defines "s2 \<equiv> snd (service_external_auth_status_retry P now_ms s1)"
  shows "retry_due now_ms s1 \<longleftrightarrow> ps_retry_pending s \<and> \<not> association_after sq h \<and> ps_retry_deadline s \<le> now_ms"
    and "ps_status_sequence s2 = sq" "ps_retry_deadline s2 = ps_retry_deadline s"
    and "ps_retry_pending s2 \<longleftrightarrow> ps_retry_pending s \<and> \<not> association_after sq h \<and> \<not> ps_retry_deadline s \<le> now_ms"
proof -
  have obs: "ps_status_sequence (retry_observe now_ms s1) = sq" "ps_retry_deadline (retry_observe now_ms s1) = ps_retry_deadline s"
    "ps_retry_pending (retry_observe now_ms s1) \<longleftrightarrow> ps_retry_pending s \<and> \<not> association_after sq h"
    using assms(1,2) by (auto simp: retry_observe_def Let_def s1_def sent_sequence_def association_after_def)
  show due: "retry_due now_ms s1 \<longleftrightarrow> ps_retry_pending s \<and> \<not> association_after sq h \<and> ps_retry_deadline s \<le> now_ms"
    using obs by (auto simp: retry_due_def)
  show "ps_status_sequence s2 = sq" "ps_retry_deadline s2 = ps_retry_deadline s"
    "ps_retry_pending s2 \<longleftrightarrow> ps_retry_pending s \<and> \<not> association_after sq h \<and> \<not> ps_retry_deadline s \<le> now_ms"
    using service_owner [of P now_ms s1] obs due by (auto simp: Let_def s2_def)
qed

lemma look_first:
  fixes s :: "'c psys" and now_ms :: u64
  assumes "sent_sequence h = sq" "sq \<noteq> 0" "ps_status_sequence s \<noteq> sq"
  defines "s' \<equiv> s\<lparr> ps_status_sequence := sq, ps_retry_deadline := sat_add now_ms RETRY_DELAY_MS, ps_retry_pending := True \<rparr>"
  shows "service_external_auth_status_retry P now_ms (s\<lparr> ps_context := c, ps_shared := h \<rparr>)
    = service_external_auth_status_retry P now_ms (s'\<lparr> ps_context := c, ps_shared := h \<rparr>)"
proof -
  have "retry_observe now_ms (s\<lparr> ps_context := c, ps_shared := h \<rparr>) = retry_observe now_ms (s'\<lparr> ps_context := c, ps_shared := h \<rparr>)"
    using assms(1-3) by (auto simp: retry_observe_def Let_def s'_def sent_sequence_def)
  then show ?thesis by (simp add: service_external_auth_status_retry_def)
qed

lemma retry_sends_settled:
  assumes "counts_sends sent P" "list_all (\<lambda>(_, _, h). sent_sequence h = sq) looks" "ps_status_sequence s = sq" "\<not> ps_retry_pending s"
  shows "retry_sends sent P looks s = []"
  using assms(2-4)
proof (induction looks arbitrary: s)
  case (Cons a looks)
  obtain now_ms c h where a: "a = (now_ms, c, h)" by (cases rule: prod_cases3)
  have h: "sent_sequence h = sq" using Cons.prems(1) by (simp add: a)
  note look = look_known(1) [OF h Cons.prems(2), where now_ms = now_ms and c = c]
    look_known(2-4) [OF h Cons.prems(2), where now_ms = now_ms and c = c and P = P]
  show ?case
    using Cons look service_sends [OF assms(1), of now_ms "s\<lparr> ps_context := c, ps_shared := h \<rparr>"] by (simp add: a Let_def)
qed simp

lemma retry_sends_armed:
  assumes "counts_sends sent P" "list_all (\<lambda>(_, _, h). sent_sequence h = sq) looks" "ps_status_sequence s = sq"
  shows "length (retry_sends sent P looks s) \<le> 1
    \<and> list_all (\<lambda>(now_ms, _, h). ps_retry_deadline s \<le> now_ms \<and> \<not> association_after sq h) (retry_sends sent P looks s)
    \<and> (ps_retry_pending s \<and> list_all (\<lambda>(_, _, h). nh_auth_cache h \<noteq> None \<and> \<not> association_after sq h) looks
         \<and> list_ex (\<lambda>(now_ms, _, _). ps_retry_deadline s \<le> now_ms) looks \<longrightarrow> length (retry_sends sent P looks s) = 1)"
  using assms(2,3)
proof (induction looks arbitrary: s)
  case (Cons a looks)
  obtain now_ms c h where a: "a = (now_ms, c, h)" by (cases rule: prod_cases3)
  define s1 where "s1 = s\<lparr> ps_context := c, ps_shared := h \<rparr>"
  define s2 where "s2 = snd (service_external_auth_status_retry P now_ms s1)"
  have h: "sent_sequence h = sq" and rest: "list_all (\<lambda>(_, _, h). sent_sequence h = sq) looks"
    using Cons.prems(1) by (simp_all add: a)
  note look = look_known(1) [OF h Cons.prems(2), where now_ms = now_ms and c = c, folded s1_def]
    look_known(2-4) [OF h Cons.prems(2), where now_ms = now_ms and c = c and P = P, folded s1_def, folded s2_def]
  have sends: "retry_sends sent P (a # looks) s
      = (if retry_due now_ms s1 \<and> nh_auth_cache h \<noteq> None then [a] else []) @ retry_sends sent P looks s2"
    using service_sends [OF assms(1), of now_ms s1] by (simp add: a Let_def s1_def s2_def)
  show ?case
  proof (cases "retry_due now_ms s1")
    case True
    then have "retry_sends sent P looks s2 = []"
      using retry_sends_settled [OF assms(1) rest look(2)] look(1,4) by blast
    then show ?thesis using True look(1) unfolding sends by (auto simp: a)
  next
    case False
    have "ps_retry_pending s2 \<and> \<not> ps_retry_deadline s \<le> now_ms"
      if "ps_retry_pending s" "\<not> association_after sq h"
      using False look(1,4) that by blast
    then show ?thesis using Cons.IH [OF rest look(2)] look(3) False unfolding sends by (auto simp: a)
  qed
qed simp

section \<open>Interface names\<close>

lemma position_pad:
  "0 \<notin> set name \<Longrightarrow> length name < n \<Longrightarrow> position (\<lambda>b. b = 0) (pad n name) = Some (length name)"
proof (induction name arbitrary: n)
  case Nil
  then show ?case by (cases n) (auto simp: pad_def)
next
  case (Cons b name)
  then obtain m where "n = Suc m" by (cases n) auto
  then show ?case using Cons by (simp add: pad_def)
qed

lemma dc_initialize_matches: "dc_initialize name d = Some d' \<Longrightarrow> dc_matches name' d' \<longleftrightarrow> name' = name"
  by (auto simp: dc_initialize_def dc_matches_def position_pad split: if_splits) (simp_all add: pad_def)

lemma prepare_matches:
  assumes "prepare_upstream_supplicant_port C name (h, d) = (Inr (), h1, d1)"
  shows "nh_port h1 = PORT_READY \<and> (\<forall>name'. dc_matches name' d1 \<longleftrightarrow> name' = name)"
proof (cases "nh_port h = PORT_READY")
  case True
  then have "h1 = h" "d1 = d" "dc_matches name d"
    using assms by (auto simp: prepare_upstream_supplicant_port_def split: sum.splits if_splits)
  then show ?thesis using True by (auto simp: dc_matches_def split: option.splits)
next
  case False
  obtain u where init: "pc_init C = Inr u"
    using assms by (cases "pc_init C") (simp_all add: prepare_upstream_supplicant_port_def)
  have free: "nh_port h \<noteq> PORT_INSTALLING" "nh_port h = PORT_FREE"
    using assms False init by (auto simp: prepare_upstream_supplicant_port_def split: if_splits)
  obtain d' where d': "dc_initialize name d = Some d'"
    using assms False init free
    by (cases "dc_initialize name d") (simp_all add: prepare_upstream_supplicant_port_def PORT_FREE_def PORT_INSTALLING_def PORT_READY_def)
  obtain r n where w: "start_deauth_worker (pc_already_installed C) (pc_worker_wake C) (pc_worker_task C) (nh_native h) = (r, n)"
    by (cases rule: prod.exhaust)
  have "nh_port h1 = PORT_READY" "d1 = d'"
    using assms False init free d' w
    by (cases r; simp add: prepare_upstream_supplicant_port_def Let_def split: if_splits; force)+
  then show ?thesis using dc_initialize_matches [OF d'] by blast
qed

section \<open>A small native side\<close>

text \<open>The context counts the EAPOL frames the vendor holds; an eloop turn reports one unit of work.\<close>

definition demo_frame :: "u8 list" where
  "demo_frame = replicate 12 0 @ [0x88, 0x8e, 1, 3] @ replicate 784 0"

definition demo_port :: "nat nport" where
  "demo_port = \<lparr> np_feed_scan_result = (\<lambda>_ _ w. (0, w)), np_feed_scan_done = (\<lambda>_ w. (0, w)),
     np_feed_associate = (\<lambda>_ _ _ w. (0, w)), np_feed_disconnect = (\<lambda>_ _ w. (0, w)),
     np_feed_external_auth = (\<lambda>_ w. (0, w)), np_feed_mgmt = (\<lambda>_ _ _ w. (0, w)),
     np_receive_eapol = (\<lambda>(n, h). if n = 0 then ((0xffff, replicate 800 0, 0), n, h) else ((0, demo_frame, 16), n - 1, h)),
     np_feed_eapol = (\<lambda>_ _ w. (0, w)), np_send_auth_status = (\<lambda>_ w. (0, w)),
     np_poll = (\<lambda>_ _ w. (\<lparr> nr_status = 0, nr_work_completed = 1, nr_output_pending = 0, nr_next_deadline_ms = - 1 \<rparr>, w)),
     np_next_event = (\<lambda>w. ((0, \<lparr> ev_abi_version = 0, ev_kind = 0, ev_status = 0, ev_data_len = 0 \<rparr>), w)),
     np_begin_scan_capture = (\<lambda>w. (0, w)), np_connect = (\<lambda>w. (0, w)),
     np_env = demo_env, np_wake = (\<lambda>d. (True, d)) \<rparr>"

definition demo_owner :: "nat psys" where
  "demo_owner = \<lparr> ps_context = 3, ps_shared = (nh_new demo_sys)\<lparr> nh_port := PORT_READY, nh_eapol_pending := True \<rparr>,
     ps_mgmt_seen = 0, ps_scan_seen = 0, ps_link_seen = 0, ps_auth_seen = 0, ps_fallback = 0, ps_status_sequence = 0,
     ps_retry_deadline = 0, ps_retry_pending = False, ps_receipt = Inr None \<rparr>"

definition poll_view :: "((nsup_error + native_poll_result) \<times> nat psys) option \<Rightarrow> (u32 \<times> nat \<times> bool) option" where
  "poll_view r = (case r of Some (Inr p, s) \<Rightarrow> Some (nr_work_completed p, ps_context s, nh_eapol_pending (ps_shared s)) | _ \<Rightarrow> None)"

lemma demo_poll: "poll_view (supplicant_poll demo_port 10 20 3 demo_owner) = Some (3, 1, True)"
  by code_simp

lemma demo_poll_returns:
  obtains p s where "supplicant_poll demo_port 10 20 3 demo_owner = Some (Inr p, s)" "nr_work_completed p = 3"
    "ps_context s = 1" "nh_eapol_pending (ps_shared s)"
  using demo_poll by (auto simp: poll_view_def split: option.splits prod.splits sum.splits)

section \<open>Properties\<close>

text \<open>C22: a poll that succeeds reports at most its work budget, counting the queued events, the EAPOL frames and the
  work of the eloop turn, provided the eloop turn stays within the share it is given.  The turn always gets at least one
  unit.\<close>

theorem poll_work_bounded:
  assumes eloop: "\<And>now n w. n \<noteq> 0 \<Longrightarrow> nr_work_completed (fst (np_poll P now n w)) \<le> n"
    and budget: "work_budget \<noteq> 0"
    and run: "supplicant_poll P now1 now2 work_budget s = Some (Inr r, s')"
  shows "nr_work_completed r \<le> work_budget"
proof -
  define grant where "grant = sat_sub work_budget 1"
  have "0 < unat work_budget" using budget by (simp add: unat_gt_0)
  then have g: "unat grant + 1 = unat work_budget" by (simp add: grant_def unat_sat_sub)
  from run show ?thesis
  proof (cases rule: supplicant_poll_Inr)
    case 1
    then show ?thesis by (simp add: idle_result_def)
  next
    case (2 m s2)
    note 2 = 2 [folded grant_def]
    have m: "m \<le> unat grant" by (rule poll_feeds_budget [OF 2(1)])
    have small: "max m 1 < 2 ^ 32" using m g unsigned_less [of work_budget, where ?'a = nat] by simp
    then have k: "unat (of_nat (max m 1) :: u32) = max m 1" "unat (of_nat m :: u32) = m" by (simp_all add: unat_of_nat)
    have nz: "(of_nat (max m 1) :: u32) \<noteq> 0"
    proof
      assume "(of_nat (max m 1) :: u32) = 0"
      then have "unat (of_nat (max m 1) :: u32) = 0" by (simp only: unat_0)
      then show False using k(1) by simp
    qed
    from poll_finish_Inr [OF 2(2)] obtain w where
      w: "nr_work_completed r = sat_add (nr_work_completed (fst (np_poll P now1 (of_nat (max m 1)) w))) (sat_sub grant (of_nat m))" .
    have "unat (nr_work_completed (fst (np_poll P now1 (of_nat (max m 1)) w))) \<le> max m 1"
      using eloop [OF nz, of now1 w] k(1) by (simp add: word_le_nat_alt)
    then have "unat (nr_work_completed r) \<le> max m 1 + (unat grant - m)"
      by (simp add: w unat_sat_add unat_sat_sub k(2) del: max.bounded_iff)
    also have "\<dots> \<le> unat work_budget" using m g by simp
    finally show ?thesis by (simp add: word_le_nat_alt)
  qed
qed

theorem poll_work_bounded_witness:
  "\<exists>r s. supplicant_poll demo_port 10 20 3 demo_owner = Some (Inr r, s) \<and> nr_work_completed r = 3 \<and> nr_work_completed r \<le> 3"
proof -
  obtain r s where run: "supplicant_poll demo_port 10 20 3 demo_owner = Some (Inr r, s)" and "nr_work_completed r = 3"
    by (rule demo_poll_returns)
  have one: "nr_work_completed (fst (np_poll demo_port now n w)) \<le> n" if "n \<noteq> 0" for now n w
    using that by (simp add: demo_port_def word_le_nat_alt) (metis Suc_leI unat_gt_0)
  show ?thesis using poll_work_bounded [OF one _ run] run \<open>nr_work_completed r = 3\<close> by simp
qed

text \<open>C23: no EAPOL frame is stranded by a poll that succeeds.  When the vendor announces the frames it receives and
  reports an empty queue only when it is drained, then after the poll the frames it still holds are announced, also
  when the budget ended in the middle of the queue.\<close>

theorem poll_keeps_eapol_announced:
  assumes "port_announces drained P" "announced drained (ps_context s, ps_shared s)"
    and run: "supplicant_poll P now1 now2 work_budget s = Some (Inr r, s')"
  shows "announced drained (ps_context s', ps_shared s')"
proof -
  have returned: "ps_announced drained t" if "ps_disconnect_returned s = (b, t)" for b t
    using assms(2) that by (auto simp: ps_disconnect_returned_def split: prod.splits sum.splits)
  from run show ?thesis
  proof (cases rule: supplicant_poll_Inr)
    case 1
    then show ?thesis using returned by (metis prod.collapse)
  next
    case (2 m s2)
    have "ps_announced drained (snd (ps_disconnect_returned s))" using returned by (metis prod.collapse)
    then have "ps_announced drained s2" by (rule poll_feeds_announces [OF assms(1) 2(1)])
    then show ?thesis by (rule poll_finish_announces [OF assms(1) 2(2)])
  qed
qed

theorem poll_keeps_eapol_announced_witness:
  "\<exists>r s. supplicant_poll demo_port 10 20 3 demo_owner = Some (Inr r, s) \<and> ps_context s = 1
    \<and> announced (\<lambda>n. n = 0) (ps_context s, ps_shared s)"
proof -
  obtain r s where run: "supplicant_poll demo_port 10 20 3 demo_owner = Some (Inr r, s)" and "ps_context s = 1"
    by (rule demo_poll_returns)
  have "port_announces (\<lambda>n. n = 0) demo_port"
    by (auto simp: port_announces_def call_announces_def announced_def demo_port_def)
  moreover have "announced (\<lambda>n. n = 0) (ps_context demo_owner, ps_shared demo_owner)"
    by (simp add: announced_def demo_owner_def)
  ultimately show ?thesis using poll_keeps_eapol_announced [OF _ _ run] run \<open>ps_context s = 1\<close> by blast
qed

text \<open>C24: an external authentication status is sent again at most once.  As long as no newer status was sent, however
  often the owner looks and whatever happens between the looks, the vendor receives at most one repetition: not before a
  second has passed since the owner first saw the status, and not when an association event came after it.  When the
  status is cached and no association event comes, the first look after that second does send it.\<close>

theorem auth_status_repeated_once:
  assumes "counts_sends sent P" "list_all (\<lambda>(_, _, h). sent_sequence h = sq) ((now0, c0, h0) # looks)"
    and "sq \<noteq> 0" "ps_status_sequence s \<noteq> sq"
  shows "let sends = retry_sends sent P ((now0, c0, h0) # looks) s; deadline = sat_add now0 RETRY_DELAY_MS
    in length sends \<le> 1
      \<and> list_all (\<lambda>(now_ms, _, h). deadline \<le> now_ms \<and> \<not> association_after sq h) sends
      \<and> (list_all (\<lambda>(_, _, h). nh_auth_cache h \<noteq> None \<and> \<not> association_after sq h) ((now0, c0, h0) # looks)
           \<and> list_ex (\<lambda>(now_ms, _, _). deadline \<le> now_ms) ((now0, c0, h0) # looks) \<longrightarrow> length sends = 1)"
proof -
  define s' where "s' = s\<lparr> ps_status_sequence := sq, ps_retry_deadline := sat_add now0 RETRY_DELAY_MS, ps_retry_pending := True \<rparr>"
  have "sent_sequence h0 = sq" using assms(2) by simp
  from look_first [OF this assms(3,4), of P now0 c0]
  have "retry_sends sent P ((now0, c0, h0) # looks) s = retry_sends sent P ((now0, c0, h0) # looks) s'"
    by (simp add: s'_def)
  then show ?thesis
    using retry_sends_armed [OF assms(1,2), of s'] by (simp only: Let_def) (simp add: s'_def)
qed

text \<open>A vendor that counts the status requests it receives.\<close>

definition counting_port :: "nat nport" where
  "counting_port = demo_port\<lparr> np_send_auth_status := (\<lambda>_ w. (0, Suc (fst w), snd w)) \<rparr>"

definition demo_sent :: nshared where
  "demo_sent = (nh_new demo_sys)\<lparr> nh_status_sent := \<lparr> ap_sequence = 5, ap_timestamp_ms = 0 \<rparr>,
     nh_auth_cache := Some \<lparr> ac_status = 0, ac_bssid = replicate 6 0, ac_pmkid_present = False, ac_pmkid = replicate 16 0 \<rparr> \<rparr>"

definition demo_looks :: "nat look list" where
  "demo_looks = [(100, 0, demo_sent), (600, 0, demo_sent), (1100, 0, demo_sent), (5000, 1, demo_sent)]"

theorem auth_status_repeated_once_witness:
  "length (retry_sends id counting_port demo_looks demo_owner) \<le> 1
    \<and> map fst (retry_sends id counting_port demo_looks demo_owner) = [1100]"
proof -
  have counts: "counts_sends id counting_port" by (simp add: counts_sends_def counting_port_def)
  have same: "list_all (\<lambda>(_, _, h). sent_sequence h = 5)
      ((100, 0, demo_sent) # [(600, 0, demo_sent), (1100, 0, demo_sent), (5000, 1 :: nat, demo_sent)])"
    by (simp add: sent_sequence_def demo_sent_def)
  have other: "ps_status_sequence demo_owner \<noteq> 5" by (simp add: demo_owner_def)
  have "map fst (retry_sends id counting_port demo_looks demo_owner) = [1100]"
    by code_simp
  moreover have "(5 :: u32) \<noteq> 0" by simp
  ultimately show ?thesis
    using auth_status_repeated_once [OF counts same _ other] by (simp add: Let_def demo_looks_def)
qed

text \<open>Preparing the port is idempotent: once it has succeeded for a name, every later call with a working runtime
  leaves everything as it is, and succeeds exactly for that name.\<close>

theorem port_prepare_idempotent:
  assumes "prepare_upstream_supplicant_port C name (h, d) = (Inr (), h1, d1)" "pc_init C' = Inr ()"
  shows "prepare_upstream_supplicant_port C' name' (h1, d1) = (if name' = name then Inr () else Inl InterfaceConflict, h1, d1)"
  using prepare_matches [OF assms(1)] assms(2) by (simp add: prepare_upstream_supplicant_port_def)

definition demo_calls :: "nat port_calls" where
  "demo_calls = \<lparr> pc_init = Inr (), pc_already_installed = 7, pc_worker_wake = Inr (), pc_worker_task = Inr (),
     pc_os_install = 0, pc_driver_install = 0, pc_os_uninstall = 0 \<rparr>"

definition demo_driver :: driver_context where
  "demo_driver = \<lparr> dc_ifname = replicate 17 0, dc_cookie = 0 \<rparr>"

text \<open>A poll that fails in the middle of the vendor's queue has already taken the announcement, and leaves the other
  frames unannounced.\<close>

definition bad_frame_port :: "nat nport" where
  "bad_frame_port = demo_port\<lparr> np_receive_eapol := (\<lambda>(n, h). ((0, replicate 800 0, 16), n - 1, h)) \<rparr>"

theorem poll_error_strands_eapol:
  "map_option (\<lambda>(r, s). (r = Inl InvalidResult, ps_context s, nh_eapol_pending (ps_shared s), input_pending s))
     (supplicant_poll bad_frame_port 10 20 3 demo_owner) = Some (True, 2, False, False)"
  by code_simp

end
