(* ===== verification/Hooks.thy ===== *)
theory Hooks
  imports Supplicant
begin

text \<open>
  The driver hooks hostap calls (\<open>src/src/upstream_supplicant.rs\<close>): keys, EAPOL and status frames, scan and
  association requests.

  Hooks check what C hands them and turn it into the vendor's ioctl requests.  A pointer is an option of the bytes
  behind it.  Constants of the native interface crate are an argument; the ioctl is a function of the state.  Requests
  are the structures the vendor reads, without their reserved fields.
\<close>

section \<open>Keys\<close>

record hostap_abi =
  ab_version :: u16
  ci_none :: u8
  ci_wep :: u8
  ci_tkip :: u8
  ci_ccmp :: u8
  ci_bip_cmac_128 :: u8
  ci_gcmp :: u8
  ci_gcmp_256 :: u8
  ci_ccmp_256 :: u8
  ci_bip_gmac_128 :: u8
  ci_bip_gmac_256 :: u8
  ci_bip_cmac_256 :: u8
  kf_default :: u32
  kf_rx :: u32
  kf_tx :: u32
  kf_group :: u32
  kf_pairwise :: u32
  kf_modify :: u32
  kf_pmk :: u32
  pw_hunt_and_peck :: u8
  pw_hash_to_element :: u8
  pw_both :: u8
  pmf_required :: u8
  max_scan_frequencies :: nat
  max_scan_ie_len :: nat

record hkey =
  ky_abi_version :: u16
  ky_cipher :: u8
  ky_flags :: u32
  ky_index :: u32
  ky_peer_present :: u8
  ky_peer :: "u8 list"
  ky_sequence_len :: nat
  ky_sequence :: "u8 list"

record key_extension =
  kx_key_type :: i32
  kx_key_index :: u32
  kx_key_len :: u32
  kx_sequence_len :: u32
  kx_cipher :: u32
  kx_address :: "u8 list option"
  kx_material :: "u8 list option"
  kx_sequence :: "u8 list option"
  kx_default_data :: u8
  kx_default_management :: u8
  kx_default_types :: u8

definition KEY_TYPE_GROUP :: i32 where "KEY_TYPE_GROUP = 0"
definition KEY_TYPE_PAIRWISE :: i32 where "KEY_TYPE_PAIRWISE = 1"
definition KEY_DEFAULT_INVALID :: u8 where "KEY_DEFAULT_INVALID = 0"
definition KEY_DEFAULT_UNICAST :: u8 where "KEY_DEFAULT_UNICAST = 1"
definition KEY_DEFAULT_MULTICAST :: u8 where "KEY_DEFAULT_MULTICAST = 2"

definition IOCTL_NEW_KEY :: u32 where "IOCTL_NEW_KEY = 1"
definition IOCTL_DEL_KEY :: u32 where "IOCTL_DEL_KEY = 2"
definition IOCTL_SET_KEY :: u32 where "IOCTL_SET_KEY = 3"

definition valid_key_material :: "hostap_abi \<Rightarrow> u8 \<Rightarrow> nat \<Rightarrow> bool" where
  "valid_key_material A cipher len =
     (if cipher = ci_wep A then len = 5 \<or> len = 13
      else if cipher = ci_tkip A \<or> cipher = ci_gcmp_256 A \<or> cipher = ci_ccmp_256 A \<or> cipher = ci_bip_gmac_256 A
          \<or> cipher = ci_bip_cmac_256 A then len = 32
      else if cipher = ci_ccmp A \<or> cipher = ci_bip_cmac_128 A \<or> cipher = ci_gcmp A \<or> cipher = ci_bip_gmac_128 A then len = 16
      else False)"

unbundle bit_operations_syntax

definition cipher_selector :: "hostap_abi \<Rightarrow> u8 \<Rightarrow> nat \<Rightarrow> u32 option" where
  "cipher_selector A cipher len =
     (if cipher = ci_none A then Some 0
      else if cipher = ci_wep A \<and> len = 5 then Some 1
      else if cipher = ci_wep A \<and> len = 13 then Some 5
      else if cipher = ci_tkip A then Some 2
      else if cipher = ci_ccmp A then Some 4
      else if cipher = ci_bip_cmac_128 A then Some 6
      else if cipher = ci_gcmp A then Some 8
      else if cipher = ci_gcmp_256 A then Some 9
      else if cipher = ci_ccmp_256 A then Some 10
      else if cipher = ci_bip_gmac_128 A then Some 11
      else if cipher = ci_bip_gmac_256 A then Some 12
      else if cipher = ci_bip_cmac_256 A then Some 13
      else None)"

definition cipher_suite :: "hostap_abi \<Rightarrow> u8 \<Rightarrow> nat \<Rightarrow> u32 option" where
  "cipher_suite A cipher len = map_option (\<lambda>sel. if sel = 0 then 0 else 0x000fac00 OR sel) (cipher_selector A cipher len)"

definition key_refused :: "hostap_abi \<Rightarrow> hkey \<Rightarrow> bool" where
  "key_refused A key \<longleftrightarrow>
     ky_abi_version key \<noteq> ab_version A \<or> length (ky_sequence key) < ky_sequence_len key
     \<or> ky_flags key AND NOT (kf_default A OR kf_rx A OR kf_tx A OR kf_group A OR kf_pairwise A) \<noteq> 0
     \<or> ky_flags key AND (kf_modify A OR kf_pmk A) \<noteq> 0
     \<or> ky_flags key AND (kf_rx A OR kf_tx A) = 0"

definition key_request :: "hostap_abi \<Rightarrow> hkey \<Rightarrow> u8 list option \<Rightarrow> nat \<Rightarrow> key_extension option" where
  "key_request A key material len =
     (let pairwise = (ky_flags key AND kf_pairwise A \<noteq> 0); grp = (ky_flags key AND kf_group A \<noteq> 0);
          broadcast = (ky_peer key = replicate 6 0xff);
          management = (ky_cipher key = ci_bip_cmac_128 A \<or> ky_cipher key = ci_bip_gmac_128 A
                        \<or> ky_cipher key = ci_bip_gmac_256 A \<or> ky_cipher key = ci_bip_cmac_256 A)
      in if key_refused A key \<or> pairwise = grp \<or> 1 < ky_peer_present key
            \<or> (pairwise \<and> (ky_peer_present key \<noteq> 1 \<or> broadcast))
            \<or> (grp \<and> ky_peer_present key = 1 \<and> \<not> broadcast)
         then None
         else
           (case cipher_suite A (ky_cipher key) len of
              None \<Rightarrow> None
            | Some suite \<Rightarrow> Some
                \<lparr> kx_key_type = (if pairwise then KEY_TYPE_PAIRWISE else KEY_TYPE_GROUP), kx_key_index = ky_index key,
                  kx_key_len = of_nat len, kx_sequence_len = of_nat (ky_sequence_len key), kx_cipher = suite,
                  kx_address = (if pairwise then Some (ky_peer key) else None), kx_material = material,
                  kx_sequence = (if ky_sequence_len key \<noteq> 0 then Some (ky_sequence key) else None),
                  kx_default_data = (if management then 0 else 1), kx_default_management = (if management then 1 else 0),
                  kx_default_types = (if pairwise then KEY_DEFAULT_UNICAST else if ky_peer_present key = 1 then KEY_DEFAULT_MULTICAST
                                      else KEY_DEFAULT_INVALID) \<rparr>))"

definition install_key_via ::
  "hostap_abi \<Rightarrow> (u32 \<Rightarrow> key_extension \<Rightarrow> 'w \<Rightarrow> i32 \<times> 'w) \<Rightarrow> hkey \<Rightarrow> u8 list option \<Rightarrow> 'w \<Rightarrow> i32 \<times> 'w" where
  "install_key_via A ioctl key material w =
     (case material of
        None \<Rightarrow> (- 1, w)
      | Some bytes \<Rightarrow>
          if \<not> valid_key_material A (ky_cipher key) (length bytes) then (- 1, w)
          else
            (case key_request A key material (length bytes) of
               None \<Rightarrow> (- 1, w)
             | Some request \<Rightarrow>
                 (case ioctl IOCTL_NEW_KEY request w of
                    (install, w1) \<Rightarrow>
                      if install \<noteq> 0 \<or> ky_flags key AND kf_tx A = 0 then (install, w1)
                      else
                        (case ioctl IOCTL_SET_KEY request w1 of
                           (set_default, w2) \<Rightarrow>
                             (set_default, if set_default \<noteq> 0 then snd (ioctl IOCTL_DEL_KEY request w2) else w2)))))"

definition remove_key_via ::
  "hostap_abi \<Rightarrow> (u32 \<Rightarrow> key_extension \<Rightarrow> 'w \<Rightarrow> i32 \<times> 'w) \<Rightarrow> hkey \<Rightarrow> 'w \<Rightarrow> i32 \<times> 'w" where
  "remove_key_via A ioctl key w =
     (case key_request A key None 0 of None \<Rightarrow> (- 1, w) | Some request \<Rightarrow> ioctl IOCTL_DEL_KEY request w)"

definition install_key ::
  "hostap_abi \<Rightarrow> (u32 \<Rightarrow> key_extension \<Rightarrow> 'w \<Rightarrow> i32 \<times> 'w) \<Rightarrow> bool \<Rightarrow> hkey option \<Rightarrow> u8 list option \<Rightarrow> 'w \<Rightarrow> i32 \<times> 'w" where
  "install_key A ioctl own key material w =
     (if \<not> own then (- 1, w) else case key of None \<Rightarrow> (- 1, w) | Some k \<Rightarrow> install_key_via A ioctl k material w)"

definition remove_key ::
  "hostap_abi \<Rightarrow> (u32 \<Rightarrow> key_extension \<Rightarrow> 'w \<Rightarrow> i32 \<times> 'w) \<Rightarrow> bool \<Rightarrow> hkey option \<Rightarrow> 'w \<Rightarrow> i32 \<times> 'w" where
  "remove_key A ioctl own key w =
     (if \<not> own then (- 1, w) else case key of None \<Rightarrow> (- 1, w) | Some k \<Rightarrow> remove_key_via A ioctl k w)"

section \<open>EAPOL frames\<close>

definition MAX_EAPOL_PAYLOAD_LEN :: nat where "MAX_EAPOL_PAYLOAD_LEN = 800"

definition build_eapol_frame :: "u8 list \<Rightarrow> u8 list \<Rightarrow> u8 list \<Rightarrow> u8 list option" where
  "build_eapol_frame destination source payload =
     (if payload = [] \<or> MAX_EAPOL_PAYLOAD_LEN < length payload then None
      else Some (destination @ source @ EAPOL_ETHERTYPE @ payload))"

text \<open>\<open>live\<close> is the address the interface reports, \<open>ask\<close> the ioctl that reads it otherwise.\<close>

definition get_own_address :: "u8 list option \<Rightarrow> ('w \<Rightarrow> (i32 \<times> u8 list) \<times> 'w) \<Rightarrow> bool \<Rightarrow> 'w \<Rightarrow> (i32 \<times> u8 list) \<times> 'w" where
  "get_own_address live ask own w =
     (if \<not> own then ((- 1, replicate 6 0), w)
      else case live of Some address \<Rightarrow> ((0, address), w) | None \<Rightarrow> ask w)"

definition send_eapol ::
  "u8 list option \<Rightarrow> ('w \<Rightarrow> (i32 \<times> u8 list) \<times> 'w) \<Rightarrow> (u8 list \<Rightarrow> 'w \<Rightarrow> i32 \<times> 'w) \<Rightarrow> bool \<Rightarrow> u8 list option \<Rightarrow> u8 list option
     \<Rightarrow> 'w \<Rightarrow> i32 \<times> 'w" where
  "send_eapol live ask ioctl own destination payload w =
     (case (own, destination, payload) of
        (True, Some dst, Some bytes) \<Rightarrow>
          if bytes = [] \<or> MAX_EAPOL_PAYLOAD_LEN < length bytes then (- 1, w)
          else
            (case get_own_address live ask own w of
               ((status, source), w1) \<Rightarrow>
                 if status \<noteq> 0 then (- 1, w1)
                 else (case build_eapol_frame dst source bytes of None \<Rightarrow> (- 1, w1) | Some frame \<Rightarrow> ioctl frame w1))
      | _ \<Rightarrow> (- 1, w))"

section \<open>State of the hooks\<close>

record hsys =
  hk_shared :: nshared
  hk_driver :: driver_context
  hk_rx_rejected :: bool

definition hk_on_shared :: "(nshared \<Rightarrow> nshared) \<Rightarrow> hsys \<Rightarrow> hsys" where
  "hk_on_shared f s = s\<lparr> hk_shared := f (hk_shared s) \<rparr>"

abbreviation hk_native :: "hsys \<Rightarrow> dsys" where
  "hk_native s \<equiv> nh_native (hk_shared s)"

definition hk_set_native :: "dsys \<Rightarrow> hsys \<Rightarrow> hsys" where
  "hk_set_native d = hk_on_shared (\<lambda>h. h\<lparr> nh_native := d \<rparr>)"

section \<open>External authentication status\<close>

record auth_status =
  as_abi_version :: u16
  as_status :: u16
  as_bssid :: "u8 list"
  as_pmkid_present :: u8
  as_pmkid :: "u8 list"

definition cache_external_auth_status :: "auth_status \<Rightarrow> nshared \<Rightarrow> nshared" where
  "cache_external_auth_status st h =
     h\<lparr> nh_auth_cache := Some \<lparr> ac_status = as_status st, ac_bssid = as_bssid st,
          ac_pmkid_present = (as_pmkid_present st \<noteq> 0), ac_pmkid = as_pmkid st \<rparr> \<rparr>"

definition send_external_auth_status ::
  "hostap_abi \<Rightarrow> (auth_cache \<Rightarrow> hsys \<Rightarrow> i32 \<times> hsys) \<Rightarrow> u64 \<Rightarrow> bool \<Rightarrow> auth_status option \<Rightarrow> hsys \<Rightarrow> i32 \<times> hsys" where
  "send_external_auth_status A ioctl now_ms own status s =
     (case (own, status) of
        (True, Some st) \<Rightarrow>
          if as_abi_version st \<noteq> ab_version A \<or> 1 < as_pmkid_present st then (- 1, s)
          else
            let s1 = hk_on_shared (cache_external_auth_status st) s
            in (case nh_auth_cache (hk_shared s1) of
                  None \<Rightarrow> (- 1, s1)
                | Some cached \<Rightarrow>
                    (case ioctl cached s1 of
                       (result, s2) \<Rightarrow>
                         (result, if result = 0
                                  then hk_on_shared (\<lambda>h. case ap_observe now_ms h of (p, h1) \<Rightarrow> h1\<lparr> nh_status_sent := p \<rparr>) s2
                                  else s2)))
      | _ \<Rightarrow> (- 1, s))"

section \<open>Scan requests\<close>

record scan_request =
  sr_abi_version :: u16
  sr_ssid_len :: u8
  sr_ssid :: "u8 list"
  sr_num_frequencies :: u8
  sr_frequencies :: "i32 list"
  sr_bssid_present :: u8
  sr_bssid :: "u8 list"
  sr_extra_ies :: "u8 list option"
  sr_extra_ies_len :: nat

record vendor_scan =
  vs_ssid :: "u8 list"
  vs_ssid_len :: u32
  vs_frequencies :: "i32 list option"
  vs_num_frequencies :: u8
  vs_extra_ies :: "u8 list option"
  vs_extra_ies_len :: u32
  vs_bssid :: "u8 list option"
  vs_num_ssids :: u8

definition scan_refused :: "hostap_abi \<Rightarrow> scan_request \<Rightarrow> bool" where
  "scan_refused A r \<longleftrightarrow>
     sr_abi_version r \<noteq> ab_version A \<or> length (sr_ssid r) < unat (sr_ssid_len r)
     \<or> max_scan_frequencies A < unat (sr_num_frequencies r) \<or> 1 < sr_bssid_present r
     \<or> max_scan_ie_len A < sr_extra_ies_len r \<or> (sr_extra_ies_len r \<noteq> 0 \<and> sr_extra_ies r = None)"

definition vendor_scan_request :: "scan_request \<Rightarrow> vendor_scan" where
  "vendor_scan_request r =
     \<lparr> vs_ssid = sr_ssid r, vs_ssid_len = ucast (sr_ssid_len r),
       vs_frequencies = (if sr_num_frequencies r = 0 then None else Some (sr_frequencies r)),
       vs_num_frequencies = sr_num_frequencies r, vs_extra_ies = sr_extra_ies r,
       vs_extra_ies_len = of_nat (sr_extra_ies_len r),
       vs_bssid = (if sr_bssid_present r = 0 then None else Some (sr_bssid r)), vs_num_ssids = 1 \<rparr>"

definition start_scan :: "hostap_abi \<Rightarrow> (vendor_scan \<Rightarrow> hsys \<Rightarrow> i32 \<times> hsys) \<Rightarrow> bool \<Rightarrow> scan_request option \<Rightarrow> hsys \<Rightarrow> i32 \<times> hsys" where
  "start_scan A ioctl own request s =
     (case (own, request) of
        (True, Some r) \<Rightarrow>
          if scan_refused A r \<or> nh_scan_active (hk_shared s) then (- 1, s)
          else
            (case ioctl (vendor_scan_request r)
                    (hk_on_shared (\<lambda>h. h\<lparr> nh_scan_active := True, nh_scan := sc_begin_transaction (nh_scan h) \<rparr>) s) of
               (status, s1) \<Rightarrow>
                 (status, if status \<noteq> 0 then hk_on_shared (\<lambda>h. h\<lparr> nh_scan_active := False \<rparr>) s1 else s1))
      | _ \<Rightarrow> (- 1, s))"

section \<open>Association requests\<close>

definition vendor_sae_pwe :: "hostap_abi \<Rightarrow> u8 \<Rightarrow> i32 option" where
  "vendor_sae_pwe A v =
     (if v = pw_hunt_and_peck A then Some 1 else if v = pw_hash_to_element A then Some 2 else if v = pw_both A then Some 3 else None)"

record associate_request =
  ar_abi_version :: u16
  ar_ssid_len :: u8
  ar_ssid :: "u8 list"
  ar_bssid_present :: u8
  ar_bssid :: "u8 list"
  ar_pmf :: u8
  ar_sae_pwe :: u8
  ar_auth_type :: u8
  ar_privacy :: u8
  ar_frequency_mhz :: u32
  ar_wpa_versions :: u32
  ar_pairwise_suite :: u32
  ar_group_suite :: u32
  ar_key_mgmt_suite :: u32
  ar_association_ies :: "u8 list option"
  ar_association_ies_len :: nat

record vendor_associate =
  va_bssid :: "u8 list option"
  va_ssid :: "u8 list"
  va_ssid_len :: u32
  va_ies :: "u8 list option"
  va_ies_len :: u32
  va_auth_type :: u8
  va_privacy :: u8
  va_pmf :: u8
  va_frequency_mhz :: u32
  va_wpa_versions :: u32
  va_group :: u32
  va_pairwise :: "u32 list"
  va_akm :: "u32 list"
  va_sae_pwe :: i32

definition associate_refused :: "hostap_abi \<Rightarrow> associate_request \<Rightarrow> bool" where
  "associate_refused A r \<longleftrightarrow>
     ar_abi_version r \<noteq> ab_version A \<or> ar_ssid_len r = 0 \<or> length (ar_ssid r) < unat (ar_ssid_len r)
     \<or> 1 < ar_bssid_present r \<or> pmf_required A < ar_pmf r \<or> pw_both A < ar_sae_pwe r
     \<or> (ar_auth_type r \<noteq> 0 \<and> ar_auth_type r \<noteq> 3) \<or> ar_frequency_mhz r = 0 \<or> ar_pairwise_suite r = 0
     \<or> ar_group_suite r = 0 \<or> ar_key_mgmt_suite r = 0 \<or> MAX_ASSOCIATION_IE_LEN < ar_association_ies_len r
     \<or> (ar_association_ies_len r \<noteq> 0 \<and> ar_association_ies r = None)"

definition vendor_associate_request :: "associate_request \<Rightarrow> i32 \<Rightarrow> vendor_associate" where
  "vendor_associate_request r sae_pwe =
     \<lparr> va_bssid = (if ar_bssid_present r = 0 then None else Some (ar_bssid r)), va_ssid = ar_ssid r,
       va_ssid_len = ucast (ar_ssid_len r), va_ies = ar_association_ies r, va_ies_len = of_nat (ar_association_ies_len r),
       va_auth_type = ar_auth_type r, va_privacy = ar_privacy r, va_pmf = ar_pmf r, va_frequency_mhz = ar_frequency_mhz r,
       va_wpa_versions = ar_wpa_versions r, va_group = ar_group_suite r, va_pairwise = [ar_pairwise_suite r, 0, 0, 0, 0],
       va_akm = [ar_key_mgmt_suite r, 0], va_sae_pwe = sae_pwe \<rparr>"

definition UNSUPPORTED_QUEUED_RX :: i32 where "UNSUPPORTED_QUEUED_RX = - 0x1024"

definition prepare_association_host_tx :: "hsys \<Rightarrow> (i32 + unit) \<times> hsys" where
  "prepare_association_host_tx s =
     (if hk_rx_rejected s then (Inl UNSUPPORTED_QUEUED_RX, s)
      else
        (case dq_poll_idle (ds_queue (hk_native s)) of
           Inl e \<Rightarrow> (Inl (derror_status e), s)
         | Inr p \<Rightarrow>
             if is_pending p then (Inl (derror_status Busy), s)
             else
               (case ht_resume_handshake (uc_native_handshake_status (ds_users (hk_native s))) (ds_tx (hk_native s)) of
                  (r, t) \<Rightarrow> (r, hk_set_native ((hk_native s)\<lparr> ds_tx := t \<rparr>) s))))"

text \<open>\<open>initial\<close> is the feature of the initial session.\<close>

definition association_started :: "bool \<Rightarrow> hsys \<Rightarrow> hsys" where
  "association_started initial s =
     (if initial then hk_set_native ((hk_native s)\<lparr> ds_route := cr_initial_association_started (ds_route (hk_native s)) \<rparr>) s else s)"

text \<open>The vendor's \<open>ioctl\<close> is any function of the state it is handed, so that what other contexts do between the check
  and the moment the vendor reads the request is part of it.\<close>

definition associate_retry ::
  "bool \<Rightarrow> (vendor_associate \<Rightarrow> hsys \<Rightarrow> i32 \<times> hsys) \<Rightarrow> vendor_associate \<Rightarrow> hsys \<Rightarrow> i32 \<times> hsys" where
  "associate_retry initial ioctl request s =
     (case prepare_association_host_tx s of
        (Inl status, s1) \<Rightarrow> (status, s1)
      | (Inr _, s1) \<Rightarrow> ioctl request (association_started initial s1))"

definition associate ::
  "hostap_abi \<Rightarrow> bool \<Rightarrow> (vendor_associate \<Rightarrow> hsys \<Rightarrow> i32 \<times> hsys) \<Rightarrow> denv \<Rightarrow> (dsys \<Rightarrow> bool \<times> dsys) \<Rightarrow> bool
     \<Rightarrow> associate_request option \<Rightarrow> hsys \<Rightarrow> (i32 \<times> hsys) option" where
  "associate A initial ioctl env wake own request s =
     (case (own, request) of
        (True, Some r) \<Rightarrow>
          if associate_refused A r then Some (- 1, s)
          else
            (case vendor_sae_pwe A (ar_sae_pwe r) of
               None \<Rightarrow> Some (- 1, s)
             | Some sae_pwe \<Rightarrow>
                 let va = vendor_associate_request r sae_pwe
                 in (case prepare_association_host_tx s of
                       (Inl status, s0) \<Rightarrow> Some (status, s0)
                     | (Inr _, s0) \<Rightarrow>
                         (case ioctl va (association_started initial s0) of
                            (status, s1) \<Rightarrow>
                              if status = 0 then Some (status, s1)
                              else
                                (case disconnect_inline env wake WLAN_REASON_PREV_AUTH_NOT_VALID (hk_native s1) of
                                   None \<Rightarrow> None
                                 | Some (cleared, _, d) \<Rightarrow>
                                     let s2 = hk_set_native d s1
                                     in Some (if cleared = 0 then associate_retry initial ioctl va s2 else (status, s2))))))
      | _ \<Rightarrow> Some (- 1, s))"

definition deauthenticate :: "(dsys \<Rightarrow> bool \<times> dsys) \<Rightarrow> bool \<Rightarrow> u16 \<Rightarrow> hsys \<Rightarrow> i32 \<times> hsys" where
  "deauthenticate wake own reason s =
     (if \<not> own then (- 1, s)
      else (case queue_deauthentication wake reason (hk_native s) of (status, d) \<Rightarrow> (status, hk_set_native d s)))"

section \<open>Keys, again\<close>

lemma cipher_suite_length:
  assumes "distinct [ci_none A, ci_wep A, ci_tkip A, ci_ccmp A, ci_bip_cmac_128 A, ci_gcmp A, ci_gcmp_256 A, ci_ccmp_256 A,
    ci_bip_gmac_128 A, ci_bip_gmac_256 A, ci_bip_cmac_256 A]"
  shows "cipher_suite A c 0 = (if c = ci_wep A then None else cipher_suite A c len)"
  using assms by (auto simp: cipher_suite_def cipher_selector_def)

lemma key_request_removal:
  assumes "distinct [ci_none A, ci_wep A, ci_tkip A, ci_ccmp A, ci_bip_cmac_128 A, ci_gcmp A, ci_gcmp_256 A, ci_ccmp_256 A,
    ci_bip_gmac_128 A, ci_bip_gmac_256 A, ci_bip_cmac_256 A]"
    and req: "key_request A key material len = Some r"
  shows "key_request A key None 0 = (if ky_cipher key = ci_wep A then None else Some (r\<lparr> kx_key_len := 0, kx_material := None \<rparr>))"
proof -
  note len = cipher_suite_length [OF assms(1), of "ky_cipher key" len]
  obtain suite where suite: "cipher_suite A (ky_cipher key) len = Some suite"
  proof (cases "cipher_suite A (ky_cipher key) len")
    case None
    have "key_request A key material len = None" unfolding key_request_def Let_def None by simp
    then show ?thesis using req by simp
  qed
  show ?thesis
    using req unfolding key_request_def Let_def len suite by (cases "ky_cipher key = ci_wep A") (auto split: if_split_asm)
qed

text \<open>The calls a vendor receives, with its answers, and whether it holds a key as far as it was told: a new key that it
  accepted and was not asked to remove since.\<close>

type_synonym key_call = "u32 \<times> key_extension \<times> i32"

definition logged ::
  "(u32 \<Rightarrow> key_extension \<Rightarrow> 'v \<Rightarrow> i32 \<times> 'v) \<Rightarrow> u32 \<Rightarrow> key_extension \<Rightarrow> key_call list \<times> 'v \<Rightarrow> i32 \<times> key_call list \<times> 'v" where
  "logged ioctl cmd r w = (case ioctl cmd r (snd w) of (st, v) \<Rightarrow> (st, fst w @ [(cmd, r, st)], v))"

definition key_held :: "key_call list \<Rightarrow> bool" where
  "key_held calls =
     fold (\<lambda>(cmd, _, st) held. if cmd = IOCTL_NEW_KEY then held \<or> st = 0 else held \<and> cmd \<noteq> IOCTL_DEL_KEY) calls False"

section \<open>Frames\<close>

lemma build_eapol_parts:
  assumes "build_eapol_frame destination source payload = Some frame" "length destination = 6" "length source = 6"
  shows "length frame = 14 + length payload \<and> take 2 (drop 12 frame) = EAPOL_ETHERTYPE
    \<and> take 6 (drop 6 frame) = source \<and> drop 14 frame = payload"
  using assms by (auto simp: build_eapol_frame_def EAPOL_ETHERTYPE_def split: if_splits)

section \<open>Association\<close>

text \<open>No teardown is pending, no teardown fault is latched, and the host transmit side is open and empty.\<close>

definition assoc_ready :: "hsys \<Rightarrow> bool" where
  "assoc_ready s \<longleftrightarrow> \<not> hk_rx_rejected s \<and> (\<exists>p. dq_poll_idle (ds_queue (hk_native s)) = Inr p \<and> \<not> is_pending p)
     \<and> uc_native_handshake_status (ds_users (hk_native s)) = 0
     \<and> \<not> hd_closed (ht_diag (ds_tx (hk_native s))) \<and> hd_fault (ht_diag (ds_tx (hk_native s))) = 0
     \<and> hd_pending (ht_diag (ds_tx (hk_native s))) = 0"

lemma hk_set_native_simps [simp]:
  "hk_native (hk_set_native d s) = d" "hk_rx_rejected (hk_set_native d s) = hk_rx_rejected s"
  by (simp_all add: hk_set_native_def hk_on_shared_def)

lemma prepare_ready:
  assumes "prepare_association_host_tx s = (Inr u, s1)"
  shows "assoc_ready (association_started initial s1)"
proof -
  obtain p where p: "dq_poll_idle (ds_queue (hk_native s)) = Inr p" "\<not> is_pending p" "\<not> hk_rx_rejected s"
    using assms by (auto simp: prepare_association_host_tx_def split: if_splits sum.splits)
  obtain t where t: "ht_resume_handshake (uc_native_handshake_status (ds_users (hk_native s))) (ds_tx (hk_native s)) = (Inr (), t)"
    and s1: "s1 = hk_set_native ((hk_native s)\<lparr> ds_tx := t \<rparr>) s"
    using assms p by (auto simp: prepare_association_host_tx_def split: prod.splits)
  have "uc_native_handshake_status (ds_users (hk_native s)) = 0 \<and> \<not> hd_closed (ht_diag t) \<and> hd_fault (ht_diag t) = 0
      \<and> hd_pending (ht_diag t) = 0"
    using t by (auto simp: ht_resume_handshake_def split: if_splits)
  then show ?thesis using p by (simp add: assoc_ready_def association_started_def s1)
qed

lemma retry_guarded:
  assumes "\<And>r s. assoc_ready s \<Longrightarrow> ioctl1 r s = ioctl2 r s"
  shows "associate_retry initial ioctl1 va s = associate_retry initial ioctl2 va s"
  using assms prepare_ready by (auto simp: associate_retry_def split: sum.splits prod.splits)

section \<open>Properties\<close>

text \<open>C25: an association request is handed to the vendor only when no teardown is pending and the host transmit side is
  open and empty, for the first attempt as for the repetition after a disconnect: what the vendor would answer in any
  other state does not matter.\<close>

theorem associate_only_when_ready:
  assumes "\<And>r s. assoc_ready s \<Longrightarrow> ioctl1 r s = ioctl2 r s"
  shows "associate A initial ioctl1 env wake own request s = associate A initial ioctl2 env wake own request s"
proof -
  have first: "ioctl1 va (association_started initial s0) = ioctl2 va (association_started initial s0)"
    if "prepare_association_host_tx s = (Inr u, s0)" for va s0 u
    using assms prepare_ready [OF that] by blast
  have retry: "associate_retry initial ioctl1 va t = associate_retry initial ioctl2 va t" for va t
    by (rule retry_guarded [OF assms])
  show ?thesis
    by (auto simp: associate_def Let_def retry first split: bool.splits option.splits sum.splits prod.splits)
qed

definition demo_abi :: hostap_abi where
  "demo_abi = \<lparr> ab_version = 1, ci_none = 0, ci_wep = 1, ci_tkip = 2, ci_ccmp = 3, ci_bip_cmac_128 = 4, ci_gcmp = 5,
     ci_gcmp_256 = 6, ci_ccmp_256 = 7, ci_bip_gmac_128 = 8, ci_bip_gmac_256 = 9, ci_bip_cmac_256 = 10, kf_default = 1,
     kf_rx = 2, kf_tx = 4, kf_group = 8, kf_pairwise = 16, kf_modify = 32, kf_pmk = 64, pw_hunt_and_peck = 0,
     pw_hash_to_element = 1, pw_both = 2, pmf_required = 2, max_scan_frequencies = 16, max_scan_ie_len = 1024 \<rparr>"

definition demo_request :: associate_request where
  "demo_request = \<lparr> ar_abi_version = 1, ar_ssid_len = 2, ar_ssid = replicate 32 65, ar_bssid_present = 0,
     ar_bssid = replicate 6 0, ar_pmf = 1, ar_sae_pwe = 0, ar_auth_type = 0, ar_privacy = 1, ar_frequency_mhz = 2412,
     ar_wpa_versions = 2, ar_pairwise_suite = 4, ar_group_suite = 4, ar_key_mgmt_suite = 2, ar_association_ies = None,
     ar_association_ies_len = 0 \<rparr>"

definition demo_hooks :: hsys where
  "demo_hooks = \<lparr> hk_shared = nh_new demo_sys, hk_driver = demo_driver, hk_rx_rejected = False \<rparr>"

text \<open>The vendor refuses the first request it sees and every request in a state that is not ready.\<close>

definition strict_ioctl :: "vendor_associate \<Rightarrow> hsys \<Rightarrow> i32 \<times> hsys" where
  "strict_ioctl r s =
     (let s1 = s\<lparr> hk_driver := (hk_driver s)\<lparr> dc_cookie := dc_cookie (hk_driver s) + 1 \<rparr> \<rparr>
      in if hd_closed (ht_diag (ds_tx (hk_native s))) then (9, s1) else (if dc_cookie (hk_driver s) = 0 then 5 else 0, s1))"

definition lax_ioctl :: "vendor_associate \<Rightarrow> hsys \<Rightarrow> i32 \<times> hsys" where
  "lax_ioctl r s =
     (let s1 = s\<lparr> hk_driver := (hk_driver s)\<lparr> dc_cookie := dc_cookie (hk_driver s) + 1 \<rparr> \<rparr>
      in (if dc_cookie (hk_driver s) = 0 then 5 else 0, s1))"

theorem associate_only_when_ready_witness:
  "associate demo_abi True strict_ioctl demo_env (\<lambda>d. (True, d)) True (Some demo_request) demo_hooks
     = associate demo_abi True lax_ioctl demo_env (\<lambda>d. (True, d)) True (Some demo_request) demo_hooks
   \<and> map_option fst (associate demo_abi True lax_ioctl demo_env (\<lambda>d. (True, d)) True (Some demo_request) demo_hooks) = Some 0"
proof -
  have "strict_ioctl r s = lax_ioctl r s" if "assoc_ready s" for r s
    using that by (simp add: strict_ioctl_def lax_ioctl_def assoc_ready_def Let_def)
  then have "associate demo_abi True strict_ioctl demo_env (\<lambda>d. (True, d)) True (Some demo_request) demo_hooks
     = associate demo_abi True lax_ioctl demo_env (\<lambda>d. (True, d)) True (Some demo_request) demo_hooks"
    by (rule associate_only_when_ready)
  moreover have "map_option fst (associate demo_abi True lax_ioctl demo_env (\<lambda>d. (True, d)) True (Some demo_request) demo_hooks) = Some 0"
    by code_simp
  ultimately show ?thesis by blast
qed

text \<open>C26: installing a key is all or nothing, whatever the vendor answers.  The calls the vendor receives all name the
  key that was requested.  The hook reports success exactly when the vendor accepted the key and was not asked to remove
  it again, and for a transmit key only when the vendor also accepted it as the default key.  In every other case the
  vendor has not accepted the key, or its removal is the last thing it was asked for.\<close>

theorem key_install_all_or_nothing:
  assumes "install_key A (logged ioctl) own (Some key) (Some bytes) ([], v) = (status, log, v')"
  shows "(status = 0 \<longleftrightarrow> key_held log)
    \<and> list_all (\<lambda>(_, r, _). key_request A key (Some bytes) (length bytes) = Some r) log
    \<and> (status = 0 \<and> ky_flags key AND kf_tx A \<noteq> 0 \<longrightarrow> list_ex (\<lambda>(c, _, st). c = IOCTL_SET_KEY \<and> st = 0) log)
    \<and> (status \<noteq> 0 \<longrightarrow> list_all (\<lambda>(c, _, st). c = IOCTL_NEW_KEY \<and> st \<noteq> 0) log \<or> fst (last log) = IOCTL_DEL_KEY)"
proof (cases "own \<and> valid_key_material A (ky_cipher key) (length bytes)")
  case ok: True
  show ?thesis
  proof (cases "key_request A key (Some bytes) (length bytes)")
    case None
    then show ?thesis using assms ok by (auto simp: install_key_def install_key_via_def key_held_def)
  next
    case (Some r)
    obtain i v1 where 1: "ioctl IOCTL_NEW_KEY r v = (i, v1)" by (cases rule: prod.exhaust)
    obtain d v2 where 2: "ioctl IOCTL_SET_KEY r v1 = (d, v2)" by (cases rule: prod.exhaust)
    obtain e v3 where 3: "ioctl IOCTL_DEL_KEY r v2 = (e, v3)" by (cases rule: prod.exhaust)
    have "(status, log) = (if i \<noteq> 0 \<or> ky_flags key AND kf_tx A = 0 then (i, [(IOCTL_NEW_KEY, r, i)])
        else (d, [(IOCTL_NEW_KEY, r, i), (IOCTL_SET_KEY, r, d)] @ (if d \<noteq> 0 then [(IOCTL_DEL_KEY, r, e)] else [])))"
      using assms ok Some 1 by (auto simp: install_key_def install_key_via_def logged_def 2 3 split: if_splits)
    then show ?thesis
      using Some
      by (auto simp: key_held_def IOCTL_NEW_KEY_def IOCTL_SET_KEY_def IOCTL_DEL_KEY_def split: if_splits)
  qed
next
  case False
  then have "status = - 1 \<and> log = []" using assms by (cases own) (simp_all add: install_key_def install_key_via_def)
  then show ?thesis by (simp add: key_held_def)
qed

text \<open>A vendor that accepts new keys and answers a set-key request with its state.\<close>

definition demo_ioctl :: "u32 \<Rightarrow> key_extension \<Rightarrow> i32 \<Rightarrow> i32 \<times> i32" where
  "demo_ioctl cmd r v = (if cmd = IOCTL_SET_KEY then v else 0, v)"

definition demo_key :: hkey where
  "demo_key = \<lparr> ky_abi_version = 1, ky_cipher = 3, ky_flags = 22, ky_index = 0, ky_peer_present = 1, ky_peer = [2, 0, 0, 0, 0, 1],
     ky_sequence_len = 0, ky_sequence = replicate 8 0 \<rparr>"

definition demo_install :: "i32 \<Rightarrow> i32 \<times> key_call list \<times> i32" where
  "demo_install v = install_key demo_abi (logged demo_ioctl) True (Some demo_key) (Some (replicate 16 1)) ([], v)"

theorem key_install_all_or_nothing_witness:
  "fst (demo_install 7) = 7 \<and> fst (last (fst (snd (demo_install 7)))) = IOCTL_DEL_KEY
   \<and> fst (demo_install 0) = 0 \<and> key_held (fst (snd (demo_install 0)))"
proof -
  have run: "install_key demo_abi (logged demo_ioctl) True (Some demo_key) (Some (replicate 16 1)) ([], v)
      = (fst (demo_install v), fst (snd (demo_install v)), snd (snd (demo_install v)))" for v
    by (simp add: demo_install_def)
  have "fst (demo_install 7) = 7" "fst (demo_install 0) = 0" "map fst (fst (snd (demo_install 7))) = [1, 3, 2]"
    by code_simp+
  moreover have "\<not> list_all (\<lambda>(c, _, st). c = IOCTL_NEW_KEY \<and> st \<noteq> 0) log" if "map fst log = [1, 3, 2]" for log :: "key_call list"
    using that by (auto simp: IOCTL_NEW_KEY_def)
  ultimately show ?thesis
    using key_install_all_or_nothing [OF run, of 7] key_install_all_or_nothing [OF run, of 0] by auto
qed

text \<open>C27: the request that removes a key names the same key as the one that installed it, without the material.
  WEP keys are the exception: their cipher depends on the length of the material, which a removal does not have, so
  that the hook refuses to remove a WEP key it has installed.\<close>

theorem key_removal_matches_installation:
  assumes "distinct [ci_none A, ci_wep A, ci_tkip A, ci_ccmp A, ci_bip_cmac_128 A, ci_gcmp A, ci_gcmp_256 A, ci_ccmp_256 A,
      ci_bip_gmac_128 A, ci_bip_gmac_256 A, ci_bip_cmac_256 A]"
    and "key_request A key (Some bytes) (length bytes) = Some r"
  shows "remove_key A ioctl True (Some key) w =
    (if ky_cipher key = ci_wep A then (- 1, w) else ioctl IOCTL_DEL_KEY (r\<lparr> kx_key_len := 0, kx_material := None \<rparr>) w)"
  using key_request_removal [OF assms] by (simp add: remove_key_def remove_key_via_def)

theorem key_removal_matches_installation_witness:
  "\<exists>r. key_request demo_abi demo_key (Some (replicate 16 1)) 16 = Some r
     \<and> remove_key demo_abi (\<lambda>c x w. (3, w @ [(c, x)])) True (Some demo_key) [] = (3, [(2, r\<lparr> kx_key_len := 0, kx_material := None \<rparr>)])
     \<and> fst (remove_key demo_abi (\<lambda>c x w. (3, w @ [(c, x)])) True (Some (demo_key\<lparr> ky_cipher := 1 \<rparr>)) []) = - 1"
proof -
  have d: "distinct [ci_none demo_abi, ci_wep demo_abi, ci_tkip demo_abi, ci_ccmp demo_abi, ci_bip_cmac_128 demo_abi,
      ci_gcmp demo_abi, ci_gcmp_256 demo_abi, ci_ccmp_256 demo_abi, ci_bip_gmac_128 demo_abi, ci_bip_gmac_256 demo_abi,
      ci_bip_cmac_256 demo_abi]" by code_simp
  have "map_option kx_key_len (key_request demo_abi demo_key (Some (replicate 16 1)) (length (replicate 16 (1 :: u8)))) = Some 16"
    "map_option kx_key_len (key_request demo_abi (demo_key\<lparr> ky_cipher := 1 \<rparr>) (Some (replicate 5 1)) (length (replicate 5 (1 :: u8)))) = Some 5"
    by code_simp+
  then obtain r r5 where r: "key_request demo_abi demo_key (Some (replicate 16 1)) (length (replicate 16 (1 :: u8))) = Some r"
    and r5: "key_request demo_abi (demo_key\<lparr> ky_cipher := 1 \<rparr>) (Some (replicate 5 1)) (length (replicate 5 (1 :: u8))) = Some r5"
    by blast
  show ?thesis
    using r key_removal_matches_installation [OF d r, of "\<lambda>c x w. (3, w @ [(c, x)])" "[]"]
      key_removal_matches_installation [OF d r5, of "\<lambda>c x w. (3, w @ [(c, x)])" "[]"]
    by (simp add: demo_key_def demo_abi_def IOCTL_DEL_KEY_def)
qed

text \<open>The receive path accepts the EAPOL frames the send path builds, and gives back their source and payload,
  exactly when the frame with its header fits the receive buffer.\<close>

theorem eapol_frame_roundtrip:
  assumes "length destination = 6" "length source = 6" "build_eapol_frame destination source payload = Some frame"
  shows "(eapol_valid frame (length frame) \<longleftrightarrow> length payload \<le> 786)
    \<and> take 6 (drop 6 frame) = source
    \<and> take (length frame - ETHERNET_HEADER_LEN) (drop ETHERNET_HEADER_LEN frame) = payload"
proof -
  have "payload \<noteq> []" using assms(3) by (simp add: build_eapol_frame_def split: if_splits)
  then show ?thesis
    using build_eapol_parts [OF assms(3,1,2)]
    by (auto simp: eapol_valid_def ETHERNET_HEADER_LEN_def MAX_EAPOL_RX_FRAME_LEN_def)
qed

end
