(* ===== verification/Spec2Isabelle.thy ===== *)
theory Spec2Isabelle
  imports Prelude Deauth HostTx UserCleanup Route RxOrigin RxStop Link Disconnect OsalQueue Timer Memory Log Smoltcp Netif
    Incremental Wait Worker SeqQueue Events Supplicant Hooks
begin

text \<open>
  Verification of the \<open>hisi-rf-ws63\<close> radio integration crate.

  The crate joins closed vendor archives and mask-ROM code of the WS63 radio to Rust: it supplies the C
  symbols the archives call (OSAL queues, events, timers, logging, packet buffers), drives the native
  supplicant, and hands Ethernet frames to a network stack.  What can go wrong in it is mostly ordering:
  callbacks of the archives interleave with the owner of the link, buffers outlive the association they
  were allocated for, and teardown must not be reported before the archives are done.  The development
  models the state each module keeps behind its lock as a record, every operation on it as a function of
  that record, and interleavings as sequences of operations.

  \<^bold>\<open>How the model corresponds to the code\<close>

  \<^item> A \<open>struct\<close> is a record with prefixed fields, an \<open>enum\<close> a datatype, a critical section one function, and a
    \<open>Result\<close> a sum whose left side is the error.  Fixed arrays are lists updated by index.
    Constants have the name of the \<open>const\<close> they stand for.
  \<^item> Integers on which the code computes are words of their width; \<open>usize\<close> values that index memory are
    naturals with the 32-bit wrap written out where the code can reach it.
  \<^item> Code that is not in this repository (vendor calls, the allocator, semaphores, the clock, traits of other
    crates) is an argument of the definition that uses it.  What it may do between two critical sections is
    an argument too, so that a theorem holds for every interleaving at that point.
  \<^item> Build features that select code are taken as in the standard L2 build; the legacy request ring and the build
    switches of single functions are modelled separately.
  \<^item> Undefined behaviour and calls that do not return are \<open>None\<close>.  Every loop of the model is structural or has
    a termination proof; the only fuel is the list of wait outcomes in \<open>OsalQueue\<close> and \<open>HostTx\<close>, one entry for
    each wait of the loop, and the theorems about those loops state that they return when the list is long
    enough.

  \<^bold>\<open>Shared theories\<close>

  \<^item> \<open>Prelude\<close>: word arithmetic, slot tables, rings, and the interfaces \<open>fifo\<close>, \<open>machine\<close>, \<open>latch\<close> and
    \<open>sticky\<close>, each interpreted by the components that provide it.
  \<^item> \<open>Memory\<close>: byte-addressed memory for the components that work on raw pointers.

  \<^bold>\<open>Components\<close>

  \<^item> \<open>Deauth\<close> (\<open>upstream_supplicant/deauth.rs\<close>): the receipt queue between hostap and the disconnect worker.
    Refinement to the log of results, service in order, at most one receipt for a sequence, faults kept.
  \<^item> \<open>HostTx\<close> (\<open>netif_l2/host_tx.rs\<close>): transmit slots of the host.  Accounting of every slot, drain, sealing.
  \<^item> \<open>UserCleanup\<close> (\<open>netif_l2/user_cleanup.rs\<close>): checked teardown of the native user record, with success
    characterised by the history of calls.
  \<^item> \<open>Route\<close> (\<open>netif_l2.rs\<close>, \<open>host_delivery.rs\<close>, \<open>initial_session.rs\<close>): admission of callbacks into the current
    link, with close revisions, tickets and delivery accounts.  Conservation of tickets, stale epochs and
    interrupted openings refused, opening only when drained, the initial session opened once.
  \<^item> \<open>RxOrigin\<close> (\<open>netif_l2/rx_origin.rs\<close>): the census of receive origins.
  \<^item> \<open>RxStop\<close> (\<open>netif_l2/rx_stop.rs\<close>, \<open>rx_stop/rebuild.rs\<close>): the stop transaction of the native receiver and the
    certificate it leaves.
  \<^item> \<open>Link\<close> (\<open>netif_l2/link.rs\<close>, \<open>netif_l2/storage.rs\<close>): binding, opening, closing and the transmit turn.
  \<^item> \<open>Disconnect\<close> (parts of \<open>upstream_supplicant.rs\<close>): the worker that runs a deauthentication and the end of a
    disconnect, over \<open>Deauth\<close>, \<open>UserCleanup\<close> and \<open>RxStop\<close>.
  \<^item> \<open>OsalQueue\<close> (\<open>osal_queue.rs\<close>): message queues over their byte ring and event groups with waiters.
  \<^item> \<open>Timer\<close> (\<open>timer.rs\<close>): software timers as the archives see them and the pass that fires them.
  \<^item> \<open>Log\<close> (\<open>log.rs\<close>): the bounded formatter against a declarative rendering of its format language, its
    overflow, and termination on every format.
  \<^item> \<open>Smoltcp\<close> (\<open>netif_smoltcp.rs\<close>): the receive ring of the network stack and the frame classification.
  \<^item> \<open>Netif\<close> (\<open>netif.rs\<close>): packet buffers with headroom and references, receive and transmit entries.
  \<^item> \<open>Incremental\<close> (\<open>hisi_rf_backend/incremental.rs\<close>): the operation a control request becomes, advanced by bounded
    polls over the supplicant port: verdicts, scan results, reconnects and terminal work.
  \<^item> \<open>Wait\<close> (\<open>incremental_wait.rs\<close>): the signal of the worker and its wait; a signal given between the two looks at it
    is not lost.
  \<^item> \<open>Worker\<close> (\<open>incremental_worker.rs\<close>): the mailbox between the caller and the worker that owns an \<open>Incremental\<close>
    operation.  Each request is answered exactly once, with the verdict of the operation, and the wait returns.
  \<^item> \<open>SeqQueue\<close> (the slot queues of \<open>upstream_supplicant.rs\<close>): the protocol of sequence numbers and slot states through
    which callbacks hand events to the owner, with producers and the consumer interleaved between their phases.
    Nothing is lost or taken twice, and the order is kept as far as the protocol keeps it.
  \<^item> \<open>Events\<close> (the \<open>enqueue_*\<close> callbacks of \<open>upstream_supplicant.rs\<close>): what each vendor callback queues and what it does to
    the \<open>Route\<close> before.  The end of a scan always finds a slot; link events close the route.
  \<^item> \<open>Supplicant\<close> (\<open>NativeSupplicant\<close> in \<open>upstream_supplicant.rs\<close>): creation, the bounded poll with its feeds, the EAPOL
    receive path, the repetition of an authentication status, and the installation of the port.
  \<^item> \<open>Hooks\<close> (the driver hooks of \<open>upstream_supplicant.rs\<close>): keys, EAPOL frames, scan, association and
    deauthentication requests as hostap makes them, over \<open>HostTx\<close> and \<open>Deauth\<close>.

  This theory adds the property that spans \<open>Netif\<close> and \<open>Route\<close>: a packet buffer that was allocated before the
  route was closed is dropped by the receive entry.

  \<^bold>\<open>Not modelled\<close>

  Bluetooth and SLE drive closed archives through callbacks and keep little state of their own; the cryptographic
  providers bind crates and engines that are not in this repository; register access, assembly, linker symbols,
  firmware examples and tests have no state to reason about.  Of \<open>upstream_supplicant.rs\<close> the translation of a
  station configuration, the blocking end of a scan, the transmission of management frames, the memory, clock and log
  hooks and the diagnostic words are left out, and so are the smoltcp device wrappers that implement traits of the
  network stack crate.  Diagnostic counters are modelled where a property mentions them.
\<close>

section \<open>Packet buffers across a close of the route\<close>

text \<open>C1: a packet buffer is stamped with the admission epoch of the route when it is allocated, and no
  operation of the buffer changes the stamp.  Once the route has been closed, whatever was done with the buffer
  and with the route since then, the receive entry drops the buffer: it is counted as dropped by the interface
  and by the route, the host never receives it, and exactly one reference to it is given up.\<close>

theorem stale_pbuf_never_delivered:
  assumes alloc: "pbuf_alloc kmalloc len (cr_allocation_epoch (rs_route w)) s0 = (q, s1)" and q: "q \<noteq> 0"
    and run: "pb_run q ops s1 = Some s" and live: "nf_pbufs s q = Some b"
    and closed: "\<exists>a \<in> set rops. closes a"
  shows "\<exists>s' r'. driverif_input receive between mtu nif q (s, rs_route (fold rs_step rops w)) = Some (0, s', r')
    \<and> nf_rx_received s' = nf_rx_received s \<and> nf_rx_dropped s' = nf_rx_dropped s + 1
    \<and> rd_allocation_drops (cr_diagnostics r') = rd_allocation_drops (cr_diagnostics (rs_route (fold rs_step rops w))) + 1
    \<and> nf_pbufs s' q = (if 1 < pb_ref b then Some (b\<lparr> pb_ref := pb_ref b - 1 \<rparr>) else None)"
proof -
  define r where "r = rs_route (fold rs_step rops w)"
  obtain b1 where b1: "nf_pbufs s1 q = Some b1" "pb_epoch b1 = cr_allocation_epoch (rs_route w)"
    using alloc q by (auto simp: pbuf_alloc_def Let_def split: if_splits)
  have epoch: "pb_epoch b = cr_allocation_epoch (rs_route w)"
    using pb_run_epoch [OF q b1(1) run live] b1(2) by simp
  note rejected = stale_epoch_rejected [OF closed, of w, folded r_def epoch]
  have "driverif_input receive between mtu nif q (s, r) =
      map_option (\<lambda>(_, s1). (0, s1, snd (cr_enter_allocated (pb_epoch b) r))) (pbuf_free q (nf_count_rx False s))"
    by (rule driverif_input_closed [OF q live]) (use rejected in simp)
  then show ?thesis
    unfolding r_def [symmetric] using q live rejected by (auto simp: pbuf_free_def nf_count_rx_def)
qed

theorem stale_pbuf_never_delivered_witness:
  "\<exists>s' r'. driverif_input (\<lambda>_ _ _. Inr ()) id 1514 0 1016
     (snd (pbuf_alloc (\<lambda>_. 1000) 60 (cr_allocation_epoch (rs_route rs_new)) nf_new), rs_route (fold rs_step [RClose] rs_new))
       = Some (0, s', r') \<and> nf_rx_dropped s' = 1 \<and> nf_pbufs s' 1016 = None"
proof -
  define s1 where "s1 = snd (pbuf_alloc (\<lambda>_. 1000) 60 (cr_allocation_epoch (rs_route rs_new)) nf_new)"
  have a: "pbuf_alloc (\<lambda>_. 1000) 60 (cr_allocation_epoch (rs_route rs_new)) nf_new = (1016, s1)"
    by (simp add: s1_def pbuf_alloc_def Let_def PBUF_HDR_def PBUF_ZERO_COPY_RESERVE_def PBUF_ZERO_COPY_TAILROOM_def PBUF_PREFIX_def)
  obtain b where b: "nf_pbufs s1 1016 = Some b" "pb_ref b = 1"
    by (simp add: s1_def pbuf_alloc_def Let_def PBUF_HDR_def PBUF_ZERO_COPY_RESERVE_def PBUF_ZERO_COPY_TAILROOM_def PBUF_PREFIX_def)
  have d: "nf_rx_dropped s1 = 0"
    by (simp add: s1_def pbuf_alloc_def Let_def nf_new_def PBUF_HDR_def PBUF_ZERO_COPY_RESERVE_def PBUF_ZERO_COPY_TAILROOM_def PBUF_PREFIX_def)
  have r: "pb_run 1016 [] s1 = Some s1" by simp
  have c: "\<exists>a \<in> set [RClose]. closes a" by simp
  from stale_pbuf_never_delivered [OF a _ r b(1) c, of "\<lambda>_ _ _. Inr ()" id 1514 0] b(2) d
  show ?thesis unfolding s1_def [symmetric] by fastforce
qed

end
